(* ===== verification/Kernel_Prelude.thy ===== *)
theory Kernel_Prelude
  imports Complex_Main "HOL-Library.Word" "HOL-Library.Monad_Syntax"
begin

text \<open>
  The prelude of the development: the machine types of the C sources, the fact collections the
  component theories fill, the checked primitives of the models (a fault is \<^const>\<open>None\<close>),
  and the generic lemmas about options, lists and doubly linked lists that the components share.
\<close>

section \<open>Machine types\<close>

type_synonym u8 = "8 word"
type_synonym u16 = "16 word"
type_synonym u32 = "32 word"
type_synonym u64 = "64 word"

text \<open>On x86_64 pointers, \<open>uintptr_t\<close> and \<open>size_t\<close> are 64 bits wide.\<close>

type_synonym ptr = u64

abbreviation NULL :: ptr where
  "NULL \<equiv> 0"

lemma u64_less: "unat (x :: u64) < 2 ^ 64"
  using unsigned_less [where 'a = nat, of x] by simp

named_theorems frame_simps "what an operation leaves unchanged"
named_theorems heap_simps "reading a store after an update"

section \<open>Lists\<close>

lemma last_Cons_append [simp]: "last (p # xs @ [x]) = x"
  by simp

lemma takeWhile_eq_filter_sorted:
  fixes f :: "'a \<Rightarrow> 'b::linorder"
  assumes "sorted (map f xs)"
  shows "takeWhile (\<lambda>x. f x < w) xs = filter (\<lambda>x. f x < w) xs"
  using assms
proof (induction xs)
  case (Cons a xs)
  then show ?case
    by (cases "f a < w") (force simp: not_less intro!: filter_False [symmetric])+
qed simp

lemma dropWhile_eq_filter_sorted:
  fixes f :: "'a \<Rightarrow> 'b::linorder"
  assumes "sorted (map f xs)"
  shows "dropWhile (\<lambda>x. f x < w) xs = filter (\<lambda>x. \<not> f x < w) xs"
  using assms
proof (induction xs)
  case (Cons a xs)
  then show ?case
    by (cases "f a < w") (auto simp: filter_id_conv not_less intro!: filter_True [symmetric])
qed simp

lemma filter_split_sorted:
  fixes f :: "'a \<Rightarrow> 'b::linorder"
  assumes "sorted (map f xs)"
  shows "xs = filter (\<lambda>x. f x < w) xs @ filter (\<lambda>x. \<not> f x < w) xs"
  using takeWhile_dropWhile_id [of "\<lambda>x. f x < w" xs]
  by (simp add: takeWhile_eq_filter_sorted [OF assms] dropWhile_eq_filter_sorted [OF assms])

lemma sorted_map_filter:
  fixes f :: "'a \<Rightarrow> 'b::linorder"
  shows "sorted (map f xs) \<Longrightarrow> sorted (map f (filter P xs))"
  by (induction xs) auto

lemma in_remove1D: "y \<in> set (remove1 x xs) \<Longrightarrow> y \<in> set xs"
  using set_remove1_subset [of x xs] by blast

lemma sorted_map_remove1:
  fixes f :: "'a \<Rightarrow> 'b::linorder"
  shows "sorted (map f xs) \<Longrightarrow> sorted (map f (remove1 x xs))"
  by (induction xs) (auto dest: in_remove1D)

lemma upt_add_Suc: "[i..<Suc (i + k)] = i # [Suc i..<Suc (i + k)]"
  by (simp add: upt_conv_Cons)

lemma upt_split_at: "i \<le> k \<Longrightarrow> k < j \<Longrightarrow> [i..<j] = [i..<k] @ k # [Suc k..<j]"
  by (metis upt_add_eq_append upt_conv_Cons le_add_diff_inverse less_imp_le_nat)

section \<open>Doubly linked lists over field functions\<close>

text \<open>
  A doubly linked list as the C code lays it out: \<open>nx\<close> and \<open>pv\<close> read the two link fields of
  an object, \<open>z\<close> is the terminator. \<open>seg nx pv z p xs\<close> says that following \<open>nx\<close> from \<open>p\<close>
  visits exactly \<open>xs\<close> and that every visited object points back; \<open>dll\<close> adds that the list ends.
\<close>

primrec seg :: "('a \<Rightarrow> 'a) \<Rightarrow> ('a \<Rightarrow> 'a) \<Rightarrow> 'a \<Rightarrow> 'a \<Rightarrow> 'a list \<Rightarrow> bool" where
  "seg nx pv z p [] \<longleftrightarrow> True"
| "seg nx pv z p (x # xs) \<longleftrightarrow> nx p = x \<and> x \<noteq> z \<and> pv x = p \<and> seg nx pv z x xs"

definition dll :: "('a \<Rightarrow> 'a) \<Rightarrow> ('a \<Rightarrow> 'a) \<Rightarrow> 'a \<Rightarrow> 'a \<Rightarrow> 'a list \<Rightarrow> bool" where
  "dll nx pv z p xs \<longleftrightarrow> seg nx pv z p xs \<and> nx (last (p # xs)) = z"

lemma seg_append:
  "seg nx pv z p (xs @ ys) \<longleftrightarrow> seg nx pv z p xs \<and> seg nx pv z (last (p # xs)) ys"
  by (induction xs arbitrary: p) auto

lemma seg_not_end: "seg nx pv z p xs \<Longrightarrow> z \<notin> set xs"
  by (induction xs arbitrary: p) auto

lemma dll_not_end: "dll nx pv z p xs \<Longrightarrow> z \<notin> set xs"
  unfolding dll_def by (blast dest: seg_not_end)

lemma dll_Nil [simp]: "dll nx pv z p [] \<longleftrightarrow> nx p = z"
  by (simp add: dll_def)

lemma dll_Cons: "dll nx pv z p (x # xs) \<longleftrightarrow> nx p = x \<and> x \<noteq> z \<and> pv x = p \<and> dll nx pv z x xs"
  by (auto simp: dll_def)

lemma dll_append:
  "dll nx pv z p (xs @ ys) \<longleftrightarrow> seg nx pv z p xs \<and> dll nx pv z (last (p # xs)) ys"
  by (auto simp: dll_def seg_append)

lemma seg_cong:
  assumes "\<And>x. x \<in> set (butlast (p # xs)) \<Longrightarrow> nx' x = nx x"
    and "\<And>x. x \<in> set xs \<Longrightarrow> pv' x = pv x"
  shows "seg nx' pv' z p xs = seg nx pv z p xs"
  using assms
proof (induction xs arbitrary: p)
  case (Cons x xs)
  have "seg nx' pv' z x xs = seg nx pv z x xs"
    by (rule Cons.IH) (use Cons.prems in \<open>auto split: if_splits\<close>)
  with Cons.prems show ?case by simp
qed simp

lemma dll_cong:
  assumes "\<And>x. x \<in> set (p # xs) \<Longrightarrow> nx' x = nx x"
    and "\<And>x. x \<in> set xs \<Longrightarrow> pv' x = pv x"
  shows "dll nx' pv' z p xs = dll nx pv z p xs"
proof -
  have "seg nx' pv' z p xs = seg nx pv z p xs"
    by (rule seg_cong) (use assms in \<open>auto dest: in_set_butlastD split: if_splits\<close>)
  moreover have "nx' (last (p # xs)) = nx (last (p # xs))"
    by (rule assms(1)) simp
  ultimately show ?thesis by (simp add: dll_def)
qed

text \<open>Splicing a fresh object in after the last object of a prefix.\<close>

lemma dll_insert:
  assumes list: "dll nx pv z p (xs @ ys)"
    and fresh: "distinct (p # xs @ ys)" "x \<notin> set (p # xs @ ys)" "x \<noteq> z"
    and q: "q = last (p # xs)"
    and nx': "\<And>y. y \<noteq> x \<Longrightarrow> y \<noteq> q \<Longrightarrow> nx' y = nx y" "nx' x = nx q" "nx' q = x"
    and pv': "\<And>y. y \<noteq> x \<Longrightarrow> y \<noteq> nx q \<Longrightarrow> pv' y = pv y" "pv' x = q"
      "nx q \<noteq> z \<Longrightarrow> pv' (nx q) = x"
  shows "dll nx' pv' z p (xs @ x # ys)"
proof -
  have pre: "seg nx pv z p xs" and post: "dll nx pv z q ys"
    using list q by (simp_all add: dll_append)
  have qx: "q \<in> set (p # xs)" unfolding q by (rule last_in_set) simp
  have nq: "ys \<noteq> [] \<Longrightarrow> nx q = hd ys" and nq0: "ys = [] \<Longrightarrow> nx q = z"
    using post by (cases ys; simp add: dll_Cons)+
  have nqx: "nx q \<notin> set xs"
    using nq nq0 fresh seg_not_end [OF pre] by (cases ys) auto
  have qb: "q \<notin> set (butlast (p # xs))"
    using fresh(1) unfolding q by (metis append_butlast_last_id distinct_append list.simps(3)
      disjoint_iff last_in_set list.set_intros(1) append_Cons)
  have "seg nx' pv' z p xs = seg nx pv z p xs"
  proof (rule seg_cong)
    fix y assume "y \<in> set (butlast (p # xs))"
    then show "nx' y = nx y" using qb fresh(2) in_set_butlastD [of y "p # xs"]
      by (intro nx'(1)) auto
  next
    fix y assume "y \<in> set xs"
    then show "pv' y = pv y" using nqx fresh(2) by (intro pv'(1)) auto
  qed
  moreover have "dll nx' pv' z x ys"
  proof (cases ys)
    case Nil
    with nq0 nx'(2) show ?thesis by simp
  next
    case (Cons y zs)
    have "dll nx' pv' z y zs = dll nx pv z y zs"
    proof (rule dll_cong)
      fix u assume u: "u \<in> set (y # zs)"
      then have "u \<noteq> q" using qx fresh(1) Cons by auto
      with u show "nx' u = nx u" using fresh(2) Cons by (intro nx'(1)) auto
    next
      fix u assume u: "u \<in> set zs"
      then show "pv' u = pv u" using fresh(1,2) Cons nq by (intro pv'(1)) auto
    qed
    with post Cons nq nx'(2) pv'(3) show ?thesis by (simp add: dll_Cons)
  qed
  ultimately show ?thesis
    using pre q nx'(3) pv'(2) fresh(3) by (simp add: dll_append dll_Cons)
qed

text \<open>Unlinking an object.\<close>

lemma dll_remove:
  assumes list: "dll nx pv z p (xs @ x # ys)"
    and dist: "distinct (p # xs @ x # ys)"
    and nx': "\<And>y. y \<noteq> pv x \<Longrightarrow> nx' y = nx y" "nx' (pv x) = nx x"
    and pv': "\<And>y. y \<noteq> nx x \<Longrightarrow> pv' y = pv y" "nx x \<noteq> z \<Longrightarrow> pv' (nx x) = pv x"
  shows "dll nx' pv' z p (xs @ ys)"
proof -
  define q where "q = last (p # xs)"
  have pre: "seg nx pv z p xs" and nqx: "nx q = x" and pvx: "pv x = q"
    and post: "dll nx pv z x ys"
    using list by (auto simp: dll_append dll_Cons q_def)
  have qx: "q \<in> set (p # xs)" unfolding q_def by (rule last_in_set) simp
  have qb: "q \<notin> set (butlast (p # xs))"
    using dist unfolding q_def by (metis append_butlast_last_id distinct_append list.simps(3)
      disjoint_iff last_in_set list.set_intros(1) append_Cons)
  have nx_x: "ys \<noteq> [] \<Longrightarrow> nx x = hd ys" and nx_x0: "ys = [] \<Longrightarrow> nx x = z"
    using post by (cases ys; simp add: dll_Cons)+
  have nxs: "nx x \<notin> set xs"
    using nx_x nx_x0 dist seg_not_end [OF pre] by (cases ys) auto
  have "seg nx' pv' z p xs = seg nx pv z p xs"
  proof (rule seg_cong)
    fix y assume "y \<in> set (butlast (p # xs))"
    with qb pvx have "y \<noteq> pv x" by blast
    then show "nx' y = nx y" by (rule nx'(1))
  next
    fix y assume "y \<in> set xs"
    with nxs have "y \<noteq> nx x" by blast
    then show "pv' y = pv y" by (rule pv'(1))
  qed
  moreover have "dll nx' pv' z q ys"
  proof (cases ys)
    case Nil
    with nx_x0 nx'(2) pvx show ?thesis by simp
  next
    case (Cons y zs)
    have "dll nx' pv' z y zs = dll nx pv z y zs"
    proof (rule dll_cong)
      fix u assume "u \<in> set (y # zs)"
      then have "u \<noteq> q" using qx dist Cons by auto
      then show "nx' u = nx u" using pvx by (intro nx'(1)) simp
    next
      fix u assume "u \<in> set zs"
      then show "pv' u = pv u" using dist Cons nx_x by (intro pv'(1)) auto
    qed
    with post Cons nx_x nx'(2) pv'(2) pvx show ?thesis by (simp add: dll_Cons)
  qed
  ultimately show ?thesis using pre by (simp add: dll_append q_def)
qed

end
