(* ===== verification/Architecture.thy ===== *)
theory Architecture
  imports Kernel_Prelude
begin

unbundle bit_operations_syntax

text \<open>
  The constants and the machine instructions of \<open>kernel/utils/Architecture.h\<close> and
  \<open>Architecture.c\<close>. Macros are modelled by what they expand to: \<open>HUGEPAGE_SIZE\<close> has no
  parentheses, so \<open>x % HUGEPAGE_SIZE\<close> is \<open>(x % PAGES_PER_HUGEPAGE) * PAGE_SIZE\<close>.
\<close>

section \<open>Constants\<close>

definition PAGE_SIZE :: u64 where
  "PAGE_SIZE = 4096"

definition PAGES_PER_HUGEPAGE :: u64 where
  "PAGES_PER_HUGEPAGE = 512"

text \<open>\<open>#define HUGEPAGE_SIZE PAGES_PER_HUGEPAGE * PAGE_SIZE\<close>, standing alone and after \<open>%\<close>.\<close>

definition HUGEPAGE_SIZE :: u64 where
  "HUGEPAGE_SIZE = PAGES_PER_HUGEPAGE * PAGE_SIZE"

definition mod_HUGEPAGE_SIZE :: "u64 \<Rightarrow> u64" where
  "mod_HUGEPAGE_SIZE x = x mod PAGES_PER_HUGEPAGE * PAGE_SIZE"

definition CACHELINE_LENGTH :: u64 where
  "CACHELINE_LENGTH = 64"

definition MAX_NUMAS :: nat where
  "MAX_NUMAS = 64"

lemmas arch_consts = PAGE_SIZE_def PAGES_PER_HUGEPAGE_def HUGEPAGE_SIZE_def CACHELINE_LENGTH_def MAX_NUMAS_def

text \<open>The remainder the macro computes vanishes on every multiple of 512, not of 2 MiB.\<close>

lemma mod_HUGEPAGE_SIZE_zero: "mod_HUGEPAGE_SIZE x = 0 \<longleftrightarrow> x mod 512 = 0"
proof -
  have lt: "unat (x mod 512) < 512"
    by (simp add: unat_mod)
  have "unat (x mod 512 * 4096) = unat (x mod 512) * 4096"
    using lt by (subst unat_mult_lem [THEN iffD1]) auto
  then have "x mod 512 * 4096 = 0 \<longleftrightarrow> unat (x mod 512) = 0"
    by (metis mult_eq_0_iff unat_eq_zero zero_neq_numeral)
  then show ?thesis
    by (simp add: mod_HUGEPAGE_SIZE_def arch_consts unat_eq_zero)
qed

section \<open>Bit scans\<close>

text \<open>
  The inline assembly \<open>bsf %0, %1\<close> with \<open>%0\<close> the output \<open>pos\<close> and \<open>%1\<close> the input is in the
  assembler's default operand order (source first): it reads the register of \<open>pos\<close> and writes the
  register of \<open>input\<close>. What the function returns depends on the registers the compiler assigns,
  which are a parameter of the model: one register for both (the output constraint is not marked as
  early-clobbered, so this is allowed), or two, where \<open>pos\<close> is left with what its register held.
\<close>

datatype reg_alloc = Same_Register | Distinct_Registers u64

text \<open>The instructions: the index of the lowest and of the highest bit of a non-zero operand.\<close>

definition bsf_instr :: "u64 \<Rightarrow> u64" where
  "bsf_instr x = of_nat (hd (filter (bit x) [0..<64]))"

definition bsr_instr :: "u64 \<Rightarrow> u64" where
  "bsr_instr x = of_nat (last (filter (bit x) [0..<64]))"

definition BSF :: "reg_alloc \<Rightarrow> u64 \<Rightarrow> u64" where
  "BSF ra input = (if input = 0 then - 1
     else case ra of Same_Register \<Rightarrow> bsf_instr input | Distinct_Registers junk \<Rightarrow> junk)"

definition BSR :: "reg_alloc \<Rightarrow> u64 \<Rightarrow> u64" where
  "BSR ra input = (if input = 0 then - 1
     else case ra of Same_Register \<Rightarrow> bsr_instr input | Distinct_Registers junk \<Rightarrow> junk)"

text \<open>
  \<open>CPUAPICID\<close>: \<open>cpuid\<close> with \<open>eax = 1\<close>, then bits 31 to 24 of \<open>ebx\<close>. The processor's answer, as
  \<open>(eax, ebx, ecx, edx)\<close> for each leaf, is a parameter.
\<close>

definition CPUAPICID :: "(u32 \<Rightarrow> u32 \<times> u32 \<times> u32 \<times> u32) \<Rightarrow> u32" where
  "CPUAPICID cpuid = (let (eax, ebx, ecx, edx) = cpuid 1 in drop_bit 24 ebx)"

end
