(* ===== verification/Pseudo_Random.thy ===== *)
theory Pseudo_Random
  imports Kernel_Prelude "HOL-Library.Log_Nat"
begin

unbundle bit_operations_syntax

text \<open>
  The generator of \<open>kernel/utils/Random.c\<close>: a four-word shift-register generator and its
  conversion to a \<open>double\<close> in the unit interval.
\<close>

record Seed =
  seed_x :: u64
  seed_y :: u64
  seed_z :: u64
  seed_w :: u64

definition SEED :: Seed where
  "SEED = \<lparr>seed_x = 1565656567876664, seed_y = 5486757654245657683,
           seed_z = 94587956787643467, seed_w = 9223372036854775807\<rparr>"

text \<open>
  The conversion of a 64-bit integer to IEEE binary64: 53 significant bits, rounding to nearest,
  ties to even. The value of the result is a natural number.
\<close>

definition round53 :: "nat \<Rightarrow> nat" where
  "round53 n = (let e = floorlog 2 n - 53; q = n div 2 ^ e; r = n mod 2 ^ e
     in if 2 * r > 2 ^ e \<or> 2 * r = 2 ^ e \<and> odd q then Suc q * 2 ^ e else q * 2 ^ e)"

definition u64_to_double :: "u64 \<Rightarrow> real" where
  "u64_to_double x = real (round53 (unat x))"

text \<open>
  The divisor \<open>(double)(~((size_t)0))\<close> is a power of two (lemma \<open>u64_to_double_max\<close>), so the
  quotient of the two doubles is exact and is the quotient of the reals.
\<close>

definition Random :: "Seed \<Rightarrow> Seed \<times> real" where
  "Random s = (let t = seed_x s XOR push_bit 11 (seed_x s);
       w = (seed_w s XOR drop_bit 19 (seed_w s)) XOR (t XOR drop_bit 8 t)
     in (\<lparr>seed_x = seed_y s, seed_y = seed_z s, seed_z = seed_w s, seed_w = w\<rparr>,
         u64_to_double w / u64_to_double (- 1)))"

section \<open>The range of the generator\<close>

lemma round53_le_pow:
  assumes "n < 2 ^ k" "53 \<le> k"
  shows "round53 n \<le> 2 ^ k"
proof -
  define e where "e = floorlog 2 n - 53"
  define q where "q = n div 2 ^ e"
  have ek: "e \<le> k"
    using floorlog_leI [of n 2 k] assms by (simp add: e_def)
  have "q < 2 ^ (k - e)"
    unfolding q_def using assms ek by (simp add: div_less_iff_less_mult power_add [symmetric])
  then have "Suc q * 2 ^ e \<le> 2 ^ (k - e) * 2 ^ e"
    by (intro mult_right_mono) auto
  also have "\<dots> = 2 ^ k" using ek by (simp add: power_add [symmetric])
  finally have "Suc q * 2 ^ e \<le> 2 ^ k" .
  moreover have "q * 2 ^ e \<le> Suc q * 2 ^ e" by simp
  ultimately show ?thesis
    unfolding round53_def Let_def e_def [symmetric] q_def [symmetric] by (auto intro: le_trans)
qed

lemma u64_to_double_max: "u64_to_double (- 1) = 2 ^ 64"
proof -
  have "floorlog 2 (2 ^ 64 - 1 :: nat) = 64"
    by (rule order.antisym) (simp_all add: floorlog_leI floorlog_geI)
  then show ?thesis
    by (simp add: u64_to_double_def round53_def unsigned_minus_1_eq_mask mask_eq_exp_minus_1)
qed

lemma u64_to_double_bounds: "0 \<le> u64_to_double x" "u64_to_double x \<le> 2 ^ 64"
proof -
  have "round53 (unat x) \<le> 2 ^ 64"
    by (rule round53_le_pow) (use unsigned_less [of x] in auto)
  then have "real (round53 (unat x)) \<le> real (2 ^ 64)"
    using of_nat_le_iff by blast
  then show "u64_to_double x \<le> 2 ^ 64" by (simp add: u64_to_double_def)
qed (simp add: u64_to_double_def)

lemma Random_unit_interval: "0 \<le> snd (Random s) \<and> snd (Random s) \<le> 1"
  using u64_to_double_bounds by (simp add: Random_def Let_def u64_to_double_max)

section \<open>The state transition\<close>

text \<open>A word that equals its own shift is 0, so \<open>x ^ (x << n)\<close> and \<open>x ^ (x >> n)\<close> lose nothing.\<close>

lemma push_bit_fixed:
  fixes d :: u64
  assumes "d = push_bit n d" "0 < n"
  shows "d = 0"
proof -
  have "\<not> bit d i" for i
  proof (induction i rule: less_induct)
    case (less i)
    have "bit d i = bit (push_bit n d) i" using assms(1) by simp
    then show ?case using less [of "i - n"] assms(2) by (cases "n \<le> i") (auto simp: bit_simps)
  qed
  then show ?thesis by (auto intro: bit_eqI)
qed

lemma drop_bit_fixed:
  fixes d :: u64
  assumes "d = drop_bit n d" "0 < n"
  shows "d = 0"
proof -
  have "\<not> bit d i" for i
  proof (induction "64 - i" arbitrary: i rule: less_induct)
    case less
    have b: "bit d i = bit d (n + i)" using arg_cong [OF assms(1), of "\<lambda>x. bit x i"] by (simp add: bit_simps)
    show ?case
    proof (cases "i < 64")
      case True
      then show ?thesis using less [of "n + i"] assms(2) b by auto
    next
      case False
      then show ?thesis using bit_imp_le_length [of d i] by auto
    qed
  qed
  then show ?thesis by (auto intro: bit_eqI)
qed

lemma xor_swap: "a XOR b = c XOR d \<Longrightarrow> a XOR c = b XOR d" for a :: u64
  by (auto simp: bit_eq_iff bit_xor_iff)

lemma xor_zero: "a XOR b = 0 \<Longrightarrow> a = b" for a :: u64
  by (auto simp: bit_eq_iff bit_xor_iff)

lemma xor_cancel: "a XOR b = a XOR c \<Longrightarrow> b = c" for a :: u64
  by (auto simp: bit_eq_iff bit_xor_iff)

lemma xor_shift_left_inj:
  fixes x y :: u64
  assumes "x XOR push_bit n x = y XOR push_bit n y" "0 < n"
  shows "x = y"
proof -
  have "x XOR y = push_bit n (x XOR y)"
    unfolding push_bit_xor by (rule xor_swap [OF assms(1)])
  then show ?thesis by (rule push_bit_fixed [OF _ assms(2), THEN xor_zero])
qed

lemma xor_shift_right_inj:
  fixes x y :: u64
  assumes "x XOR drop_bit n x = y XOR drop_bit n y" "0 < n"
  shows "x = y"
proof -
  have "x XOR y = drop_bit n (x XOR y)"
    unfolding drop_bit_xor by (rule xor_swap [OF assms(1)])
  then show ?thesis by (rule drop_bit_fixed [OF _ assms(2), THEN xor_zero])
qed

definition next_seed :: "Seed \<Rightarrow> Seed" where
  "next_seed s = fst (Random s)"

lemma next_seed_inj: "inj next_seed"
proof (rule injI)
  fix s s' assume eq: "next_seed s = next_seed s'"
  define f where "f x = (let t = x XOR push_bit 11 x in t XOR drop_bit 8 t)" for x :: u64
  have "seed_y s = seed_y s'" "seed_z s = seed_z s'" "seed_w s = seed_w s'"
    and w: "(seed_w s XOR drop_bit 19 (seed_w s)) XOR f (seed_x s) =
      (seed_w s' XOR drop_bit 19 (seed_w s')) XOR f (seed_x s')"
    using eq by (auto simp: next_seed_def Random_def Let_def f_def)
  moreover from this have "f (seed_x s) = f (seed_x s')" by (auto dest: xor_cancel)
  then have "seed_x s = seed_x s'"
    unfolding f_def Let_def by (rule xor_shift_right_inj [of _ 8, THEN xor_shift_left_inj [of _ 11]]) simp_all
  ultimately show "s = s'" by simp
qed

section \<open>Properties\<close>

text \<open>the generator returns a number of the closed unit interval.\<close>

theorem Random_in_unit_interval: "0 \<le> snd (Random s) \<and> snd (Random s) \<le> 1"
  by (rule Random_unit_interval)

text \<open>
  C38: The state transition loses no state, and the generator started from its seed never reaches the
  all-zero state, from which it would return 0 forever.
\<close>

theorem Random_never_stuck:
  "inj next_seed \<and> (next_seed ^^ n) SEED \<noteq> \<lparr>seed_x = 0, seed_y = 0, seed_z = 0, seed_w = 0\<rparr>"
proof (intro conjI next_seed_inj)
  define z where "z = \<lparr>seed_x = 0, seed_y = 0, seed_z = 0, seed_w = 0\<rparr>"
  have z: "next_seed z = z" by (simp add: z_def next_seed_def Random_def)
  have "(next_seed ^^ n) SEED \<noteq> z"
  proof (induction n)
    case 0
    show ?case by (simp add: SEED_def z_def)
  next
    case (Suc n)
    then show ?case using injD [OF next_seed_inj, of "(next_seed ^^ n) SEED" z] z by auto
  qed
  then show "(next_seed ^^ n) SEED \<noteq> \<lparr>seed_x = 0, seed_y = 0, seed_z = 0, seed_w = 0\<rparr>" by (simp add: z_def)
qed

end
