(* ===== verification/Skip_List.thy ===== *)
theory Skip_List
  imports Kernel_Prelude
begin

text \<open>
  The skip list of \<open>kernel/memman/SkipList.c\<close>: nodes with seven forward and seven backward links,
  kept in a store from addresses to nodes. An operation that dereferences NULL, an address with
  no node, or indexes the link arrays out of range has no result (\<^const>\<open>None\<close>); neither has a loop
  that does not end. The theory models every function of the file, states the invariant of a
  skip list (\<open>linked\<close>, \<open>skl\<close>) and proves that insertion and removal keep it, that they act
  on the list of nodes as ordered insertion and deletion, and what the best-fit search returns.
\<close>

section \<open>Nodes and the store\<close>

definition SKIPLIST_MAX_LEVELS :: nat where
  "SKIPLIST_MAX_LEVELS = 7"

record SkipList =
  Weight :: u64
  Next :: "nat \<Rightarrow> ptr"
  Payload :: ptr
  Prev :: "nat \<Rightarrow> ptr"

type_synonym sl_heap = "ptr \<rightharpoonup> SkipList"

text \<open>Dereferencing a node pointer, and the checked reads and writes of its fields.\<close>

definition deref :: "sl_heap \<Rightarrow> ptr \<Rightarrow> SkipList option" where
  "deref h p = (if p = NULL then None else h p)"

definition get_next :: "sl_heap \<Rightarrow> ptr \<Rightarrow> nat \<Rightarrow> ptr option" where
  "get_next h p i = do { n \<leftarrow> deref h p; if i < SKIPLIST_MAX_LEVELS then Some (Next n i) else None }"

definition get_prev :: "sl_heap \<Rightarrow> ptr \<Rightarrow> nat \<Rightarrow> ptr option" where
  "get_prev h p i = do { n \<leftarrow> deref h p; if i < SKIPLIST_MAX_LEVELS then Some (Prev n i) else None }"

definition get_weight :: "sl_heap \<Rightarrow> ptr \<Rightarrow> u64 option" where
  "get_weight h p = do { n \<leftarrow> deref h p; Some (Weight n) }"

definition get_payload :: "sl_heap \<Rightarrow> ptr \<Rightarrow> ptr option" where
  "get_payload h p = do { n \<leftarrow> deref h p; Some (Payload n) }"

definition set_next :: "sl_heap \<Rightarrow> ptr \<Rightarrow> nat \<Rightarrow> ptr \<Rightarrow> sl_heap option" where
  "set_next h p i v = do { n \<leftarrow> deref h p;
     if i < SKIPLIST_MAX_LEVELS then Some (h(p \<mapsto> n\<lparr>Next := (Next n)(i := v)\<rparr>)) else None }"

definition set_prev :: "sl_heap \<Rightarrow> ptr \<Rightarrow> nat \<Rightarrow> ptr \<Rightarrow> sl_heap option" where
  "set_prev h p i v = do { n \<leftarrow> deref h p;
     if i < SKIPLIST_MAX_LEVELS then Some (h(p \<mapsto> n\<lparr>Prev := (Prev n)(i := v)\<rparr>)) else None }"

section \<open>The operations of SkipList.c\<close>

text \<open>\<open>for( ; i < SKIPLIST_MAX_LEVELS && node->Prev[i]; ++i );\<close>\<close>

function SkipListNodeHeight_loop :: "SkipList \<Rightarrow> nat \<Rightarrow> nat" where
  "SkipListNodeHeight_loop n i =
     (if i < SKIPLIST_MAX_LEVELS \<and> Prev n i \<noteq> NULL then SkipListNodeHeight_loop n (Suc i) else i)"
  by pat_completeness auto
termination
  by (relation "measure (\<lambda>(n, i). SKIPLIST_MAX_LEVELS - i)") auto

declare SkipListNodeHeight_loop.simps [simp del]

definition SkipListNodeHeight :: "sl_heap \<Rightarrow> ptr \<Rightarrow> nat option" where
  "SkipListNodeHeight h node = do { n \<leftarrow> deref h node; Some (SkipListNodeHeight_loop n 0) }"

definition zero_node :: SkipList where
  "zero_node = \<lparr>Weight = 0, Next = (\<lambda>_. NULL), Payload = NULL, Prev = (\<lambda>_. NULL)\<rparr>"

text \<open>The node may be raw memory: initialising it creates the object at that address.\<close>

definition SkipListInitNode :: "sl_heap \<Rightarrow> ptr \<Rightarrow> ptr \<Rightarrow> sl_heap option" where
  "SkipListInitNode h node payload =
     (if node = NULL then None else Some (h(node \<mapsto> zero_node\<lparr>Payload := payload\<rparr>)))"

text \<open>\<open>while( (next=node->Next[i]) && next->Weight < weight ) node = next;\<close>, used twice.\<close>

partial_function (option) skip_lighter :: "sl_heap \<Rightarrow> nat \<Rightarrow> u64 \<Rightarrow> ptr \<Rightarrow> ptr option" where
  "skip_lighter h i weight node = do {
     next \<leftarrow> get_next h node i;
     if next = NULL then Some node
     else do {
       w \<leftarrow> get_weight h next;
       if w < weight then skip_lighter h i weight next else Some node } }"

text \<open>The levels are walked downwards from \<open>i - 1\<close>; \<open>path[i]\<close> outside the array is a fault.\<close>

fun SkipListFindPrevs_loop :: "sl_heap \<Rightarrow> u64 \<Rightarrow> nat \<Rightarrow> ptr \<Rightarrow> ptr list \<Rightarrow> ptr list option" where
  "SkipListFindPrevs_loop h weight 0 node path = Some path"
| "SkipListFindPrevs_loop h weight (Suc i) node path = do {
     node' \<leftarrow> skip_lighter h i weight node;
     if i < length path then SkipListFindPrevs_loop h weight i node' (path[i := node']) else None }"

definition SkipListFindPrevs :: "sl_heap \<Rightarrow> ptr \<Rightarrow> ptr list \<Rightarrow> u64 \<Rightarrow> ptr list option" where
  "SkipListFindPrevs h sentinel path weight =
     SkipListFindPrevs_loop h weight SKIPLIST_MAX_LEVELS sentinel path"

text \<open>One level of the insertion loop, then the loop from level \<open>i\<close> over \<open>k\<close> levels.\<close>

definition insert_level :: "sl_heap \<Rightarrow> ptr list \<Rightarrow> ptr \<Rightarrow> nat \<Rightarrow> sl_heap option" where
  "insert_level h prevs node i = (if i < length prevs then do {
     let prev = prevs ! i;
     next \<leftarrow> get_next h prev i;
     h1 \<leftarrow> set_next h node i next;
     h2 \<leftarrow> set_next h1 prev i node;
     h3 \<leftarrow> set_prev h2 node i prev;
     if next \<noteq> NULL then set_prev h3 next i node else Some h3 } else None)"

fun insert_levels :: "sl_heap \<Rightarrow> ptr list \<Rightarrow> ptr \<Rightarrow> nat \<Rightarrow> nat \<Rightarrow> sl_heap option" where
  "insert_levels h prevs node i 0 = Some h"
| "insert_levels h prevs node i (Suc k) = do {
     h' \<leftarrow> insert_level h prevs node i;
     insert_levels h' prevs node (Suc i) k }"

definition SkipListInsertAfter :: "sl_heap \<Rightarrow> ptr list \<Rightarrow> ptr \<Rightarrow> nat \<Rightarrow> sl_heap option" where
  "SkipListInsertAfter h prevs node height =
     (if height \<ge> SKIPLIST_MAX_LEVELS then insert_levels h prevs node 0 SKIPLIST_MAX_LEVELS
      else do {
        h1 \<leftarrow> set_next h node height NULL;
        h2 \<leftarrow> set_prev h1 node height NULL;
        insert_levels h2 prevs node 0 height })"

definition SkipListInsert :: "sl_heap \<Rightarrow> ptr \<Rightarrow> ptr \<Rightarrow> nat \<Rightarrow> sl_heap option" where
  "SkipListInsert h sentinel node height =
     (if sentinel = NULL \<or> node = NULL then Some h
      else do {
        weight \<leftarrow> get_weight h node;
        prev \<leftarrow> SkipListFindPrevs h sentinel (replicate SKIPLIST_MAX_LEVELS NULL) weight;
        SkipListInsertAfter h prev node height })"

definition remove_level :: "sl_heap \<Rightarrow> ptr \<Rightarrow> nat \<Rightarrow> sl_heap option" where
  "remove_level h node i = do {
     prev \<leftarrow> get_prev h node i;
     next \<leftarrow> get_next h node i;
     h1 \<leftarrow> (if prev \<noteq> NULL then set_next h prev i next else Some h);
     prev' \<leftarrow> get_prev h1 node i;
     next' \<leftarrow> get_next h1 node i;
     if next' \<noteq> NULL then set_prev h1 next' i prev' else Some h1 }"

fun remove_levels :: "sl_heap \<Rightarrow> ptr \<Rightarrow> nat \<Rightarrow> nat \<Rightarrow> sl_heap option" where
  "remove_levels h node i 0 = Some h"
| "remove_levels h node i (Suc k) = do {
     h' \<leftarrow> remove_level h node i;
     remove_levels h' node (Suc i) k }"

definition SkipListRemove :: "sl_heap \<Rightarrow> ptr \<Rightarrow> sl_heap option" where
  "SkipListRemove h node =
     (if node = NULL then Some h
      else do { height \<leftarrow> SkipListNodeHeight h node; remove_levels h node 0 height })"

definition SkipListNext :: "sl_heap \<Rightarrow> ptr \<Rightarrow> ptr option" where
  "SkipListNext h node = (if node = NULL then Some NULL else get_next h node 0)"

definition SkipListPrev :: "sl_heap \<Rightarrow> ptr \<Rightarrow> ptr option" where
  "SkipListPrev h node = (if node = NULL then Some NULL else get_prev h node 0)"

definition SkipListPayload :: "sl_heap \<Rightarrow> ptr \<Rightarrow> ptr option" where
  "SkipListPayload h node = (if node = NULL then Some NULL else get_payload h node)"

definition SetSkipListPayload :: "sl_heap \<Rightarrow> ptr \<Rightarrow> ptr \<Rightarrow> sl_heap option" where
  "SetSkipListPayload h node payload = do { n \<leftarrow> deref h node; Some (h(node \<mapsto> n\<lparr>Payload := payload\<rparr>)) }"

definition SetSkipListWeight :: "sl_heap \<Rightarrow> ptr \<Rightarrow> u64 \<Rightarrow> sl_heap option" where
  "SetSkipListWeight h node weight = do { n \<leftarrow> deref h node; Some (h(node \<mapsto> n\<lparr>Weight := weight\<rparr>)) }"

text \<open>The levels above 0 are walked downwards (\<open>i > 0\<close>), then level 0 is scanned.\<close>

fun best_skip :: "sl_heap \<Rightarrow> u64 \<Rightarrow> nat \<Rightarrow> ptr \<Rightarrow> ptr option" where
  "best_skip h weight 0 node = Some node"
| "best_skip h weight (Suc i) node = do {
     node' \<leftarrow> skip_lighter h (Suc i) weight node;
     best_skip h weight i node' }"

definition weight_diff :: "u64 \<Rightarrow> u64 \<Rightarrow> u64" where
  "weight_diff w weight = (if w > weight then w - weight else weight - w)"

partial_function (option) best_scan ::
    "sl_heap \<Rightarrow> u64 \<Rightarrow> bool \<Rightarrow> ptr \<Rightarrow> u64 \<Rightarrow> ptr option" where
  "best_scan h weight exact node weightDiff = do {
     next \<leftarrow> get_next h node 0;
     if next = NULL then Some node
     else do {
       w \<leftarrow> get_weight h next;
       let diff = weight_diff w weight;
       if \<not> exact \<and> diff > weightDiff then Some node
       else if exact \<and> w \<ge> weight then Some next
       else best_scan h weight exact next diff } }"

definition SkipListBest :: "sl_heap \<Rightarrow> ptr \<Rightarrow> u64 \<Rightarrow> bool \<Rightarrow> ptr option" where
  "SkipListBest h sentinel weight exact =
     (if sentinel = NULL then Some NULL
      else do {
        start \<leftarrow> best_skip h weight (SKIPLIST_MAX_LEVELS - 1) sentinel;
        node \<leftarrow> best_scan h weight exact start (- 1);
        w \<leftarrow> get_weight h node;
        if node = sentinel \<or> (exact \<and> weight > w) then Some NULL else Some node })"


declare skip_lighter.simps [code] best_scan.simps [code]

section \<open>Field functions and the checked accesses\<close>

definition nx :: "sl_heap \<Rightarrow> nat \<Rightarrow> ptr \<Rightarrow> ptr" where
  "nx h i p = (case h p of Some n \<Rightarrow> Next n i | None \<Rightarrow> NULL)"

definition pv :: "sl_heap \<Rightarrow> nat \<Rightarrow> ptr \<Rightarrow> ptr" where
  "pv h i p = (case h p of Some n \<Rightarrow> Prev n i | None \<Rightarrow> NULL)"

definition wt :: "sl_heap \<Rightarrow> ptr \<Rightarrow> u64" where
  "wt h p = (case h p of Some n \<Rightarrow> Weight n | None \<Rightarrow> 0)"

definition pl :: "sl_heap \<Rightarrow> ptr \<Rightarrow> ptr" where
  "pl h p = (case h p of Some n \<Rightarrow> Payload n | None \<Rightarrow> NULL)"

definition hgt :: "sl_heap \<Rightarrow> ptr \<Rightarrow> nat" where
  "hgt h p = (case h p of Some n \<Rightarrow> SkipListNodeHeight_loop n 0 | None \<Rightarrow> 0)"

definition node_at :: "sl_heap \<Rightarrow> ptr \<Rightarrow> bool" where
  "node_at h p \<longleftrightarrow> p \<noteq> NULL \<and> h p \<noteq> None"

definition upd_next :: "sl_heap \<Rightarrow> ptr \<Rightarrow> nat \<Rightarrow> ptr \<Rightarrow> sl_heap" where
  "upd_next h p i v = (case h p of None \<Rightarrow> h | Some n \<Rightarrow> h(p \<mapsto> n\<lparr>Next := (Next n)(i := v)\<rparr>))"

definition upd_prev :: "sl_heap \<Rightarrow> ptr \<Rightarrow> nat \<Rightarrow> ptr \<Rightarrow> sl_heap" where
  "upd_prev h p i v = (case h p of None \<Rightarrow> h | Some n \<Rightarrow> h(p \<mapsto> n\<lparr>Prev := (Prev n)(i := v)\<rparr>))"

lemma access_simps [heap_simps]:
  assumes "node_at h p"
  shows "get_weight h p = Some (wt h p)" "get_payload h p = Some (pl h p)"
    "i < 7 \<Longrightarrow> get_next h p i = Some (nx h i p)"
    "i < 7 \<Longrightarrow> get_prev h p i = Some (pv h i p)"
    "i < 7 \<Longrightarrow> set_next h p i v = Some (upd_next h p i v)"
    "i < 7 \<Longrightarrow> set_prev h p i v = Some (upd_prev h p i v)"
    "SkipListNodeHeight h p = Some (hgt h p)"
  using assms
  by (auto simp: node_at_def deref_def get_weight_def get_payload_def get_next_def get_prev_def
      set_next_def set_prev_def upd_next_def upd_prev_def nx_def pv_def wt_def pl_def hgt_def
      SkipListNodeHeight_def SKIPLIST_MAX_LEVELS_def)

lemma upd_next_simps [heap_simps]:
  "node_at h p \<Longrightarrow> nx (upd_next h p i v) j q = (if j = i \<and> q = p then v else nx h j q)"
  "pv (upd_next h p i v) = pv h" "wt (upd_next h p i v) = wt h" "pl (upd_next h p i v) = pl h"
  "node_at (upd_next h p i v) q = node_at h q"
  "q \<noteq> p \<Longrightarrow> upd_next h p i v q = h q"
  by (auto simp: upd_next_def node_at_def nx_def pv_def wt_def pl_def fun_eq_iff split: option.splits)

lemma upd_prev_simps [heap_simps]:
  "node_at h p \<Longrightarrow> pv (upd_prev h p i v) j q = (if j = i \<and> q = p then v else pv h j q)"
  "nx (upd_prev h p i v) = nx h" "wt (upd_prev h p i v) = wt h" "pl (upd_prev h p i v) = pl h"
  "node_at (upd_prev h p i v) q = node_at h q"
  "q \<noteq> p \<Longrightarrow> upd_prev h p i v q = h q"
  by (auto simp: upd_prev_def node_at_def nx_def pv_def wt_def pl_def fun_eq_iff split: option.splits)

text \<open>The height of a node: the index of its first empty backward link, or seven.\<close>

lemma SkipListNodeHeight_loop_ge: "i \<le> SkipListNodeHeight_loop n i"
proof (induction n i rule: SkipListNodeHeight_loop.induct)
  case (1 n i)
  then show ?case by (subst SkipListNodeHeight_loop.simps) auto
qed

lemma SkipListNodeHeight_loop_gt:
  "i \<le> j \<Longrightarrow> j < SkipListNodeHeight_loop n i \<longleftrightarrow> j < 7 \<and> (\<forall>k. i \<le> k \<and> k \<le> j \<longrightarrow> Prev n k \<noteq> NULL)"
proof (induction n i rule: SkipListNodeHeight_loop.induct)
  case (1 n i)
  show ?case
  proof (cases "i < 7 \<and> Prev n i \<noteq> NULL")
    case True
    then have step: "SkipListNodeHeight_loop n i = SkipListNodeHeight_loop n (Suc i)"
      by (subst SkipListNodeHeight_loop.simps) (simp add: SKIPLIST_MAX_LEVELS_def)
    show ?thesis
    proof (cases "i = j")
      case i: True
      have "j < SkipListNodeHeight_loop n (Suc i)"
        using SkipListNodeHeight_loop_ge [of "Suc i" n] i by simp
      with True i step show ?thesis by auto
    next
      case False
      then have "Suc i \<le> j" using "1.prems" by simp
      then have "j < SkipListNodeHeight_loop n (Suc i) \<longleftrightarrow>
          j < 7 \<and> (\<forall>k. Suc i \<le> k \<and> k \<le> j \<longrightarrow> Prev n k \<noteq> NULL)"
        using "1.IH" True by (simp add: SKIPLIST_MAX_LEVELS_def)
      moreover have "(\<forall>k. i \<le> k \<and> k \<le> j \<longrightarrow> Prev n k \<noteq> NULL) \<longleftrightarrow>
          (\<forall>k. Suc i \<le> k \<and> k \<le> j \<longrightarrow> Prev n k \<noteq> NULL)"
        using True by (metis Suc_leD le_neq_implies_less Suc_leI)
      ultimately show ?thesis using step by simp
    qed
  next
    case False
    then have "SkipListNodeHeight_loop n i = i"
      by (subst SkipListNodeHeight_loop.simps) (auto simp: SKIPLIST_MAX_LEVELS_def)
    with False "1.prems" show ?thesis by auto
  qed
qed

lemma less_hgt: "i < hgt h p \<longleftrightarrow> i < 7 \<and> (\<forall>k\<le>i. pv h k p \<noteq> NULL)"
  using SkipListNodeHeight_loop_gt [of 0 i]
  by (auto simp: hgt_def pv_def split: option.splits)

lemma hgt_le: "hgt h p \<le> 7"
  using less_hgt [of 7 h p] by auto

lemma hgt_eqI:
  assumes "\<And>i. i < hgt h' p \<longleftrightarrow> i < hgt h p"
  shows "hgt h' p = hgt h p"
  using assms [of "hgt h p"] assms [of "hgt h' p"] by simp

lemma hgt_cong:
  assumes "\<And>k. k < 7 \<Longrightarrow> (pv h' k p = NULL) = (pv h k p = NULL)"
  shows "hgt h' p = hgt h p"
proof (rule hgt_eqI)
  fix i
  show "i < hgt h' p \<longleftrightarrow> i < hgt h p"
    unfolding less_hgt using assms by (metis le_less_trans)
qed


section \<open>The invariant of a skip list\<close>

text \<open>
  \<open>lvl h i xs\<close> are the nodes of \<open>xs\<close> that take part in level \<open>i\<close>. \<open>linked h s xs\<close>: from the
  sentinel \<open>s\<close> every level \<open>i\<close> is a doubly linked list of exactly the nodes of \<open>xs\<close> higher than
  \<open>i\<close>, in the order of \<open>xs\<close>; so level 0 is \<open>xs\<close> itself. \<open>skl\<close> adds that \<open>xs\<close> is sorted by
  weight. Neither constrains links above a node's height, which the code leaves stale.
\<close>

definition lvl :: "sl_heap \<Rightarrow> nat \<Rightarrow> ptr list \<Rightarrow> ptr list" where
  "lvl h i xs = filter (\<lambda>x. i < hgt h x) xs"

definition linked :: "sl_heap \<Rightarrow> ptr \<Rightarrow> ptr list \<Rightarrow> bool" where
  "linked h s xs \<longleftrightarrow>
     distinct (s # xs) \<and> (\<forall>x\<in>set (s # xs). node_at h x) \<and>
     pl h s = NULL \<and> hgt h s = 0 \<and> (\<forall>x\<in>set xs. 0 < hgt h x) \<and>
     (\<forall>i<7. dll (nx h i) (pv h i) NULL s (lvl h i xs))"

definition skl :: "sl_heap \<Rightarrow> ptr \<Rightarrow> ptr list \<Rightarrow> bool" where
  "skl h s xs \<longleftrightarrow> linked h s xs \<and> sorted (map (wt h) xs)"

lemma set_lvl: "set (lvl h i xs) \<subseteq> set xs"
  by (auto simp: lvl_def)

lemma linkedD:
  assumes "linked h s xs"
  shows "distinct (s # xs)" "x \<in> set (s # xs) \<Longrightarrow> node_at h x" "x \<in> set (s # xs) \<Longrightarrow> x \<noteq> NULL"
    "i < 7 \<Longrightarrow> dll (nx h i) (pv h i) NULL s (lvl h i xs)" "x \<in> set xs \<Longrightarrow> 0 < hgt h x"
    "pl h s = NULL" "hgt h s = 0"
  using assms by (auto simp: linked_def node_at_def)

lemma lvl_0: "linked h s xs \<Longrightarrow> lvl h 0 xs = xs"
  by (auto simp: linked_def lvl_def filter_id_conv)

lemma linked_frame:
  assumes "linked h s xs" "\<And>p. p \<in> set (s # xs) \<Longrightarrow> h' p = h p"
  shows "linked h' s xs"
proof -
  have eq: "node_at h' p = node_at h p" "pl h' p = pl h p" "hgt h' p = hgt h p"
    "nx h' i p = nx h i p" "pv h' i p = pv h i p" if "p \<in> set (s # xs)" for p i
    using assms(2) [OF that] by (auto simp: node_at_def pl_def hgt_def nx_def pv_def)
  have lvl: "lvl h' i xs = lvl h i xs" for i
    unfolding lvl_def by (rule filter_cong) (auto simp: eq)
  have "dll (nx h' i) (pv h' i) NULL s (lvl h i xs) = dll (nx h i) (pv h i) NULL s (lvl h i xs)" for i
    by (rule dll_cong) (use set_lvl [of h i xs] in \<open>auto simp: eq\<close>)
  with assms(1) show ?thesis
    unfolding linked_def lvl by (auto simp: eq)
qed

lemma skl_frame:
  assumes "skl h s xs" "\<And>p. p \<in> set (s # xs) \<Longrightarrow> h' p = h p"
  shows "skl h' s xs"
proof -
  have "map (wt h') xs = map (wt h) xs"
    using assms(2) by (auto simp: wt_def)
  with assms linked_frame show ?thesis by (metis skl_def)
qed

section \<open>Searching\<close>

lemma skip_lighter_dll:
  assumes "dll (nx h i) (pv h i) NULL p xs" "\<forall>x\<in>set (p # xs). node_at h x" "i < 7"
  shows "skip_lighter h i w p = Some (last (p # takeWhile (\<lambda>x. wt h x < w) xs))"
  using assms
proof (induction xs arbitrary: p)
  case Nil
  then show ?case by (subst skip_lighter.simps) (simp add: heap_simps)
next
  case (Cons x xs)
  then have "skip_lighter h i w x = Some (last (x # takeWhile (\<lambda>x. wt h x < w) xs))"
    by (intro Cons.IH) (auto simp: dll_Cons)
  with Cons.prems show ?case
    by (subst skip_lighter.simps) (auto simp: dll_Cons heap_simps)
qed

text \<open>
  \<open>before h s xs w i\<close>: the last node of level \<open>i\<close> lighter than \<open>w\<close>, the place where the search
  leaves that level. \<open>landing\<close> says that \<open>p\<close> is a position on level \<open>i\<close> that is not past it.
\<close>

definition before :: "sl_heap \<Rightarrow> ptr \<Rightarrow> ptr list \<Rightarrow> u64 \<Rightarrow> nat \<Rightarrow> ptr" where
  "before h s xs w i = last (s # lvl h i (filter (\<lambda>x. wt h x < w) xs))"

definition landing :: "sl_heap \<Rightarrow> ptr \<Rightarrow> ptr list \<Rightarrow> u64 \<Rightarrow> nat \<Rightarrow> ptr \<Rightarrow> bool" where
  "landing h s xs w i p \<longleftrightarrow>
     (\<exists>as bs. lvl h i xs = as @ bs \<and> p = last (s # as) \<and> (\<forall>a\<in>set as. wt h a < w))"

lemma landing_sentinel: "landing h s xs w i s"
  unfolding landing_def by (rule exI [of _ "[]"]) simp

lemma lvl_filter_light:
  assumes "skl h s xs"
  shows "lvl h i (filter (\<lambda>x. wt h x < w) xs) = takeWhile (\<lambda>x. wt h x < w) (lvl h i xs)"
proof -
  have "sorted (map (wt h) (lvl h i xs))"
    using assms by (simp add: skl_def lvl_def sorted_map_filter)
  then show ?thesis
    by (simp add: takeWhile_eq_filter_sorted lvl_def conj_commute)
qed

lemma landing_before:
  assumes "skl h s xs"
  shows "landing h s xs w i (before h s xs w (Suc i))"
proof (cases "lvl h (Suc i) (filter (\<lambda>x. wt h x < w) xs) = []")
  case True
  then show ?thesis by (simp add: before_def landing_sentinel)
next
  case False
  define y where "y = last (lvl h (Suc i) (filter (\<lambda>x. wt h x < w) xs))"
  then have "y \<in> set (lvl h (Suc i) (filter (\<lambda>x. wt h x < w) xs))"
    using False by simp
  then have y: "y \<in> set (lvl h i xs)" "wt h y < w"
    by (auto simp: lvl_def)
  then obtain us vs where split: "lvl h i xs = us @ y # vs"
    by (meson split_list)
  have "sorted (map (wt h) (lvl h i xs))"
    using assms by (simp add: skl_def lvl_def sorted_map_filter)
  then have "\<forall>u\<in>set us. wt h u \<le> wt h y"
    by (simp add: split sorted_append)
  with y split have "lvl h i xs = (us @ [y]) @ vs \<and> (\<forall>a\<in>set (us @ [y]). wt h a < w)"
    by auto
  then show ?thesis
    using False unfolding landing_def before_def y_def [symmetric]
    by (metis last_Cons_append last_ConsR y_def)
qed

lemma skip_lighter_landing:
  assumes "skl h s xs" "landing h s xs w i p" "i < 7"
  shows "skip_lighter h i w p = Some (before h s xs w i)"
proof -
  obtain as bs where ab: "lvl h i xs = as @ bs" "p = last (s # as)" "\<forall>a\<in>set as. wt h a < w"
    using assms(2) unfolding landing_def by blast
  have inv: "linked h s xs" using assms(1) by (simp add: skl_def)
  have "dll (nx h i) (pv h i) NULL p bs"
    using linkedD(4) [OF inv assms(3)] ab(1,2) by (simp only: dll_append)
  moreover have "\<forall>x\<in>set (s # as @ bs). node_at h x"
    using inv set_lvl [of h i xs] ab(1) by (auto simp: linked_def)
  then have "\<forall>x\<in>set (p # bs). node_at h x"
    using ab(2) by auto
  ultimately have "skip_lighter h i w p = Some (last (p # takeWhile (\<lambda>x. wt h x < w) bs))"
    using assms(3) by (rule skip_lighter_dll)
  also have "last (p # takeWhile (\<lambda>x. wt h x < w) bs) =
      last (s # takeWhile (\<lambda>x. wt h x < w) (as @ bs))"
    using ab by (simp add: takeWhile_append2)
  finally show ?thesis
    by (simp add: before_def lvl_filter_light [OF assms(1)] ab(1))
qed

lemma SkipListFindPrevs_loop_ok:
  assumes "skl h s xs" "landing h s xs w i p" "i < 7" "i < length path"
  shows "SkipListFindPrevs_loop h w (Suc i) p path =
    Some (map (before h s xs w) [0..<Suc i] @ drop (Suc i) path)"
  using assms(2-4)
proof (induction i arbitrary: p path)
  case 0
  then show ?case
    by (cases path) (simp_all add: skip_lighter_landing [OF assms(1)])
next
  case (Suc i)
  define q where "q = before h s xs w (Suc i)"
  have "SkipListFindPrevs_loop h w (Suc i) q (path[Suc i := q]) =
      Some (map (before h s xs w) [0..<Suc i] @ drop (Suc i) (path[Suc i := q]))"
    using Suc.prems unfolding q_def
    by (intro Suc.IH landing_before [OF assms(1)]) auto
  moreover have "drop (Suc i) (path[Suc i := q]) = q # drop (Suc (Suc i)) path"
    using Suc.prems(3) by (simp add: drop_update_swap Cons_nth_drop_Suc [symmetric])
  ultimately show ?case
    using Suc.prems skip_lighter_landing [OF assms(1) Suc.prems(1,2)]
    by (simp add: q_def del: SkipListFindPrevs_loop.simps(2)
        add: SkipListFindPrevs_loop.simps(2) [of h w "Suc i"])
qed

lemma SkipListFindPrevs_ok:
  assumes "skl h s xs" "length path = 7"
  shows "SkipListFindPrevs h s path w = Some (map (before h s xs w) [0..<7])"
proof -
  have "SkipListFindPrevs_loop h w (Suc 6) s path =
      Some (map (before h s xs w) [0..<Suc 6] @ drop (Suc 6) path)"
    by (rule SkipListFindPrevs_loop_ok [OF assms(1) landing_sentinel]) (use assms(2) in auto)
  with assms(2) show ?thesis
    by (simp add: SkipListFindPrevs_def SKIPLIST_MAX_LEVELS_def eval_nat_numeral)
qed

lemma best_skip_ok:
  assumes "skl h s xs" "landing h s xs w (Suc i) p" "Suc i < 7"
  shows "best_skip h w (Suc i) p = Some (before h s xs w 1)"
  using assms(2,3)
proof (induction i arbitrary: p)
  case 0
  then show ?case using skip_lighter_landing [OF assms(1)] by simp
next
  case (Suc i)
  have "skip_lighter h (Suc (Suc i)) w p = Some (before h s xs w (Suc (Suc i)))"
    using skip_lighter_landing [OF assms(1) Suc.prems] .
  with Suc.IH [OF landing_before [OF assms(1)]] Suc.prems(2) show ?case by simp
qed

section \<open>Insertion\<close>

text \<open>What link updates keep: which addresses hold nodes, the weights and the payloads.\<close>

definition same_data :: "sl_heap \<Rightarrow> sl_heap \<Rightarrow> bool" where
  "same_data h h' \<longleftrightarrow> node_at h' = node_at h \<and> wt h' = wt h \<and> pl h' = pl h"

lemma same_data_refl [simp]: "same_data h h"
  by (simp add: same_data_def)

lemma same_data_trans [trans]: "same_data h h1 \<Longrightarrow> same_data h1 h2 \<Longrightarrow> same_data h h2"
  by (simp add: same_data_def)

lemma same_data_upd [simp]: "same_data h (upd_next h p i v)" "same_data h (upd_prev h p i v)"
  by (auto simp: same_data_def heap_simps fun_eq_iff)

lemma insert_level_eq:
  assumes "node_at h node" "node_at h q" "nx h i q \<noteq> NULL \<Longrightarrow> node_at h (nx h i q)"
    and "i < 7" "i < length prevs" "prevs ! i = q"
  shows "insert_level h prevs node i = Some
    (let h3 = upd_prev (upd_next (upd_next h node i (nx h i q)) q i node) node i q
     in if nx h i q \<noteq> NULL then upd_prev h3 (nx h i q) i node else h3)"
  using assms by (simp add: insert_level_def heap_simps Let_def)

text \<open>
  What an operation on the levels \<open>J\<close> leaves alone: the links of the other levels, whether a node
  outside \<open>N\<close> has a predecessor, the data of the nodes, and all of the heap outside \<open>D\<close>.
\<close>

definition level_frame :: "sl_heap \<Rightarrow> sl_heap \<Rightarrow> nat set \<Rightarrow> ptr set \<Rightarrow> ptr set \<Rightarrow> bool" where
  "level_frame h h' J N D \<longleftrightarrow> (\<forall>j. j \<notin> J \<longrightarrow> nx h' j = nx h j \<and> pv h' j = pv h j) \<and>
     (\<forall>j x. x \<notin> N \<longrightarrow> (pv h' j x = NULL) = (pv h j x = NULL)) \<and> same_data h h' \<and> (\<forall>p. p \<notin> D \<longrightarrow> h' p = h p)"

lemma level_frame_refl [simp]: "level_frame h h J N D"
  by (simp add: level_frame_def)

lemma level_frame_mono: "level_frame h h' J N D \<Longrightarrow> D \<subseteq> D' \<Longrightarrow> level_frame h h' J N D'"
  by (auto simp: level_frame_def)

lemma level_frameD:
  assumes "level_frame h h' J N D"
  shows "j \<notin> J \<Longrightarrow> nx h' j = nx h j \<and> pv h' j = pv h j" "x \<notin> N \<Longrightarrow> (pv h' j x = NULL) = (pv h j x = NULL)"
    "node_at h' = node_at h" "same_data h h'" "p \<notin> D \<Longrightarrow> h' p = h p"
  using assms unfolding level_frame_def same_data_def by blast+

lemma level_frame_Suc:
  assumes "level_frame h h1 {i} N D" "level_frame h1 h' {Suc i..<Suc i + k} N D"
  shows "level_frame h h' {i..<i + Suc k} N D"
  using assms unfolding level_frame_def by (auto intro: same_data_trans)

text \<open>An operation on one level that links up what was there keeps the predecessors of the other levels.\<close>

lemma level_frameI:
  assumes "\<And>j. j \<noteq> i \<Longrightarrow> nx h' j = nx h j \<and> pv h' j = pv h j"
    and "\<And>x. x \<notin> N \<Longrightarrow> (pv h' i x = NULL) = (pv h i x = NULL)" "same_data h h'" "\<And>p. p \<notin> D \<Longrightarrow> h' p = h p"
  shows "level_frame h h' {i} N D"
  unfolding level_frame_def
proof (intro conjI allI impI)
  show "(pv h' j x = NULL) = (pv h j x = NULL)" if "x \<notin> N" for j x
    using assms(1) [of j] assms(2) [OF that] by (cases "j = i") auto
qed (use assms in auto)

lemma insert_level_ok:
  assumes list: "dll (nx h i) (pv h i) NULL s (as @ bs)" "distinct (s # as @ bs)"
    and nodes: "\<forall>x\<in>set (s # as @ bs). node_at h x" "node_at h node" "node \<notin> set (s # as @ bs)"
    and i: "i < 7" "i < length prevs" "prevs ! i = last (s # as)"
  shows "\<exists>h'. insert_level h prevs node i = Some h' \<and>
    dll (nx h' i) (pv h' i) NULL s (as @ node # bs) \<and> pv h' i node \<noteq> NULL \<and>
    level_frame h h' {i} {node} (set (node # s # as @ bs))"
proof -
  define q where "q = last (s # as)"
  define n where "n = nx h i q"
  define h3 where "h3 = upd_prev (upd_next (upd_next h node i n) q i node) node i q"
  define h' where "h' = (if n \<noteq> NULL then upd_prev h3 n i node else h3)"
  have q_in: "q \<in> set (s # as)" unfolding q_def by (rule last_in_set) simp
  then have q: "node_at h q" "q \<noteq> node" "q \<noteq> NULL" using nodes by (auto simp: node_at_def)
  have dq: "dll (nx h i) (pv h i) NULL q bs" using list(1) by (simp add: dll_append q_def)
  have n_in: "n \<noteq> NULL \<Longrightarrow> n \<in> set bs \<and> pv h i n = q"
    using dq by (cases bs) (auto simp: n_def dll_Cons)
  then have n: "n \<noteq> NULL \<Longrightarrow> node_at h n \<and> n \<noteq> node \<and> pv h i n = q" using nodes by auto
  have run: "insert_level h prevs node i = Some h'"
    using insert_level_eq [OF nodes(2) q(1)] n i by (simp add: h'_def h3_def n_def q_def Let_def)
  have nx': "nx h' j p = (if j = i \<and> p = q then node else if j = i \<and> p = node then n else nx h j p)"
    for j p using q nodes(2) by (auto simp: h'_def h3_def heap_simps)
  have pv': "pv h' j p = (if j = i \<and> p = n \<and> n \<noteq> NULL then node
      else if j = i \<and> p = node then q else pv h j p)"
    for j p using q nodes(2) n by (auto simp: h'_def h3_def heap_simps)
  have frame: "h' p = h p" if "p \<noteq> node" "p \<noteq> q" "n \<noteq> NULL \<Longrightarrow> p \<noteq> n" for p
    using that by (cases "n = NULL") (simp_all add: h'_def h3_def upd_next_simps upd_prev_simps)
  have "dll (nx h' i) (pv h' i) NULL s (as @ node # bs)"
  proof (rule dll_insert [OF list nodes(3) _ q_def])
    show "node \<noteq> NULL" using nodes(2) by (simp add: node_at_def)
  qed (use n nodes(2) q in \<open>auto simp: nx' pv' n_def node_at_def\<close>)
  moreover have "level_frame h h' {i} {node} (set (node # s # as @ bs))"
  proof (rule level_frameI)
    show "same_data h h'" by (auto simp: h'_def h3_def same_data_def heap_simps fun_eq_iff)
    show "h' p = h p" if "p \<notin> set (node # s # as @ bs)" for p
      using that q_in n_in by (intro frame) auto
    show "(pv h' i x = NULL) = (pv h i x = NULL)" if "x \<notin> {node}" for x
      using that n q nodes(2) by (auto simp: pv' node_at_def)
  qed (simp add: nx' pv' fun_eq_iff)
  moreover have "pv h' i node \<noteq> NULL" using n q nodes(2) by (auto simp: pv' node_at_def)
  ultimately show ?thesis using run by blast
qed

lemma insert_levels_ok:
  assumes list: "\<And>j. i \<le> j \<Longrightarrow> j < i + k \<Longrightarrow>
      dll (nx h j) (pv h j) NULL s (A j @ B j) \<and> distinct (s # A j @ B j) \<and>
      set (A j @ B j) \<subseteq> S \<and> j < 7 \<and> j < length prevs \<and> prevs ! j = last (s # A j)"
    and nodes: "\<forall>x\<in>insert s S. node_at h x" "node_at h node" "node \<notin> insert s S"
  shows "\<exists>h'. insert_levels h prevs node i k = Some h' \<and>
    (\<forall>j. i \<le> j \<longrightarrow> j < i + k \<longrightarrow> dll (nx h' j) (pv h' j) NULL s (A j @ node # B j) \<and> pv h' j node \<noteq> NULL) \<and>
    level_frame h h' {i..<i + k} {node} (insert node (insert s S))"
  using assms
proof (induction k arbitrary: h i)
  case 0
  then show ?case by simp
next
  case (Suc k)
  have li: "dll (nx h i) (pv h i) NULL s (A i @ B i)" "distinct (s # A i @ B i)"
      "set (A i @ B i) \<subseteq> S" "i < 7" "i < length prevs" "prevs ! i = last (s # A i)"
    using Suc.prems(1) [of i] by auto
  have ni: "\<forall>x\<in>set (s # A i @ B i). node_at h x" "node \<notin> set (s # A i @ B i)"
    using Suc.prems(2,4) li(3) by auto
  from insert_level_ok [OF li(1,2) ni(1) Suc.prems(3) ni(2) li(4,5,6)]
  obtain h1 where h1: "insert_level h prevs node i = Some h1"
    "dll (nx h1 i) (pv h1 i) NULL s (A i @ node # B i)" "pv h1 i node \<noteq> NULL"
    and "level_frame h h1 {i} {node} (set (node # s # A i @ B i))"
    by blast
  then have fr: "level_frame h h1 {i} {node} (insert node (insert s S))"
    using li(3) by (auto elim!: level_frame_mono)
  have "dll (nx h1 j) (pv h1 j) NULL s (A j @ B j) \<and> distinct (s # A j @ B j) \<and>
      set (A j @ B j) \<subseteq> S \<and> j < 7 \<and> j < length prevs \<and> prevs ! j = last (s # A j)"
    if "Suc i \<le> j" "j < Suc i + k" for j
    using Suc.prems(1) [of j] level_frameD(1) [OF fr, of j] that by simp
  from Suc.IH [OF this] Suc.prems(2-4)
  obtain h' where h': "insert_levels h1 prevs node (Suc i) k = Some h'"
    and l': "\<And>j. Suc i \<le> j \<Longrightarrow> j < Suc i + k \<Longrightarrow>
      dll (nx h' j) (pv h' j) NULL s (A j @ node # B j) \<and> pv h' j node \<noteq> NULL"
    and fr': "level_frame h1 h' {Suc i..<Suc i + k} {node} (insert node (insert s S))"
    unfolding level_frameD(3) [OF fr] by blast
  have "dll (nx h' j) (pv h' j) NULL s (A j @ node # B j) \<and> pv h' j node \<noteq> NULL"
    if "i \<le> j" "j < i + Suc k" for j
    using that l' [of j] level_frameD(1) [OF fr', of j] h1(2,3) by (cases "j = i") auto
  then show ?case using h1(1) h' level_frame_Suc [OF fr fr'] by auto
qed

text \<open>Ordered insertion on lists is the library's \<^const>\<open>insort_key\<close>.\<close>

lemma insort_key_split:
  fixes f :: "'a \<Rightarrow> 'b::linorder"
  assumes "sorted (map f xs)"
  shows "insort_key f x xs = filter (\<lambda>y. f y < f x) xs @ x # filter (\<lambda>y. \<not> f y < f x) xs"
  using assms
proof (induction xs)
  case (Cons y ys)
  show ?case
  proof (cases "f x \<le> f y")
    case True
    with Cons.prems have "\<forall>z\<in>set (y # ys). f x \<le> f z" by auto
    then have "filter (\<lambda>z. f z < f x) (y # ys) = []" "filter (\<lambda>z. \<not> f z < f x) (y # ys) = y # ys"
      by (auto simp: filter_empty_conv filter_id_conv not_less)
    then show ?thesis using True by simp
  next
    case False
    then have "f y < f x" "\<not> f x \<le> f y" by auto
    with Cons show ?thesis by simp
  qed
qed simp

lemma hgt_prefix:
  assumes "k \<le> 7" "\<And>j. j < k \<Longrightarrow> pv h j p \<noteq> NULL" "k < 7 \<Longrightarrow> pv h k p = NULL"
  shows "hgt h p = k"
proof -
  have "i < hgt h p \<longleftrightarrow> i < k" for i
    unfolding less_hgt using assms by (metis le_less_trans linorder_not_less order.strict_trans2 leD)
  from this [of k] this [of "hgt h p"] show ?thesis by simp
qed

text \<open>The nodes of level \<open>j\<close> before and after the place of weight \<open>w\<close>.\<close>

definition lighter :: "sl_heap \<Rightarrow> ptr list \<Rightarrow> u64 \<Rightarrow> nat \<Rightarrow> ptr list" where
  "lighter h xs w j = lvl h j (filter (\<lambda>x. wt h x < w) xs)"

definition heavier :: "sl_heap \<Rightarrow> ptr list \<Rightarrow> u64 \<Rightarrow> nat \<Rightarrow> ptr list" where
  "heavier h xs w j = lvl h j (filter (\<lambda>x. \<not> wt h x < w) xs)"

lemma lvl_lighter_heavier:
  assumes "skl h s xs"
  shows "lvl h j xs = lighter h xs w j @ heavier h xs w j"
  unfolding lighter_def heavier_def lvl_def filter_append [symmetric]
  using filter_split_sorted [of "wt h" xs w] assms by (simp add: skl_def)

lemma skl_insortI:
  assumes inv: "skl h s xs" and node: "node_at h node" "node \<notin> set (s # xs)" and k: "0 < k"
    and d: "same_data h h'" and hg: "\<And>x. x \<noteq> node \<Longrightarrow> hgt h' x = hgt h x" and hn: "hgt h' node = k"
    and lo: "\<And>j. j < k \<Longrightarrow> j < 7 \<Longrightarrow> dll (nx h' j) (pv h' j) NULL s
      (lighter h xs (wt h node) j @ node # heavier h xs (wt h node) j)"
    and hi: "\<And>j. k \<le> j \<Longrightarrow> j < 7 \<Longrightarrow> dll (nx h' j) (pv h' j) NULL s (lvl h j xs)"
  shows "skl h' s (insort_key (wt h) node xs)"
proof -
  define ys where "ys = insort_key (wt h) node xs"
  have lnk: "linked h s xs" and srt: "sorted (map (wt h) xs)" using inv by (auto simp: skl_def)
  have ys: "ys = filter (\<lambda>x. wt h x < wt h node) xs @ node # filter (\<lambda>x. \<not> wt h x < wt h node) xs"
    by (simp add: ys_def insort_key_split [OF srt])
  have hx: "hgt h' x = hgt h x" if "x \<in> set xs" for x
    using node(2) that by (intro hg) auto
  then have "filter (\<lambda>x. j < hgt h' x) (filter P xs) = filter (\<lambda>x. j < hgt h x) (filter P xs)" for P j
    by (intro filter_cong) auto
  then have lvl': "lvl h' j ys = lighter h xs (wt h node) j @ (if j < k then [node] else []) @
      heavier h xs (wt h node) j" for j
    by (simp add: lvl_def ys lighter_def heavier_def hn)
  have "dll (nx h' j) (pv h' j) NULL s (lvl h' j ys)" if "j < 7" for j
    using lo [of j] hi [of j] that lvl_lighter_heavier [OF inv, of j "wt h node"]
    by (cases "j < k") (simp_all add: lvl')
  moreover have set_ys: "set ys = insert node (set xs)" and "distinct ys"
    using linkedD(1) [OF lnk] node(2) by (auto simp: ys_def set_insort_key distinct_insort)
  moreover have "\<forall>x\<in>set ys. 0 < hgt h' x"
    using linkedD(5) [OF lnk] k hx hn set_ys by auto
  ultimately have "linked h' s ys"
    using lnk node d hg unfolding linked_def by (auto simp: same_data_def)
  moreover have "sorted (map (wt h') ys)"
    using d srt by (simp add: ys_def same_data_def sorted_insort_key)
  ultimately show ?thesis by (simp add: skl_def ys_def)
qed

text \<open>The links of the new node at its height are cleared first.\<close>

definition clear_top :: "sl_heap \<Rightarrow> ptr \<Rightarrow> nat \<Rightarrow> sl_heap" where
  "clear_top h node height = (if height < 7 then upd_prev (upd_next h node height NULL) node height NULL else h)"

lemma clear_top_simps:
  "node_at h node \<Longrightarrow> SkipListInsertAfter h prevs node height =
     insert_levels (clear_top h node height) prevs node 0 (min height 7)"
  "same_data h (clear_top h node height)"
  "node_at h node \<Longrightarrow> p \<noteq> node \<Longrightarrow> nx (clear_top h node height) j p = nx h j p"
  "node_at h node \<Longrightarrow> p \<noteq> node \<Longrightarrow> pv (clear_top h node height) j p = pv h j p"
  "p \<noteq> node \<Longrightarrow> clear_top h node height p = h p"
  "node_at h node \<Longrightarrow> height < 7 \<Longrightarrow> pv (clear_top h node height) height node = NULL"
  by (auto simp: SkipListInsertAfter_def SKIPLIST_MAX_LEVELS_def clear_top_def same_data_def heap_simps fun_eq_iff)

lemma clear_top_linked:
  assumes "linked h s xs" "node \<notin> set (s # xs)" "j < 7" "node_at h node"
  shows "dll (nx (clear_top h node height) j) (pv (clear_top h node height) j) NULL s (lvl h j xs)"
proof -
  have "x \<noteq> node" if "x \<in> set (s # lvl h j xs)" for x
    using that assms(2) set_lvl [of h j xs] by auto
  then have "dll (nx (clear_top h node height) j) (pv (clear_top h node height) j) NULL s (lvl h j xs) =
      dll (nx h j) (pv h j) NULL s (lvl h j xs)"
    by (intro dll_cong clear_top_simps assms(4)) auto
  then show ?thesis using linkedD(4) [OF assms(1,3)] by simp
qed

text \<open>
  The whole insertion: on a skip list and a node that is not in it, the loops end, nothing
  faults, and the result is a skip list of the same nodes with the new one at its place.
\<close>

lemma SkipListInsertAfter_ok:
  assumes inv: "skl h s xs" and node: "node_at h node" "node \<notin> set (s # xs)" and height: "0 < height"
    and prevs: "prevs = map (before h s xs (wt h node)) [0..<7]"
  shows "\<exists>h'. SkipListInsertAfter h prevs node height = Some h' \<and>
    skl h' s (insort_key (wt h) node xs) \<and> hgt h' node = min height 7 \<and>
    (\<forall>x. x \<noteq> node \<longrightarrow> hgt h' x = hgt h x) \<and>
    same_data h h' \<and> (\<forall>p. p \<notin> set (node # s # xs) \<longrightarrow> h' p = h p)"
proof -
  define k where "k = min height 7"
  define h0 where "h0 = clear_top h node height"
  define A where "A = lighter h xs (wt h node)"
  define B where "B = heavier h xs (wt h node)"
  have lnk: "linked h s xs" using inv by (simp add: skl_def)
  have AB: "lvl h j xs = A j @ B j" for j
    unfolding A_def B_def by (rule lvl_lighter_heavier [OF inv])
  note dll0 = clear_top_linked [OF lnk node(2) _ node(1), of _ height, folded h0_def]
  have pre: "dll (nx h0 j) (pv h0 j) NULL s (A j @ B j) \<and> distinct (s # A j @ B j) \<and>
      set (A j @ B j) \<subseteq> set xs \<and> j < 7 \<and> j < length prevs \<and> prevs ! j = last (s # A j)"
    if "0 \<le> j" "j < 0 + k" for j
  proof -
    have "j < 7" using that by (simp add: k_def)
    moreover have "distinct (s # lvl h j xs)"
      using linkedD(1) [OF lnk] by (auto simp: lvl_def)
    moreover have "prevs ! j = last (s # A j)"
      using \<open>j < 7\<close> by (simp add: prevs before_def A_def lighter_def)
    ultimately show ?thesis
      using dll0 [of j] set_lvl [of h j xs] unfolding AB by (simp add: prevs)
  qed
  have nodes: "\<forall>x\<in>insert s (set xs). node_at h0 x" "node_at h0 node"
    using linkedD(2) [OF lnk] node(1) clear_top_simps(2) [of h node height] by (auto simp: same_data_def h0_def)
  from insert_levels_ok [of 0 k h0 s A B "set xs" prevs node, OF pre nodes] node(2)
  obtain h' where h': "insert_levels h0 prevs node 0 k = Some h'"
    and lo: "\<And>j. j < k \<Longrightarrow> dll (nx h' j) (pv h' j) NULL s (A j @ node # B j) \<and> pv h' j node \<noteq> NULL"
    and hi: "\<And>j. k \<le> j \<Longrightarrow> nx h' j = nx h0 j \<and> pv h' j = pv h0 j"
    and z: "\<And>j x. x \<noteq> node \<Longrightarrow> (pv h' j x = NULL) = (pv h0 j x = NULL)"
    and d': "same_data h0 h'"
    and fr: "\<And>p. p \<notin> insert node (insert s (set xs)) \<Longrightarrow> h' p = h0 p"
    by (auto simp: level_frame_def)
  have d: "same_data h h'" using same_data_trans [OF clear_top_simps(2) [of h node height, folded h0_def] d'] .
  have hg: "hgt h' x = hgt h x" if "x \<noteq> node" for x
    by (rule hgt_cong) (use z clear_top_simps(4) [OF node(1)] that in \<open>auto simp: h0_def\<close>)
  have "k < 7 \<Longrightarrow> pv h0 k node = NULL" using clear_top_simps(6) [OF node(1), of height] by (auto simp: h0_def k_def min_def split: if_splits)
  then have hn: "hgt h' node = k"
    by (intro hgt_prefix) (use lo hi in \<open>auto simp: k_def\<close>)
  have "skl h' s (insort_key (wt h) node xs)"
    by (rule skl_insortI [OF inv node _ d hg hn])
      (use lo hi dll0 height in \<open>auto simp: k_def A_def B_def\<close>)
  moreover have "h' p = h p" if "p \<notin> set (node # s # xs)" for p
    using fr [of p] that clear_top_simps(5) [of p node h height] by (auto simp: h0_def)
  moreover have "SkipListInsertAfter h prevs node height = Some h'"
    using clear_top_simps(1) [OF node(1), of prevs height] h' by (simp add: h0_def k_def)
  ultimately show ?thesis using hn hg d unfolding k_def by auto
qed

lemma SkipListInsert_ok:
  assumes inv: "skl h s xs" and node: "node_at h node" "node \<notin> set (s # xs)" and height: "0 < height"
  shows "\<exists>h'. SkipListInsert h s node height = Some h' \<and>
    skl h' s (insort_key (wt h) node xs) \<and> hgt h' node = min height 7 \<and>
    (\<forall>x. x \<noteq> node \<longrightarrow> hgt h' x = hgt h x) \<and>
    same_data h h' \<and> (\<forall>p. p \<notin> set (node # s # xs) \<longrightarrow> h' p = h p)"
proof -
  have "s \<noteq> NULL" using inv by (auto simp: skl_def linked_def node_at_def)
  moreover have "SkipListFindPrevs h s (replicate SKIPLIST_MAX_LEVELS NULL) (wt h node) =
      Some (map (before h s xs (wt h node)) [0..<7])"
    by (rule SkipListFindPrevs_ok [OF inv]) (simp add: SKIPLIST_MAX_LEVELS_def)
  ultimately have "SkipListInsert h s node height =
      SkipListInsertAfter h (map (before h s xs (wt h node)) [0..<7]) node height"
    using node(1) by (simp add: SkipListInsert_def heap_simps) (simp add: node_at_def)
  with SkipListInsertAfter_ok [OF inv node height refl] show ?thesis by simp
qed


section \<open>Removal\<close>

lemma remove_level_eq:
  assumes "node_at h x" "node_at h q" "q \<noteq> x" "pv h i x = q" "i < 7"
    and "nx h i x \<noteq> NULL \<Longrightarrow> node_at h (nx h i x)"
  shows "remove_level h x i = Some (let h1 = upd_next h q i (nx h i x)
    in if nx h i x \<noteq> NULL then upd_prev h1 (nx h i x) i q else h1)"
proof -
  have "q \<noteq> NULL" using assms(2) by (simp add: node_at_def)
  with assms show ?thesis by (simp add: remove_level_def heap_simps Let_def)
qed

lemma remove_level_ok:
  assumes list: "dll (nx h i) (pv h i) NULL s (as @ x # bs)" "distinct (s # as @ x # bs)"
    and nodes: "\<forall>y\<in>set (s # as @ x # bs). node_at h y" and i: "i < 7"
  shows "\<exists>h'. remove_level h x i = Some h' \<and> dll (nx h' i) (pv h' i) NULL s (as @ bs) \<and>
    level_frame h h' {i} {} (set (s # as @ bs))"
proof -
  define q where "q = last (s # as)"
  define n where "n = nx h i x"
  define h1 where "h1 = upd_next h q i n"
  define h' where "h' = (if n \<noteq> NULL then upd_prev h1 n i q else h1)"
  have q_in: "q \<in> set (s # as)" unfolding q_def by (rule last_in_set) simp
  then have q: "node_at h q" "q \<noteq> x" "q \<noteq> NULL" using nodes list(2) by (auto simp: node_at_def)
  have dx: "dll (nx h i) (pv h i) NULL x bs" and pvx: "pv h i x = q"
    using list(1) by (simp_all add: dll_append dll_Cons q_def)
  have n_in: "n \<noteq> NULL \<Longrightarrow> n \<in> set bs \<and> pv h i n = x"
    using dx by (cases bs) (auto simp: n_def dll_Cons)
  then have n: "n \<noteq> NULL \<Longrightarrow> node_at h n" using nodes by auto
  have x: "node_at h x" using nodes by simp
  have run: "remove_level h x i = Some h'"
    using remove_level_eq [OF x q(1,2) pvx i] n by (simp add: h'_def h1_def n_def Let_def)
  have nx': "nx h' j p = (if j = i \<and> p = q then n else nx h j p)" for j p
    using q by (auto simp: h'_def h1_def heap_simps)
  have pv': "pv h' j p = (if j = i \<and> p = n \<and> n \<noteq> NULL then q else pv h j p)" for j p
    using q n by (auto simp: h'_def h1_def heap_simps)
  have frame: "h' p = h p" if "p \<noteq> q" "n \<noteq> NULL \<Longrightarrow> p \<noteq> n" for p
    using that by (cases "n = NULL") (simp_all add: h'_def h1_def upd_next_simps upd_prev_simps)
  have "dll (nx h' i) (pv h' i) NULL s (as @ bs)"
    by (rule dll_remove [OF list]) (auto simp: nx' pv' pvx n_def)
  moreover have "level_frame h h' {i} {} (set (s # as @ bs))"
  proof (rule level_frameI)
    show "same_data h h'" by (auto simp: h'_def h1_def same_data_def heap_simps fun_eq_iff)
    show "h' p = h p" if "p \<notin> set (s # as @ bs)" for p using that q_in n_in by (intro frame) auto
    show "(pv h' i y = NULL) = (pv h i y = NULL)" for y using n_in q x by (auto simp: pv' node_at_def)
  qed (simp add: nx' pv' fun_eq_iff)
  ultimately show ?thesis using run by blast
qed

lemma remove_levels_ok:
  assumes list: "\<And>j. i \<le> j \<Longrightarrow> j < i + k \<Longrightarrow> j < 7 \<and> (\<exists>as bs. L j = as @ x # bs) \<and>
      dll (nx h j) (pv h j) NULL s (L j) \<and> distinct (s # L j) \<and> set (L j) \<subseteq> S"
    and nodes: "\<forall>y\<in>insert s S. node_at h y"
  shows "\<exists>h'. remove_levels h x i k = Some h' \<and>
    (\<forall>j. i \<le> j \<longrightarrow> j < i + k \<longrightarrow> dll (nx h' j) (pv h' j) NULL s (remove1 x (L j))) \<and>
    level_frame h h' {i..<i + k} {} (insert s S - {x})"
  using assms
proof (induction k arbitrary: h i)
  case 0
  then show ?case by simp
next
  case (Suc k)
  have p: "i < 7" "\<exists>as bs. L i = as @ x # bs" "dll (nx h i) (pv h i) NULL s (L i)"
      "distinct (s # L i)" "set (L i) \<subseteq> S"
    using Suc.prems(1) [of i] by simp_all
  then obtain as bs where L: "L i = as @ x # bs" by blast
  note li = p(1) p(3-5) [unfolded L]
  have ni: "\<forall>y\<in>set (s # as @ x # bs). node_at h y"
    using Suc.prems(2) li(4) by auto
  from remove_level_ok [OF li(2,3) ni li(1)]
  obtain h1 where h1: "remove_level h x i = Some h1" "dll (nx h1 i) (pv h1 i) NULL s (as @ bs)"
    and "level_frame h h1 {i} {} (set (s # as @ bs))"
    by blast
  then have fr: "level_frame h h1 {i} {} (insert s S - {x})" using li(3,4) by (auto elim!: level_frame_mono)
  have r: "remove1 x (L i) = as @ bs" using L li(3) by (simp add: remove1_append)
  have pre1: "j < 7 \<and> (\<exists>as bs. L j = as @ x # bs) \<and>
      dll (nx h1 j) (pv h1 j) NULL s (L j) \<and> distinct (s # L j) \<and> set (L j) \<subseteq> S"
    if "Suc i \<le> j" "j < Suc i + k" for j
    using Suc.prems(1) [of j] level_frameD(1) [OF fr, of j] that by simp
  have nodes1: "\<forall>y\<in>insert s S. node_at h1 y" using Suc.prems(2) by (simp add: level_frameD(3) [OF fr])
  from Suc.IH [of "Suc i" h1, OF pre1 nodes1]
  obtain h' where h': "remove_levels h1 x (Suc i) k = Some h'"
    and l': "\<And>j. Suc i \<le> j \<Longrightarrow> j < Suc i + k \<Longrightarrow> dll (nx h' j) (pv h' j) NULL s (remove1 x (L j))"
    and fr': "level_frame h1 h' {Suc i..<Suc i + k} {} (insert s S - {x})"
    by blast
  have "dll (nx h' j) (pv h' j) NULL s (remove1 x (L j))" if "i \<le> j" "j < i + Suc k" for j
    using that l' [of j] level_frameD(1) [OF fr', of j] h1(2) r by (cases "j = i") auto
  then show ?case using h1(1) h' level_frame_Suc [OF fr fr'] by auto
qed

text \<open>
  Removal works on the links alone: it needs no sortedness, so the weight of the node may have
  been changed before. The removed node keeps its own links.
\<close>

lemma SkipListRemove_linked:
  assumes lnk: "linked h s xs" and x: "x \<in> set xs"
  shows "\<exists>h'. SkipListRemove h x = Some h' \<and> linked h' s (remove1 x xs) \<and> hgt h' = hgt h \<and>
    same_data h h' \<and> (\<forall>p. p = x \<or> p \<notin> set (s # xs) \<longrightarrow> h' p = h p)"
proof -
  define k where "k = hgt h x"
  have nodes: "\<forall>y\<in>insert s (set xs). node_at h y" using linkedD(2) [OF lnk] by auto
  have nx: "node_at h x" "x \<noteq> NULL" using nodes x by (auto simp: node_at_def)
  then have run: "SkipListRemove h x = remove_levels h x 0 k"
    by (simp add: SkipListRemove_def heap_simps k_def)
  have pre: "j < 7 \<and> (\<exists>as bs. lvl h j xs = as @ x # bs) \<and>
      dll (nx h j) (pv h j) NULL s (lvl h j xs) \<and> distinct (s # lvl h j xs) \<and> set (lvl h j xs) \<subseteq> set xs"
    if "0 \<le> j" "j < 0 + k" for j
  proof -
    have "j < 7" using that hgt_le [of h x] by (simp add: k_def)
    moreover have "x \<in> set (lvl h j xs)" using x that by (simp add: lvl_def k_def)
    ultimately show ?thesis
      using linkedD(1) [OF lnk] linkedD(4) [OF lnk, of j] by (auto simp: split_list lvl_def)
  qed
  from remove_levels_ok [of 0 k "\<lambda>j. lvl h j xs" x h s "set xs", OF pre nodes]
  obtain h' where h': "remove_levels h x 0 k = Some h'"
    and lo: "\<And>j. j < k \<Longrightarrow> dll (nx h' j) (pv h' j) NULL s (remove1 x (lvl h j xs))"
    and hi: "\<And>j. k \<le> j \<Longrightarrow> nx h' j = nx h j \<and> pv h' j = pv h j"
    and z: "\<And>j y. (pv h' j y = NULL) = (pv h j y = NULL)"
    and d: "same_data h h'" and fx: "h' x = h x" and fr: "\<And>p. p \<notin> set (s # xs) \<Longrightarrow> h' p = h p"
    by (auto simp: level_frame_def)
  have hg: "hgt h' = hgt h" by (rule ext, rule hgt_cong) (simp add: z)
  have lvl': "lvl h' j (remove1 x xs) = remove1 x (lvl h j xs)" for j
    by (simp add: lvl_def hg filter_remove1)
  have "dll (nx h' j) (pv h' j) NULL s (lvl h' j (remove1 x xs))" if "j < 7" for j
  proof (cases "j < k")
    case True
    then show ?thesis using lo by (simp add: lvl')
  next
    case False
    then have "remove1 x (lvl h j xs) = lvl h j xs"
      by (simp add: remove1_idem lvl_def k_def)
    with False hi [of j] linkedD(4) [OF lnk that] show ?thesis by (simp add: lvl')
  qed
  then have "linked h' s (remove1 x xs)"
    using lnk d unfolding linked_def hg by (auto simp: same_data_def dest: in_remove1D)
  with run h' hg d fx fr show ?thesis by auto
qed

lemma SkipListRemove_ok:
  assumes inv: "skl h s xs" and x: "x \<in> set xs"
  shows "\<exists>h'. SkipListRemove h x = Some h' \<and> skl h' s (remove1 x xs) \<and> hgt h' = hgt h \<and>
    same_data h h' \<and> (\<forall>p. p = x \<or> p \<notin> set (s # xs) \<longrightarrow> h' p = h p)"
  using SkipListRemove_linked [of h s xs x] inv x
  by (auto simp: skl_def same_data_def sorted_map_remove1)

text \<open>Removing a node that no list holds (its height is 0) changes nothing.\<close>

lemma SkipListRemove_unlinked: "node_at h x \<Longrightarrow> hgt h x = 0 \<Longrightarrow> SkipListRemove h x = Some h"
  by (simp add: SkipListRemove_def heap_simps)


section \<open>Best fit\<close>

text \<open>The scan of level 0 with the exact flag stops at the first node that is heavy enough.\<close>

lemma best_scan_exact:
  assumes "dll (nx h 0) (pv h 0) NULL p xs" "\<forall>x\<in>set (p # xs). node_at h x"
  shows "best_scan h w True p d =
    Some (case find (\<lambda>x. w \<le> wt h x) xs of None \<Rightarrow> last (p # xs) | Some x \<Rightarrow> x)"
  using assms
proof (induction xs arbitrary: p d)
  case Nil
  then show ?case by (subst best_scan.simps) (simp add: heap_simps)
next
  case (Cons x xs)
  have "best_scan h w True x (weight_diff (wt h x) w) =
      Some (case find (\<lambda>x. w \<le> wt h x) xs of None \<Rightarrow> last (x # xs) | Some x \<Rightarrow> x)"
    by (rule Cons.IH) (use Cons.prems in \<open>auto simp: dll_Cons\<close>)
  with Cons.prems show ?case
    by (subst best_scan.simps) (auto simp: dll_Cons heap_simps Let_def split: option.splits)
qed

text \<open>Without it, the scan goes on while the distance to the wanted weight does not grow.\<close>

fun scan_closest :: "('a \<Rightarrow> u64) \<Rightarrow> u64 \<Rightarrow> 'a \<Rightarrow> u64 \<Rightarrow> 'a list \<Rightarrow> 'a" where
  "scan_closest f w p d [] = p"
| "scan_closest f w p d (x # xs) =
     (if weight_diff (f x) w > d then p else scan_closest f w x (weight_diff (f x) w) xs)"

lemma best_scan_inexact:
  assumes "dll (nx h 0) (pv h 0) NULL p xs" "\<forall>x\<in>set (p # xs). node_at h x"
  shows "best_scan h w False p d = Some (scan_closest (wt h) w p d xs)"
  using assms
proof (induction xs arbitrary: p d)
  case Nil
  then show ?case by (subst best_scan.simps) (simp add: heap_simps)
next
  case (Cons x xs)
  have "best_scan h w False x (weight_diff (wt h x) w) =
      Some (scan_closest (wt h) w x (weight_diff (wt h x) w) xs)"
    by (rule Cons.IH) (use Cons.prems in \<open>auto simp: dll_Cons\<close>)
  with Cons.prems show ?case
    by (subst best_scan.simps) (auto simp: dll_Cons heap_simps Let_def)
qed

lemma unat_weight_diff:
  "unat (weight_diff a b) = (if unat b < unat a then unat a - unat b else unat b - unat a)"
  by (auto simp: weight_diff_def word_less_nat_alt unat_sub word_le_nat_alt)

text \<open>Along increasing weights the distance falls and then grows: where it first grows is the least.\<close>

lemma weight_diff_unimodal:
  assumes "a \<le> b" "b \<le> c" "weight_diff b w > weight_diff a w"
  shows "weight_diff b w \<le> weight_diff c w"
  using assms unfolding word_less_nat_alt word_le_nat_alt unat_weight_diff
  by (auto split: if_splits)

lemma scan_closest_least:
  assumes "sorted (map f (p # xs))" "d = weight_diff (f p) w"
  shows "scan_closest f w p d xs \<in> set (p # xs) \<and>
    (\<forall>x\<in>set (p # xs). weight_diff (f (scan_closest f w p d xs)) w \<le> weight_diff (f x) w)"
  using assms
proof (induction xs arbitrary: p d)
  case (Cons x xs)
  show ?case
  proof (cases "weight_diff (f x) w > d")
    case True
    have "weight_diff (f x) w \<le> weight_diff (f y) w" if "y \<in> set (x # xs)" for y
      using that Cons.prems True weight_diff_unimodal [of "f p" "f x" "f y" w] by auto
    then show ?thesis using True Cons.prems by fastforce
  next
    case False
    then show ?thesis using Cons.IH [of x "weight_diff (f x) w"] Cons.prems by force
  qed
qed simp

lemma scan_closest_start:
  assumes "sorted (map f xs)" "xs \<noteq> []"
  shows "scan_closest f w p (- 1) xs \<in> set xs \<and>
    (\<forall>x\<in>set xs. weight_diff (f (scan_closest f w p (- 1) xs)) w \<le> weight_diff (f x) w)"
proof (cases xs)
  case (Cons x ys)
  have "\<not> weight_diff (f x) w > - 1"
    using word_order.extremum_strict by blast
  with Cons show ?thesis
    using scan_closest_least [of f x ys "weight_diff (f x) w" w] assms(1) by simp
qed (use assms in simp)

text \<open>The list behind the point where the upper levels leave off.\<close>

lemma best_start:
  assumes inv: "skl h s xs"
  obtains as bs where "xs = as @ bs" "before h s xs w 1 = last (s # as)" "\<forall>a\<in>set as. wt h a < w"
    "dll (nx h 0) (pv h 0) NULL (last (s # as)) bs"
    "\<forall>x\<in>set (last (s # as) # bs). node_at h x"
    "best_skip h w (SKIPLIST_MAX_LEVELS - 1) s = Some (last (s # as))"
proof -
  have lnk: "linked h s xs" using inv by (simp add: skl_def)
  obtain as bs where ab: "xs = as @ bs" "before h s xs w 1 = last (s # as)" "\<forall>a\<in>set as. wt h a < w"
    using landing_before [OF inv, of w 0] lvl_0 [OF lnk] unfolding landing_def by auto
  have "dll (nx h 0) (pv h 0) NULL (last (s # as)) bs"
    using linkedD(4) [OF lnk, of 0] lvl_0 [OF lnk] ab(1) by (simp only: dll_append zero_less_numeral)
  moreover have "\<forall>x\<in>set (last (s # as) # bs). node_at h x"
    using linkedD(2) [OF lnk] ab(1) by auto
  moreover have "best_skip h w (Suc 5) s = Some (before h s xs w 1)"
    by (rule best_skip_ok [OF inv landing_sentinel]) simp
  ultimately show ?thesis
    using that ab by (simp add: SKIPLIST_MAX_LEVELS_def eval_nat_numeral)
qed

lemma SkipListBest_exact:
  assumes inv: "skl h s xs"
  shows "SkipListBest h s w True =
    Some (case find (\<lambda>x. w \<le> wt h x) xs of None \<Rightarrow> NULL | Some x \<Rightarrow> x)"
proof -
  obtain as bs where ab: "xs = as @ bs" "\<forall>a\<in>set as. wt h a < w"
    and l: "dll (nx h 0) (pv h 0) NULL (last (s # as)) bs" "\<forall>x\<in>set (last (s # as) # bs). node_at h x"
    and skip: "best_skip h w (SKIPLIST_MAX_LEVELS - 1) s = Some (last (s # as))"
    using best_start [OF inv] by metis
  have lnk: "linked h s xs" using inv by (simp add: skl_def)
  have s: "s \<noteq> NULL" "s \<notin> set xs" using linkedD(1,3) [OF lnk] by auto
  have fnd: "find (\<lambda>x. w \<le> wt h x) xs = find (\<lambda>x. w \<le> wt h x) bs"
    using ab by (induction as arbitrary: xs) auto
  show ?thesis
  proof (cases "find (\<lambda>x. w \<le> wt h x) bs")
    case None
    define r where "r = last (s # xs)"
    have "r \<in> set (s # xs)" unfolding r_def by (rule last_in_set) simp
    moreover from this have "node_at h r" using linkedD(2) [OF lnk] by blast
    moreover have "\<forall>x\<in>set xs. wt h x < w"
      using None ab by (auto simp: find_None_iff not_le)
    moreover have "best_scan h w True (last (s # as)) (- 1) = Some r"
      using best_scan_exact [OF l] None ab(1) by (simp add: r_def last_append)
    ultimately show ?thesis
      using s skip None fnd by (auto simp: SkipListBest_def heap_simps)
  next
    case (Some x)
    then have x: "x \<in> set xs" "w \<le> wt h x" using ab(1) by (auto simp: find_Some_iff)
    have "best_scan h w True (last (s # as)) (- 1) = Some x"
      using best_scan_exact [OF l] Some by simp
    moreover have "node_at h x" "x \<noteq> s" using x s linkedD(2) [OF lnk] by auto
    ultimately show ?thesis
      using s skip Some fnd x by (simp add: SkipListBest_def heap_simps leD)
  qed
qed

lemma SkipListBest_inexact:
  assumes inv: "skl h s xs"
  obtains as bs where "xs = as @ bs" "before h s xs w 1 = last (s # as)" "\<forall>a\<in>set as. wt h a < w"
    "SkipListBest h s w False =
      Some (if xs = [] then NULL else scan_closest (wt h) w (last (s # as)) (- 1) bs)"
    "xs \<noteq> [] \<Longrightarrow> scan_closest (wt h) w (last (s # as)) (- 1) bs \<in> set xs"
proof -
  obtain as bs where ab: "xs = as @ bs" "before h s xs w 1 = last (s # as)" "\<forall>a\<in>set as. wt h a < w"
    and l: "dll (nx h 0) (pv h 0) NULL (last (s # as)) bs" "\<forall>x\<in>set (last (s # as) # bs). node_at h x"
    and skip: "best_skip h w (SKIPLIST_MAX_LEVELS - 1) s = Some (last (s # as))"
    using best_start [OF inv] by metis
  have lnk: "linked h s xs" and srt: "sorted (map (wt h) xs)" using inv by (auto simp: skl_def)
  have s: "s \<noteq> NULL" "s \<notin> set xs" "node_at h s" using linkedD(1,2,3) [OF lnk] by auto
  define r where "r = scan_closest (wt h) w (last (s # as)) (- 1) bs"
  have scan: "best_scan h w False (last (s # as)) (- 1) = Some r"
    using best_scan_inexact [OF l] by (simp add: r_def)
  have r: "r \<in> set xs" if "xs \<noteq> []"
  proof (cases "bs = []")
    case True
    with that ab(1) show ?thesis by (simp add: r_def)
  next
    case False
    moreover have "sorted (map (wt h) bs)" using srt ab(1) by (simp add: sorted_append)
    ultimately show ?thesis
      using scan_closest_start [of "wt h" bs w "last (s # as)"] ab(1) by (simp add: r_def)
  qed
  have r0: "r = s" if "xs = []" using that ab(1) by (simp add: r_def)
  have "SkipListBest h s w False = Some (if xs = [] then NULL else r)"
  proof (cases "xs = []")
    case True
    with r0 s skip scan show ?thesis by (simp add: SkipListBest_def heap_simps)
  next
    case False
    with r have "r \<in> set xs" by simp
    moreover from this have "node_at h r" "r \<noteq> s" using s linkedD(2) [OF lnk] by auto
    ultimately show ?thesis using False s skip scan by (simp add: SkipListBest_def heap_simps)
  qed
  with that ab r show ?thesis unfolding r_def by blast
qed


section \<open>Neighbours\<close>

lemma SkipListPrev_ok:
  assumes lnk: "linked h s (as @ x # bs)"
  shows "SkipListPrev h x = Some (last (s # as))"
proof -
  have x: "node_at h x" "x \<noteq> NULL" using linkedD(2,3) [OF lnk, of x] by auto
  have "dll (nx h 0) (pv h 0) NULL s (as @ x # bs)"
    using linkedD(4) [OF lnk, of 0] lvl_0 [OF lnk] by simp
  then have "pv h 0 x = last (s # as)" by (simp only: dll_append dll_Cons)
  with x show ?thesis by (simp add: SkipListPrev_def heap_simps)
qed

lemma SkipListNext_ok:
  assumes lnk: "linked h s (as @ x # bs)"
  shows "SkipListNext h x = Some (case bs of [] \<Rightarrow> NULL | y # _ \<Rightarrow> y)"
proof -
  have x: "node_at h x" "x \<noteq> NULL" using linkedD(2,3) [OF lnk, of x] by auto
  have "dll (nx h 0) (pv h 0) NULL s (as @ x # bs)"
    using linkedD(4) [OF lnk, of 0] lvl_0 [OF lnk] by simp
  then have "dll (nx h 0) (pv h 0) NULL x bs" by (simp only: dll_append dll_Cons)
  then have "nx h 0 x = (case bs of [] \<Rightarrow> NULL | y # _ \<Rightarrow> y)" by (cases bs) (auto simp: dll_Cons)
  with x show ?thesis by (simp add: SkipListNext_def heap_simps)
qed

lemma SkipListPayload_ok: "node_at h x \<Longrightarrow> SkipListPayload h x = Some (pl h x)"
  by (simp add: SkipListPayload_def heap_simps node_at_def)

text \<open>A freshly initialised node is in no list.\<close>

lemma SkipListInitNode_ok:
  assumes "p \<noteq> NULL"
  shows "SkipListInitNode h p v = Some (h(p \<mapsto> zero_node\<lparr>Payload := v\<rparr>))"
    "node_at (h(p \<mapsto> zero_node\<lparr>Payload := v\<rparr>)) q \<longleftrightarrow> q = p \<or> node_at h q"
    "hgt (h(p \<mapsto> zero_node\<lparr>Payload := v\<rparr>)) q = (if q = p then 0 else hgt h q)"
    "pl (h(p \<mapsto> zero_node\<lparr>Payload := v\<rparr>)) q = (if q = p then v else pl h q)"
    "wt (h(p \<mapsto> zero_node\<lparr>Payload := v\<rparr>)) q = (if q = p then 0 else wt h q)"
  using assms
  by (auto simp: SkipListInitNode_def zero_node_def node_at_def hgt_def pl_def wt_def
      SkipListNodeHeight_loop.simps)

section \<open>The interface to the clients of the skip list\<close>

text \<open>
  A client keeps several lists over one store, each behind its own sentinel, no node in two of
  them. \<open>list_family I S L\<close>: every sentinel \<open>s \<in> S\<close> heads a list of the nodes \<open>L s\<close>
  satisfying \<open>I\<close>, and the lists are disjoint.
\<close>

definition list_family :: "(ptr \<Rightarrow> ptr list \<Rightarrow> bool) \<Rightarrow> ptr set \<Rightarrow> (ptr \<Rightarrow> ptr list) \<Rightarrow> bool" where
  "list_family I S L \<longleftrightarrow> (\<forall>s\<in>S. I s (L s)) \<and>
     (\<forall>s\<in>S. \<forall>t\<in>S. s \<noteq> t \<longrightarrow> set (s # L s) \<inter> set (t # L t) = {})"

definition family_nodes :: "ptr set \<Rightarrow> (ptr \<Rightarrow> ptr list) \<Rightarrow> ptr set" where
  "family_nodes S L = (\<Union>s\<in>S. set (s # L s))"

text \<open>
  The contract of ordered lists of nodes, as the memory manager relies on it: \<open>cell\<close> is the
  content of a node (for the frame conditions), \<open>key\<close> its weight, \<open>rekey\<close> writes the weight.
\<close>

locale node_lists =
  fixes inv :: "'h \<Rightarrow> ptr \<Rightarrow> ptr list \<Rightarrow> bool"
    and cell :: "'h \<Rightarrow> ptr \<Rightarrow> 'c"
    and present :: "'h \<Rightarrow> ptr \<Rightarrow> bool"
    and key :: "'h \<Rightarrow> ptr \<Rightarrow> u64"
    and load :: "'h \<Rightarrow> ptr \<Rightarrow> ptr"
    and ins :: "'h \<Rightarrow> ptr \<Rightarrow> ptr \<Rightarrow> nat \<Rightarrow> 'h option"
    and rem :: "'h \<Rightarrow> ptr \<Rightarrow> 'h option"
    and rekey :: "'h \<Rightarrow> ptr \<Rightarrow> u64 \<Rightarrow> 'h option"
    and unlinked :: "'h \<Rightarrow> ptr \<Rightarrow> bool"
  assumes inv_local: "inv h s xs \<Longrightarrow> (\<And>p. p \<in> set (s # xs) \<Longrightarrow> cell h' p = cell h p) \<Longrightarrow> inv h' s xs"
    and inv_present: "inv h s xs \<Longrightarrow> x \<in> set xs \<Longrightarrow> present h x"
    and inv_distinct: "inv h s xs \<Longrightarrow> distinct (s # xs)"
    and ins_law: "inv h s xs \<Longrightarrow> present h x \<Longrightarrow> x \<notin> set (s # xs) \<Longrightarrow> 0 < k \<Longrightarrow>
      \<exists>h'. ins h s x k = Some h' \<and> inv h' s (insort_key (key h) x xs) \<and>
        key h' = key h \<and> load h' = load h \<and> present h' = present h \<and>
        (\<forall>p. p \<notin> set (x # s # xs) \<longrightarrow> cell h' p = cell h p)"
    and rem_law: "inv h s xs \<Longrightarrow> x \<in> set xs \<Longrightarrow>
      \<exists>h'. rem h x = Some h' \<and> inv h' s (remove1 x xs) \<and>
        key h' = key h \<and> load h' = load h \<and> present h' = present h \<and>
        (\<forall>p. p \<notin> set (s # xs) \<longrightarrow> cell h' p = cell h p)"
    and rekey_rem_law: "inv h s xs \<Longrightarrow> x \<in> set xs \<Longrightarrow>
      \<exists>h1 h'. rekey h x w = Some h1 \<and> rem h1 x = Some h' \<and> inv h' s (remove1 x xs) \<and>
        key h' = (key h)(x := w) \<and> load h' = load h \<and> present h' = present h \<and>
        (\<forall>p. p \<notin> set (s # xs) \<longrightarrow> cell h' p = cell h p)"
    and rekey_unlinked: "present h x \<Longrightarrow> unlinked h x \<Longrightarrow>
      \<exists>h1. rekey h x w = Some h1 \<and> rem h1 x = Some h1 \<and>
        key h1 = (key h)(x := w) \<and> load h1 = load h \<and> present h1 = present h \<and>
        (\<forall>p. p \<noteq> x \<longrightarrow> cell h1 p = cell h p)"
begin

lemma family_frame:
  assumes "list_family (inv h) S L" "\<And>p. p \<in> family_nodes S L \<Longrightarrow> cell h' p = cell h p"
  shows "list_family (inv h') S L"
  unfolding list_family_def
proof (intro conjI ballI)
  fix s assume s: "s \<in> S"
  show "inv h' s (L s)"
    by (rule inv_local [of h]) (use assms s in \<open>auto simp: list_family_def family_nodes_def\<close>)
qed (use assms(1) in \<open>auto simp: list_family_def\<close>)

lemma family_local:
  assumes fam: "list_family (inv h) S L" and s: "s \<in> S" and new: "inv h' s ys"
    and sub: "set ys \<subseteq> set (L s) \<union> A" and A: "A \<inter> family_nodes S L = {}"
    and out: "\<And>p. p \<notin> set (s # L s) \<union> A \<Longrightarrow> cell h' p = cell h p"
  shows "list_family (inv h') S (L(s := ys))"
proof -
  have other: "set (t # L t) \<inter> (set (s # L s) \<union> A) = {}" if "t \<in> S" "t \<noteq> s" for t
    using fam s A that by (fastforce simp: list_family_def family_nodes_def)
  have "inv h' t (L t)" if t: "t \<in> S" "t \<noteq> s" for t
  proof (rule inv_local [of h])
    show "inv h t (L t)" using fam t by (simp add: list_family_def)
    fix p assume "p \<in> set (t # L t)"
    with other [OF t] show "cell h' p = cell h p" by (intro out) blast
  qed
  moreover have "set (s # ys) \<inter> set (t # L t) = {}" if "t \<in> S" "t \<noteq> s" for t
    using other [of t] that sub by auto
  ultimately show ?thesis
    using fam s new by (auto simp: list_family_def)
qed

lemma family_insert:
  assumes fam: "list_family (inv h) S L" and s: "s \<in> S" and x: "present h x" "x \<notin> family_nodes S L"
    and k: "0 < k"
  shows "\<exists>h'. ins h s x k = Some h' \<and>
    list_family (inv h') S (L(s := insort_key (key h) x (L s))) \<and>
    key h' = key h \<and> load h' = load h \<and> present h' = present h \<and>
    (\<forall>p. p \<notin> insert x (family_nodes S L) \<longrightarrow> cell h' p = cell h p)"
proof -
  have "inv h s (L s)" "x \<notin> set (s # L s)"
    using fam s x by (auto simp: list_family_def family_nodes_def)
  from ins_law [OF this(1) x(1) this(2) k]
  obtain h' where h': "ins h s x k = Some h'" "inv h' s (insort_key (key h) x (L s))"
    "key h' = key h" "load h' = load h" "present h' = present h"
    and out: "\<And>p. p \<notin> set (x # s # L s) \<Longrightarrow> cell h' p = cell h p"
    by blast
  have "list_family (inv h') S (L(s := insort_key (key h) x (L s)))"
    by (rule family_local [OF fam s h'(2), of "{x}"]) (use x out in \<open>auto simp: set_insort_key\<close>)
  with h' out s show ?thesis by (auto simp: family_nodes_def)
qed

lemma family_remove:
  assumes fam: "list_family (inv h) S L" and s: "s \<in> S" and x: "x \<in> set (L s)"
  shows "\<exists>h'. rem h x = Some h' \<and> list_family (inv h') S (L(s := remove1 x (L s))) \<and>
    key h' = key h \<and> load h' = load h \<and> present h' = present h \<and>
    (\<forall>p. p \<notin> family_nodes S L \<longrightarrow> cell h' p = cell h p)"
proof -
  have "inv h s (L s)" using fam s by (simp add: list_family_def)
  from rem_law [OF this x]
  obtain h' where h': "rem h x = Some h'" "inv h' s (remove1 x (L s))"
    "key h' = key h" "load h' = load h" "present h' = present h"
    and out: "\<And>p. p \<notin> set (s # L s) \<Longrightarrow> cell h' p = cell h p"
    by blast
  have "list_family (inv h') S (L(s := remove1 x (L s)))"
    by (rule family_local [OF fam s h'(2), of "{}"]) (use out in \<open>auto dest: in_remove1D\<close>)
  with h' out s show ?thesis by (auto simp: family_nodes_def)
qed

text \<open>
  Moving a node: its key is overwritten while it is still in its list, then it is removed and
  inserted into a list (the same or another one) at the place of the new key.
\<close>

lemma family_move:
  assumes fam: "list_family (inv h) S L" and s: "s \<in> S" "x \<in> set (L s)" and t: "t \<in> S" and k: "0 < k"
  shows "\<exists>h1 h2 h'. rekey h x w = Some h1 \<and> rem h1 x = Some h2 \<and> ins h2 t x k = Some h' \<and>
    (let L1 = L(s := remove1 x (L s))
     in list_family (inv h') S (L1(t := insort_key ((key h)(x := w)) x (L1 t)))) \<and>
    key h' = (key h)(x := w) \<and> load h' = load h \<and> present h' = present h \<and>
    (\<forall>p. p \<notin> family_nodes S L \<longrightarrow> cell h' p = cell h p)"
proof -
  have I: "inv h s (L s)" using fam s by (simp add: list_family_def)
  from rekey_rem_law [OF this s(2)]
  obtain h1 h2 where h2: "rekey h x w = Some h1" "rem h1 x = Some h2" "inv h2 s (remove1 x (L s))"
    "key h2 = (key h)(x := w)" "load h2 = load h" "present h2 = present h"
    and out: "\<And>p. p \<notin> set (s # L s) \<Longrightarrow> cell h2 p = cell h p"
    by blast
  define L1 where "L1 = L(s := remove1 x (L s))"
  have fam1: "list_family (inv h2) S L1"
    unfolding L1_def
    by (rule family_local [OF fam s(1) h2(3), of "{}"]) (use out in \<open>auto dest: in_remove1D\<close>)
  have x1: "x \<notin> family_nodes S L1"
    using fam s inv_distinct [OF I] unfolding list_family_def family_nodes_def L1_def
    by (fastforce split: if_splits)
  have sub: "family_nodes S L1 \<subseteq> family_nodes S L" "x \<in> family_nodes S L"
    using s by (auto simp: family_nodes_def L1_def split: if_splits dest: in_remove1D)
  have "present h2 x" using inv_present [OF I s(2)] h2(6) by simp
  from family_insert [OF fam1 t this x1 k]
  obtain h' where h': "ins h2 t x k = Some h'"
    "list_family (inv h') S (L1(t := insort_key (key h2) x (L1 t)))"
    "key h' = key h2" "load h' = load h2" "present h' = present h2"
    and out': "\<And>p. p \<notin> insert x (family_nodes S L1) \<Longrightarrow> cell h' p = cell h2 p"
    by blast
  have "cell h' p = cell h p" if "p \<notin> family_nodes S L" for p
    using out' [of p] out [of p] that sub s(1) by (auto simp: family_nodes_def)
  with h2 h' show ?thesis unfolding L1_def Let_def by auto
qed

text \<open>Placing a node that is in no list yet: the removal before the insertion does nothing.\<close>

lemma family_place:
  assumes fam: "list_family (inv h) S L" and x: "present h x" "unlinked h x" "x \<notin> family_nodes S L"
    and t: "t \<in> S" and k: "0 < k"
  shows "\<exists>h1 h'. rekey h x w = Some h1 \<and> rem h1 x = Some h1 \<and> ins h1 t x k = Some h' \<and>
    list_family (inv h') S (L(t := insort_key ((key h)(x := w)) x (L t))) \<and>
    key h' = (key h)(x := w) \<and> load h' = load h \<and> present h' = present h \<and>
    (\<forall>p. p \<notin> insert x (family_nodes S L) \<longrightarrow> cell h' p = cell h p)"
proof -
  from rekey_unlinked [OF x(1,2)]
  obtain h1 where h1: "rekey h x w = Some h1" "rem h1 x = Some h1" "key h1 = (key h)(x := w)"
    "load h1 = load h" "present h1 = present h" and out: "\<And>p. p \<noteq> x \<Longrightarrow> cell h1 p = cell h p"
    by blast
  have "list_family (inv h1) S L"
  proof (rule family_frame [OF fam])
    fix p assume "p \<in> family_nodes S L"
    with x(3) have "p \<noteq> x" by blast
    then show "cell h1 p = cell h p" by (rule out)
  qed
  moreover have "present h1 x" using h1(5) x(1) by simp
  ultimately obtain h' where h': "ins h1 t x k = Some h'"
    "list_family (inv h') S (L(t := insort_key (key h1) x (L t)))"
    "key h' = key h1" "load h' = load h1" "present h' = present h1"
    and out': "\<And>p. p \<notin> insert x (family_nodes S L) \<Longrightarrow> cell h' p = cell h1 p"
    using family_insert [OF _ t _ x(3) k] by blast
  with h1 out show ?thesis by auto
qed

end

lemma SetSkipListWeight_eq:
  assumes "node_at h p"
  shows "\<exists>h'. SetSkipListWeight h p w = Some h' \<and> nx h' = nx h \<and> pv h' = pv h \<and> hgt h' = hgt h \<and>
    wt h' = (wt h)(p := w) \<and> pl h' = pl h \<and> node_at h' = node_at h \<and> (\<forall>q. q \<noteq> p \<longrightarrow> h' q = h q)"
proof -
  obtain n where n: "h p = Some n" "p \<noteq> NULL" using assms by (auto simp: node_at_def)
  let ?h = "h(p \<mapsto> n\<lparr>Weight := w\<rparr>)"
  have eq: "nx ?h = nx h" "pv ?h = pv h" "wt ?h = (wt h)(p := w)" "pl ?h = pl h" "node_at ?h = node_at h"
    using n by (auto simp: nx_def pv_def wt_def pl_def node_at_def fun_eq_iff)
  moreover have "hgt ?h = hgt h" by (rule ext, rule hgt_cong) (simp add: eq)
  moreover have "SetSkipListWeight h p w = Some ?h" using n by (simp add: SetSkipListWeight_def deref_def)
  ultimately show ?thesis by auto
qed

lemma SetSkipListWeight_Remove:
  assumes inv: "skl h s xs" and x: "x \<in> set xs"
  shows "\<exists>h1 h'. SetSkipListWeight h x w = Some h1 \<and> SkipListRemove h1 x = Some h' \<and>
    skl h' s (remove1 x xs) \<and> wt h' = (wt h)(x := w) \<and> pl h' = pl h \<and> node_at h' = node_at h \<and>
    (\<forall>p. p \<notin> set (s # xs) \<longrightarrow> h' p = h p)"
proof -
  have lnk: "linked h s xs" and srt: "sorted (map (wt h) xs)" using inv by (auto simp: skl_def)
  have d: "distinct xs" using linkedD(1) [OF lnk] by simp
  obtain h1 where h1: "SetSkipListWeight h x w = Some h1" "nx h1 = nx h" "pv h1 = pv h" "hgt h1 = hgt h"
    "wt h1 = (wt h)(x := w)" "pl h1 = pl h" "node_at h1 = node_at h" and out: "\<And>q. q \<noteq> x \<Longrightarrow> h1 q = h q"
    using SetSkipListWeight_eq [OF linkedD(2) [OF lnk], of x w] x by auto
  have "linked h1 s xs"
    using lnk unfolding linked_def lvl_def h1(2-4,6,7) .
  from SkipListRemove_linked [OF this x]
  obtain h' where h': "SkipListRemove h1 x = Some h'" "linked h' s (remove1 x xs)" "same_data h1 h'"
    and out': "\<And>p. p = x \<or> p \<notin> set (s # xs) \<Longrightarrow> h' p = h1 p"
    by blast
  have "map (wt h') (remove1 x xs) = map (wt h) (remove1 x xs)"
    using h'(3) d by (auto simp: same_data_def h1(5))
  then have "skl h' s (remove1 x xs)"
    using h'(2) sorted_map_remove1 [OF srt, of x] unfolding skl_def by (simp only:)
  moreover have "h' p = h p" if "p \<notin> set (s # xs)" for p
    using out' [of p] out [of p] that x by auto
  ultimately show ?thesis using h1 h' by (auto simp: same_data_def)
qed

interpretation sl: node_lists skl "\<lambda>h. h" node_at wt pl SkipListInsert SkipListRemove
  SetSkipListWeight "\<lambda>h x. hgt h x = 0"
proof unfold_locales
  fix h h' s xs assume "skl h s xs" "\<And>p. p \<in> set (s # xs) \<Longrightarrow> h' p = h p"
  then show "skl h' s xs" by (rule skl_frame)
next
  fix h s xs x assume "skl h s xs" "x \<in> set xs"
  then show "node_at h x" by (auto simp: skl_def linked_def)
next
  fix h s xs assume "skl h s xs"
  then show "distinct (s # xs)" by (auto simp: skl_def linked_def)
next
  fix h s xs x and k :: nat assume "skl h s xs" "node_at h x" "x \<notin> set (s # xs)" "0 < k"
  from SkipListInsert_ok [OF this]
  show "\<exists>h'. SkipListInsert h s x k = Some h' \<and> skl h' s (insort_key (wt h) x xs) \<and>
      wt h' = wt h \<and> pl h' = pl h \<and> node_at h' = node_at h \<and> (\<forall>p. p \<notin> set (x # s # xs) \<longrightarrow> h' p = h p)"
    unfolding same_data_def by blast
next
  fix h s xs x assume "skl h s xs" "x \<in> set xs"
  from SkipListRemove_ok [OF this]
  show "\<exists>h'. SkipListRemove h x = Some h' \<and> skl h' s (remove1 x xs) \<and>
      wt h' = wt h \<and> pl h' = pl h \<and> node_at h' = node_at h \<and> (\<forall>p. p \<notin> set (s # xs) \<longrightarrow> h' p = h p)"
    unfolding same_data_def by blast
next
  fix h s xs x w assume "skl h s xs" "x \<in> set xs"
  from SetSkipListWeight_Remove [OF this]
  show "\<exists>h1 h'. SetSkipListWeight h x w = Some h1 \<and> SkipListRemove h1 x = Some h' \<and>
      skl h' s (remove1 x xs) \<and> wt h' = (wt h)(x := w) \<and> pl h' = pl h \<and> node_at h' = node_at h \<and>
      (\<forall>p. p \<notin> set (s # xs) \<longrightarrow> h' p = h p)" .
next
  fix h x w assume x: "node_at h x" "hgt h x = 0"
  from SetSkipListWeight_eq [OF x(1), of w] SkipListRemove_unlinked x
  show "\<exists>h1. SetSkipListWeight h x w = Some h1 \<and> SkipListRemove h1 x = Some h1 \<and>
      wt h1 = (wt h)(x := w) \<and> pl h1 = pl h \<and> node_at h1 = node_at h \<and> (\<forall>p. p \<noteq> x \<longrightarrow> h1 p = h p)"
    by metis
qed


section \<open>Example list\<close>

text \<open>Two nodes of weight 9 (two levels) and 100 (one level) behind a sentinel at address 8.\<close>

definition ex_list :: sl_heap where
  "ex_list = [8 \<mapsto> \<lparr>Weight = 0, Next = (\<lambda>i. if i < 2 then 16 else 0), Payload = 0, Prev = (\<lambda>_. 0)\<rparr>,
    16 \<mapsto> \<lparr>Weight = 9, Next = (\<lambda>i. if i = 0 then 24 else 0), Payload = 1, Prev = (\<lambda>i. if i < 2 then 8 else 0)\<rparr>,
    24 \<mapsto> \<lparr>Weight = 100, Next = (\<lambda>_. 0), Payload = 2, Prev = (\<lambda>i. if i = 0 then 16 else 0)\<rparr>,
    32 \<mapsto> \<lparr>Weight = 10, Next = (\<lambda>_. 0), Payload = 3, Prev = (\<lambda>_. 0)\<rparr>]"

lemma ex_list_fields:
  "node_at ex_list 8" "node_at ex_list 16" "node_at ex_list 24" "node_at ex_list 32" "pl ex_list 8 = 0"
  "wt ex_list 16 = 9" "wt ex_list 24 = 100" "wt ex_list 32 = 10"
  "hgt ex_list 8 = 0" "hgt ex_list 16 = 2" "hgt ex_list 24 = 1"
  "nx ex_list i 8 = (if i < 2 then 16 else 0)" "nx ex_list i 16 = (if i = 0 then 24 else 0)"
  "nx ex_list i 24 = 0" "pv ex_list i 16 = (if i < 2 then 8 else 0)" "pv ex_list i 24 = (if i = 0 then 16 else 0)"
  by (simp_all add: node_at_def pl_def wt_def hgt_def nx_def pv_def ex_list_def
      SkipListNodeHeight_loop.simps SKIPLIST_MAX_LEVELS_def)

lemma ex_list_skl: "skl ex_list 8 [16, 24]"
  by (auto simp: skl_def linked_def lvl_def dll_def ex_list_fields)

section \<open>Properties\<close>

text \<open>
  C10: \<open>SkipListInsert\<close> is ordered insertion. On a skip list and an initialised node that is not in
  it, the function returns, the result is a skip list whose level-0 sequence is the old one with
  the node inserted before the first node that is not lighter, the node has the requested height (at
  most seven levels), every other node keeps its height, all weights and payloads are kept, and no
  node outside the list is written.
\<close>

theorem SkipListInsert_correct:
  assumes "skl h s xs" and "node_at h node" and "node \<notin> set (s # xs)" and "0 < height"
  shows "\<exists>h'. SkipListInsert h s node height = Some h' \<and> skl h' s (insort_key (wt h) node xs) \<and>
    SkipListNodeHeight h' node = Some (min height SKIPLIST_MAX_LEVELS) \<and>
    (\<forall>x\<in>set xs. SkipListNodeHeight h' x = SkipListNodeHeight h x) \<and>
    wt h' = wt h \<and> pl h' = pl h \<and> (\<forall>p. p \<notin> set (node # s # xs) \<longrightarrow> h' p = h p)"
proof -
  obtain h' where h': "SkipListInsert h s node height = Some h'" "skl h' s (insort_key (wt h) node xs)"
    "hgt h' node = min height 7" "\<forall>x. x \<noteq> node \<longrightarrow> hgt h' x = hgt h x" "same_data h h'"
    "\<forall>p. p \<notin> set (node # s # xs) \<longrightarrow> h' p = h p"
    using SkipListInsert_ok [OF assms] by blast
  have "SkipListNodeHeight h' x = SkipListNodeHeight h x" if "x \<in> set xs" for x
    using h'(4,5) that assms(1,3) by (auto simp: access_simps(7) same_data_def skl_def linked_def)
  moreover have "node_at h' node" using h'(5) assms(2) by (simp add: same_data_def)
  ultimately show ?thesis
    using h' by (auto simp: access_simps(7) same_data_def SKIPLIST_MAX_LEVELS_def)
qed

theorem SkipListInsert_correct_witness:
  "\<exists>h'. SkipListInsert ex_list 8 32 3 = Some h' \<and> skl h' 8 [16, 32, 24] \<and>
    SkipListNodeHeight h' 32 = Some 3"
proof -
  have "(32 :: ptr) \<notin> set [8, 16, 24]" "(0 :: nat) < 3" by simp_all
  from SkipListInsert_correct [OF ex_list_skl ex_list_fields(4) this]
  show ?thesis by (auto simp: ex_list_fields SKIPLIST_MAX_LEVELS_def)
qed

text \<open>
  C11: \<open>SkipListRemove\<close> unlinks a node from every level it is in. The function returns, the result
  is a skip list of the remaining nodes in the same order, heights, weights and payloads are kept,
  and nothing outside the list is written; the removed node itself keeps its stale links.
\<close>

theorem SkipListRemove_correct:
  assumes "skl h s xs" and "x \<in> set xs"
  shows "\<exists>h'. SkipListRemove h x = Some h' \<and> skl h' s (remove1 x xs) \<and>
    (\<forall>y. SkipListNodeHeight h' y = SkipListNodeHeight h y) \<and> wt h' = wt h \<and> pl h' = pl h \<and>
    h' x = h x \<and> (\<forall>p. p \<notin> set (s # xs) \<longrightarrow> h' p = h p)"
proof -
  obtain h' where h': "SkipListRemove h x = Some h'" "skl h' s (remove1 x xs)" "hgt h' = hgt h"
    "same_data h h'" "\<forall>p. p = x \<or> p \<notin> set (s # xs) \<longrightarrow> h' p = h p"
    using SkipListRemove_ok [OF assms] by blast
  have "SkipListNodeHeight h' y = SkipListNodeHeight h y" for y
  proof (cases "node_at h y")
    case True
    then show ?thesis using h'(3,4) by (simp add: access_simps(7) same_data_def)
  next
    case False
    moreover have "\<not> node_at h' y" using False h'(4) by (simp add: same_data_def)
    ultimately have "deref h y = None" "deref h' y = None"
      by (auto simp: deref_def node_at_def)
    then show ?thesis by (simp add: SkipListNodeHeight_def)
  qed
  with h' show ?thesis by (auto simp: same_data_def)
qed

theorem SkipListRemove_correct_witness:
  "\<exists>h'. SkipListRemove ex_list 16 = Some h' \<and> skl h' 8 [24] \<and> h' 16 = ex_list 16"
proof -
  have "(16 :: ptr) \<in> set [16, 24]" by simp
  from SkipListRemove_correct [OF ex_list_skl this] show ?thesis by auto
qed

text \<open>
  Insertion and removal are inverse on the sequence of nodes: inserting a node and removing it
  again returns a skip list of the original sequence, with the original heights.
\<close>

theorem SkipListInsert_Remove:
  assumes "skl h s xs" and "node_at h node" and "node \<notin> set (s # xs)" and "0 < height"
  shows "\<exists>h1 h2. SkipListInsert h s node height = Some h1 \<and> SkipListRemove h1 node = Some h2 \<and>
    skl h2 s xs \<and> (\<forall>x\<in>set xs. hgt h2 x = hgt h x)"
proof -
  obtain h1 where h1: "SkipListInsert h s node height = Some h1" "skl h1 s (insort_key (wt h) node xs)"
    "\<forall>x. x \<noteq> node \<longrightarrow> hgt h1 x = hgt h x"
    using SkipListInsert_ok [OF assms] by blast
  have "node \<in> set (insort_key (wt h) node xs)" by (simp add: set_insort_key)
  from SkipListRemove_ok [OF h1(2) this]
  obtain h2 where h2: "SkipListRemove h1 node = Some h2"
    "skl h2 s (remove1 node (insort_key (wt h) node xs))" "hgt h2 = hgt h1" by blast
  have "sorted (map (wt h) xs)" using assms(1) by (simp add: skl_def)
  moreover have "node \<notin> set xs" using assms(3) by simp
  ultimately have "remove1 node (insort_key (wt h) node xs) = xs"
    by (simp add: insort_key_split remove1_append flip: filter_split_sorted)
  with h1 h2 assms(3) show ?thesis by auto
qed

theorem SkipListInsert_Remove_witness:
  "\<exists>h1 h2. SkipListInsert ex_list 8 32 7 = Some h1 \<and> SkipListRemove h1 32 = Some h2 \<and> skl h2 8 [16, 24]"
proof -
  have "(32 :: ptr) \<notin> set [8, 16, 24]" "(0 :: nat) < 7" by simp_all
  from SkipListInsert_Remove [OF ex_list_skl ex_list_fields(4) this] show ?thesis by auto
qed

text \<open>
  C28: With \<open>exact\<close>, \<open>SkipListBest\<close> returns the first node of the sorted sequence whose weight is at
  least the requested one (so a lightest sufficient one), and NULL exactly when there is none.
\<close>

theorem SkipListBest_exact_correct:
  assumes "skl h s xs"
  shows "\<exists>r. SkipListBest h s w True = Some r \<and>
    (if \<exists>x\<in>set xs. w \<le> wt h x
     then r \<in> set xs \<and> w \<le> wt h r \<and> (\<forall>x\<in>set xs. w \<le> wt h x \<longrightarrow> wt h r \<le> wt h x)
     else r = NULL)"
proof (cases "find (\<lambda>x. w \<le> wt h x) xs")
  case None
  then have "\<not> (\<exists>x\<in>set xs. w \<le> wt h x)" by (simp add: find_None_iff)
  moreover have "SkipListBest h s w True = Some NULL"
    using SkipListBest_exact [OF assms, of w] None by simp
  ultimately show ?thesis by simp
next
  case (Some y)
  then obtain i where i: "i < length xs" "y = xs ! i" "w \<le> wt h y" "\<And>j. j < i \<Longrightarrow> \<not> w \<le> wt h (xs ! j)"
    by (auto simp: find_Some_iff)
  have "wt h y \<le> wt h x" if x: "x \<in> set xs" "w \<le> wt h x" for x
  proof -
    obtain j where j: "j < length xs" "x = xs ! j" using x(1) by (metis in_set_conv_nth)
    then have "i \<le> j" using i(4) x(2) by (metis linorder_not_le)
    with j i show ?thesis
      using assms sorted_nth_mono [of "map (wt h) xs" i j] by (simp add: skl_def)
  qed
  with i Some SkipListBest_exact [OF assms, of w] show ?thesis by auto
qed

theorem SkipListBest_exact_correct_witness: "\<exists>r. SkipListBest ex_list 8 10 True = Some r \<and> r \<in> set [16, 24] \<and> 10 \<le> wt ex_list r"
  using SkipListBest_exact_correct [OF ex_list_skl, of 10] by (auto simp: ex_list_fields)

text \<open>
  C37: Without \<open>exact\<close>, \<open>SkipListBest\<close> returns a node whenever the list has one, and that node is at
  least as close to the requested weight as every node that is heavy enough. It is the closest of
  all nodes if the nodes lighter than the request all have height 1.
\<close>

theorem SkipListBest_inexact_correct:
  assumes "skl h s xs" and "xs \<noteq> []"
  shows "\<exists>r. SkipListBest h s w False = Some r \<and> r \<in> set xs \<and>
    (\<forall>x\<in>set xs. w \<le> wt h x \<or> (\<forall>y\<in>set xs. wt h y < w \<longrightarrow> hgt h y = 1) \<longrightarrow>
      weight_diff (wt h r) w \<le> weight_diff (wt h x) w)"
proof -
  obtain as bs where ab: "xs = as @ bs" "before h s xs w 1 = last (s # as)" "\<forall>a\<in>set as. wt h a < w"
    and r': "SkipListBest h s w False =
        Some (if xs = [] then NULL else scan_closest (wt h) w (last (s # as)) (- 1) bs)"
      "xs \<noteq> [] \<Longrightarrow> scan_closest (wt h) w (last (s # as)) (- 1) bs \<in> set xs"
    by (rule SkipListBest_inexact [OF assms(1), of w]) blast
  have r: "SkipListBest h s w False = Some (scan_closest (wt h) w (last (s # as)) (- 1) bs)"
    "scan_closest (wt h) w (last (s # as)) (- 1) bs \<in> set xs"
    using r' assms(2) by simp_all
  define q where "q = scan_closest (wt h) w (last (s # as)) (- 1) bs"
  have srt: "sorted (map (wt h) xs)" using assms(1) by (simp add: skl_def)
  have "weight_diff (wt h q) w \<le> weight_diff (wt h x) w"
    if x: "x \<in> set xs" "w \<le> wt h x \<or> (\<forall>y\<in>set xs. wt h y < w \<longrightarrow> hgt h y = 1)" for x
  proof (cases "bs = []")
    case True
    then have q: "q = last xs" "\<forall>a\<in>set xs. wt h a < w" using ab assms(2) by (auto simp: q_def)
    have "wt h x \<le> wt h (last xs)" using srt x(1) assms(2) by (cases xs rule: rev_cases) (auto simp: sorted_append)
    moreover have "wt h (last xs) < w" "wt h x < w" using q(2) x(1) assms(2) by simp_all
    ultimately show ?thesis
      unfolding q(1) by (auto simp: word_le_nat_alt word_less_nat_alt unat_weight_diff)
  next
    case False
    have "x \<in> set bs"
    proof (cases "w \<le> wt h x")
      case True
      then show ?thesis using x(1) ab by (auto simp: leD)
    next
      case False
      with x(2) have "lvl h 1 (filter (\<lambda>x. wt h x < w) xs) = []" by (auto simp: lvl_def filter_empty_conv)
      then have "last (s # as) = s" using ab(2) by (simp add: before_def)
      moreover have "s \<notin> set xs" using assms(1) by (auto simp: skl_def linked_def)
      ultimately have "as = []" using ab(1) by (metis Un_iff last.simps last_in_set set_append)
      with x(1) ab(1) show ?thesis by simp
    qed
    then show ?thesis
      using scan_closest_start [of "wt h" bs w "last (s # as)"] False srt ab(1) by (simp add: q_def sorted_append)
  qed
  with r show ?thesis unfolding q_def by blast
qed

theorem SkipListBest_inexact_correct_witness:
  "\<exists>r. SkipListBest ex_list 8 70 False = Some r \<and> r \<in> set [16, 24] \<and>
    weight_diff (wt ex_list r) 70 \<le> weight_diff (wt ex_list 24) 70"
  using SkipListBest_inexact_correct [OF ex_list_skl, of 70] by (auto simp: ex_list_fields)

text \<open>
  The header promises that without \<open>exact\<close> the closest node is returned. It is not in general: the
  node where the upper levels stop is never compared. On a well-formed list of weights 9 and 100
  with the first node two levels high, a request for 10 returns the node of weight 100.
\<close>

theorem SkipListBest_inexact_not_closest:
  "skl ex_list 8 [16, 24] \<and> SkipListBest ex_list 8 10 False = Some 24 \<and>
   weight_diff (wt ex_list 16) 10 < weight_diff (wt ex_list 24) 10"
proof (intro conjI)
  show "skl ex_list 8 [16, 24]" by (rule ex_list_skl)
  show "SkipListBest ex_list 8 10 False = Some 24" by code_simp
  show "weight_diff (wt ex_list 16) 10 < weight_diff (wt ex_list 24) 10"
    by (simp add: ex_list_fields weight_diff_def)
qed

end
