(* ===== verification/Memory_Range.thy ===== *)
theory Memory_Range
  imports Architecture Pseudo_Random Skip_List
begin

text \<open>
  The page-range allocator of \<open>kernel/memman/MemoryRange.c\<close>. A free range of pages is described by
  a \<open>MemoryRange\<close> and two skip-list nodes that live at the start of the range itself; one node is in
  the list ordered by address, the other in one of three lists ordered by size. The state holds the
  skip-list nodes, the \<open>MemoryRange\<close> objects and the seed of the random generator; a fault is
  \<^const>\<open>None\<close>. The abstract specification is a list of pairs (begin, pages) ordered by address.
\<close>

section \<open>State\<close>

record MemoryRange =
  SizeNode :: ptr
  AddrNode :: ptr
  Pages :: u64
  Begin :: u64

record mm_state =
  sls :: sl_heap
  mrs :: "ptr \<rightharpoonup> MemoryRange"
  rnd :: Seed

definition MEMRANGE_ADDR_P :: real where
  "MEMRANGE_ADDR_P = 1 / 2"

definition MEMRANGE_SIZE_P :: real where
  "MEMRANGE_SIZE_P = 1 / 4"

text \<open>
  The four sentinels are embedded in \<open>MemoryInfo\<close> after its two pool pointers; a \<open>SkipList\<close> takes
  128 bytes, a \<open>MemoryRange\<close> 32.
\<close>

definition sizeof_MemoryRange :: u64 where
  "sizeof_MemoryRange = 32"

definition sizeof_SkipList :: u64 where
  "sizeof_SkipList = 128"

definition info_Unaligned2M :: "ptr \<Rightarrow> ptr" where
  "info_Unaligned2M info = info + 16"

definition info_Aligned2MBig :: "ptr \<Rightarrow> ptr" where
  "info_Aligned2MBig info = info + 16 + sizeof_SkipList"

definition info_Aligned2M :: "ptr \<Rightarrow> ptr" where
  "info_Aligned2M info = info + 16 + 2 * sizeof_SkipList"

definition info_Addr :: "ptr \<Rightarrow> ptr" where
  "info_Addr info = info + 16 + 3 * sizeof_SkipList"

definition get_range :: "mm_state \<Rightarrow> ptr \<Rightarrow> MemoryRange option" where
  "get_range st rng = (if rng = NULL then None else mrs st rng)"

section \<open>The operations of MemoryRange.c\<close>

text \<open>\<open>while( Random() < p && level < maxLevel ) ++level;\<close>: the generator runs first each time.\<close>

function RandomMemoryRangeHeight_loop :: "real \<Rightarrow> nat \<Rightarrow> nat \<Rightarrow> Seed \<Rightarrow> nat \<times> Seed" where
  "RandomMemoryRangeHeight_loop p maxLevel level s =
     (let (s', r) = Random s
      in if r < p \<and> level < maxLevel then RandomMemoryRangeHeight_loop p maxLevel (Suc level) s'
         else (level, s'))"
  by pat_completeness auto
termination
  by (relation "measure (\<lambda>(p, maxLevel, level, s). maxLevel - level)") auto

declare RandomMemoryRangeHeight_loop.simps [simp del]

definition RandomMemoryRangeHeight :: "real \<Rightarrow> nat \<Rightarrow> Seed \<Rightarrow> nat \<times> Seed" where
  "RandomMemoryRangeHeight p maxLevel s = RandomMemoryRangeHeight_loop p maxLevel 1 s"

definition MemoryRangeToSentinel :: "mm_state \<Rightarrow> ptr \<Rightarrow> ptr \<Rightarrow> ptr option" where
  "MemoryRangeToSentinel st info rng =
     (if rng = NULL then Some NULL
      else do {
        r \<leftarrow> get_range st rng;
        if mod_HUGEPAGE_SIZE (Begin r) \<noteq> 0 then Some (info_Unaligned2M info)
        else if Pages r \<ge> PAGES_PER_HUGEPAGE then Some (info_Aligned2MBig info)
        else Some (info_Aligned2M info) })"

definition SetMemoryRangeBegin :: "mm_state \<Rightarrow> ptr \<Rightarrow> ptr \<Rightarrow> u64 \<Rightarrow> mm_state option" where
  "SetMemoryRangeBegin st info rng begin' = do {
     r \<leftarrow> get_range st rng;
     let st1 = st\<lparr>mrs := (mrs st)(rng \<mapsto> r\<lparr>Begin := begin'\<rparr>)\<rparr>;
     h1 \<leftarrow> SetSkipListWeight (sls st1) (AddrNode r) begin';
     h2 \<leftarrow> SkipListRemove h1 (AddrNode r);
     let (height, seed') = RandomMemoryRangeHeight MEMRANGE_ADDR_P SKIPLIST_MAX_LEVELS (rnd st1);
     h3 \<leftarrow> SkipListInsert h2 (info_Addr info) (AddrNode r) height;
     Some (st1\<lparr>sls := h3, rnd := seed'\<rparr>) }"

definition SetMemoryRangePages :: "mm_state \<Rightarrow> ptr \<Rightarrow> ptr \<Rightarrow> u64 \<Rightarrow> mm_state option" where
  "SetMemoryRangePages st info rng pages = do {
     r \<leftarrow> get_range st rng;
     let st1 = st\<lparr>mrs := (mrs st)(rng \<mapsto> r\<lparr>Pages := pages\<rparr>)\<rparr>;
     h1 \<leftarrow> SetSkipListWeight (sls st1) (SizeNode r) pages;
     h2 \<leftarrow> SkipListRemove h1 (SizeNode r);
     sentinel \<leftarrow> MemoryRangeToSentinel st1 info rng;
     let (height, seed') = RandomMemoryRangeHeight MEMRANGE_SIZE_P SKIPLIST_MAX_LEVELS (rnd st1);
     h3 \<leftarrow> SkipListInsert h2 sentinel (SizeNode r) height;
     Some (st1\<lparr>sls := h3, rnd := seed'\<rparr>) }"

definition MemoryRangeRemove :: "mm_state \<Rightarrow> ptr \<Rightarrow> ptr \<Rightarrow> mm_state option" where
  "MemoryRangeRemove st info rng = do {
     r \<leftarrow> get_range st rng;
     h1 \<leftarrow> SkipListRemove (sls st) (AddrNode r);
     h2 \<leftarrow> SkipListRemove h1 (SizeNode r);
     Some (st\<lparr>sls := h2\<rparr>) }"

definition TryMergeMemoryRangesWithPrev :: "mm_state \<Rightarrow> ptr \<Rightarrow> ptr \<Rightarrow> mm_state option" where
  "TryMergeMemoryRangesWithPrev st info rng =
     (if rng = NULL then Some st
      else do {
        r \<leftarrow> get_range st rng;
        prev_node \<leftarrow> SkipListPrev (sls st) (AddrNode r);
        prev \<leftarrow> SkipListPayload (sls st) prev_node;
        if prev = NULL then Some st
        else do {
          p \<leftarrow> get_range st prev;
          if Begin p + Pages p * PAGE_SIZE \<noteq> Begin r then Some st
          else do {
            let prevAligned = (mod_HUGEPAGE_SIZE (Begin p) = 0);
            let rangeAligned = (mod_HUGEPAGE_SIZE (Begin r) = 0);
            if \<not> prevAligned \<and> rangeAligned then Some st
            else do {
              st1 \<leftarrow> SetMemoryRangePages st info prev (Pages p + Pages r);
              MemoryRangeRemove st1 info rng } } } })"

definition NewMemoryRange :: "mm_state \<Rightarrow> ptr \<Rightarrow> u64 \<Rightarrow> u64 \<Rightarrow> mm_state option" where
  "NewMemoryRange st info begin' pages = do {
     let rng = begin';
     let sizeList = begin' + sizeof_MemoryRange;
     let addrList = sizeList + sizeof_SkipList;
     h1 \<leftarrow> SkipListInitNode (sls st) addrList rng;
     h2 \<leftarrow> SkipListInitNode h1 sizeList rng;
     if rng = NULL then None
     else do {
       let st1 = st\<lparr>sls := h2,
         mrs := (mrs st)(rng \<mapsto> \<lparr>SizeNode = sizeList, AddrNode = addrList, Pages = 0, Begin = 0\<rparr>)\<rparr>;
       st2 \<leftarrow> SetMemoryRangeBegin st1 info rng begin';
       st3 \<leftarrow> SetMemoryRangePages st2 info rng pages;
       r \<leftarrow> get_range st3 rng;
       next_node \<leftarrow> SkipListNext (sls st3) (AddrNode r);
       next \<leftarrow> SkipListPayload (sls st3) next_node;
       st4 \<leftarrow> TryMergeMemoryRangesWithPrev st3 info next;
       TryMergeMemoryRangesWithPrev st4 info rng } }"

definition InsertNewMemoryRange :: "mm_state \<Rightarrow> ptr \<Rightarrow> u64 \<Rightarrow> u64 \<Rightarrow> mm_state option" where
  "InsertNewMemoryRange st info begin' pages =
     (if pages = 0 then Some st
      else let pagesToSplit = (HUGEPAGE_SIZE - mod_HUGEPAGE_SIZE begin') div PAGE_SIZE
      in if pagesToSplit mod PAGES_PER_HUGEPAGE \<noteq> 0 \<and> pagesToSplit < pages
         then do {
           st1 \<leftarrow> NewMemoryRange st info begin' pagesToSplit;
           NewMemoryRange st1 info (begin' + pagesToSplit * PAGE_SIZE) (pages - pagesToSplit) }
         else NewMemoryRange st info begin' pages)"

text \<open>
  The two out-parameters are returned with the result: \<open>(state, returned, *pages, *begin)\<close>;
  \<open>begin0\<close> is what \<open>*begin\<close> held before the call.
\<close>

definition AllocatePagesFromList ::
    "mm_state \<Rightarrow> ptr \<Rightarrow> ptr \<Rightarrow> u64 \<Rightarrow> u64 \<Rightarrow> bool \<Rightarrow> (mm_state \<times> bool \<times> u64 \<times> u64) option" where
  "AllocatePagesFromList st info sentinel begin0 pagesNeed exact = do {
     best \<leftarrow> SkipListBest (sls st) sentinel pagesNeed exact;
     if best = NULL then Some (st, False, 0, begin0)
     else do {
       weight \<leftarrow> get_weight (sls st) best;
       let pages = min weight pagesNeed;
       rng \<leftarrow> get_payload (sls st) best;
       r \<leftarrow> get_range st rng;
       let allocBegin = Begin r + (weight - pages) * PAGE_SIZE;
       if weight = pagesNeed
       then do { st1 \<leftarrow> MemoryRangeRemove st info rng; Some (st1, True, pages, allocBegin) }
       else do {
         st1 \<leftarrow> SetMemoryRangePages st info rng (Pages r - pages);
         Some (st1, True, pages, allocBegin) } } }"

definition AllocatePages ::
    "mm_state \<Rightarrow> ptr \<Rightarrow> u64 \<Rightarrow> u64 \<Rightarrow> bool \<Rightarrow> (mm_state \<times> bool \<times> u64 \<times> u64) option" where
  "AllocatePages st info begin0 pagesNeed exact = do {
     (st1, ok1, pages1, begin1) \<leftarrow>
       (if pagesNeed < PAGES_PER_HUGEPAGE
        then AllocatePagesFromList st info (info_Unaligned2M info) begin0 pagesNeed exact
        else Some (st, False, 0, begin0));
     if ok1 then Some (st1, True, pages1, begin1)
     else do {
       (st2, ok2, pages2, begin2) \<leftarrow>
         (if pagesNeed < PAGES_PER_HUGEPAGE
          then AllocatePagesFromList st1 info (info_Aligned2M info) begin1 pagesNeed exact
          else Some (st1, False, 0, begin1));
       if ok2 then Some (st2, True, pages2, begin2)
       else AllocatePagesFromList st2 info (info_Aligned2MBig info) begin2 pagesNeed exact } }"


section \<open>Random heights\<close>

lemma RandomMemoryRangeHeight_loop_bounds:
  "level \<le> fst (RandomMemoryRangeHeight_loop p maxLevel level s) \<and>
   fst (RandomMemoryRangeHeight_loop p maxLevel level s) \<le> max level maxLevel"
proof (induction p maxLevel level s rule: RandomMemoryRangeHeight_loop.induct)
  case (1 p maxLevel level s)
  obtain s' r where r: "Random s = (s', r)" by (cases "Random s")
  show ?case
  proof (cases "r < p \<and> level < maxLevel")
    case True
    with "1.IH" [OF r [symmetric] refl True] show ?thesis
      by (subst (1 2) RandomMemoryRangeHeight_loop.simps) (auto simp: r)
  next
    case False
    then show ?thesis by (subst (1 2) RandomMemoryRangeHeight_loop.simps) (auto simp: r)
  qed
qed

lemma RandomMemoryRangeHeight_pos: "0 < fst (RandomMemoryRangeHeight p maxLevel s)"
  using RandomMemoryRangeHeight_loop_bounds [of 1 p maxLevel s]
  by (simp add: RandomMemoryRangeHeight_def)

section \<open>The representation invariant\<close>

definition size_node :: "ptr \<Rightarrow> ptr" where
  "size_node b = b + sizeof_MemoryRange"

definition addr_node :: "ptr \<Rightarrow> ptr" where
  "addr_node b = size_node b + sizeof_SkipList"

definition size_sentinel :: "ptr \<Rightarrow> u64 \<Rightarrow> u64 \<Rightarrow> ptr" where
  "size_sentinel info b p =
     (if mod_HUGEPAGE_SIZE b \<noteq> 0 then info_Unaligned2M info
      else if p \<ge> PAGES_PER_HUGEPAGE then info_Aligned2MBig info else info_Aligned2M info)"

definition size_sentinels :: "ptr \<Rightarrow> ptr set" where
  "size_sentinels info = {info_Unaligned2M info, info_Aligned2MBig info, info_Aligned2M info}"

definition sentinels :: "ptr \<Rightarrow> ptr set" where
  "sentinels info = insert (info_Addr info) (size_sentinels info)"

definition pg :: "mm_state \<Rightarrow> ptr \<Rightarrow> u64" where
  "pg st b = (case mrs st b of Some r \<Rightarrow> Pages r | None \<Rightarrow> 0)"

text \<open>A range object is coherent with its two nodes.\<close>

definition range_ok :: "mm_state \<Rightarrow> ptr \<Rightarrow> bool" where
  "range_ok st b \<longleftrightarrow> b \<noteq> NULL \<and> b mod PAGE_SIZE = 0 \<and>
     mrs st b = Some \<lparr>SizeNode = size_node b, AddrNode = addr_node b, Pages = pg st b, Begin = b\<rparr> \<and>
     wt (sls st) (addr_node b) = b \<and> wt (sls st) (size_node b) = pg st b \<and>
     pl (sls st) (addr_node b) = b \<and> pl (sls st) (size_node b) = b"

text \<open>
  \<open>mm_lists st info L bs\<close>: the ranges that begin at \<open>bs\<close> are exactly those in the address list, in
  its order, and each is in the size list its alignment and size select.
\<close>

definition mm_lists :: "mm_state \<Rightarrow> ptr \<Rightarrow> (ptr \<Rightarrow> ptr list) \<Rightarrow> ptr list \<Rightarrow> bool" where
  "mm_lists st info L bs \<longleftrightarrow>
     list_family (skl (sls st)) (sentinels info) L \<and>
     L (info_Addr info) = map addr_node bs \<and>
     (\<forall>t\<in>size_sentinels info. set (L t) = size_node ` {b \<in> set bs. size_sentinel info b (pg st b) = t}) \<and>
     (\<forall>b\<in>set bs. range_ok st b)"

lemmas layout_defs = sizeof_MemoryRange_def sizeof_SkipList_def size_node_def addr_node_def
  info_Unaligned2M_def info_Aligned2MBig_def info_Aligned2M_def info_Addr_def

lemma node_inj [simp]:
  "size_node a = size_node b \<longleftrightarrow> a = b" "addr_node a = addr_node b \<longleftrightarrow> a = b"
  by (simp_all add: layout_defs)

lemma page_offset_nonzero:
  assumes "(a::u64) mod 4096 = 0" "b = a + d" "d mod 4096 \<noteq> 0"
  shows "b mod 4096 \<noteq> 0"
proof -
  have t: "x mod 4096 = take_bit 12 x" for x :: u64 by (simp add: take_bit_eq_mod)
  have "take_bit 12 b = take_bit 12 (take_bit 12 a + take_bit 12 d)"
    unfolding assms(2) by transfer (simp add: take_bit_add take_bit_take_bit min_def)
  also have "\<dots> = take_bit 12 d" using assms(1) by (simp add: t)
  finally show ?thesis using assms(3) by (simp add: t)
qed

lemma size_node_neq_addr_node:
  assumes "a mod PAGE_SIZE = 0" "b mod PAGE_SIZE = 0"
  shows "size_node a \<noteq> addr_node b"
proof
  assume "size_node a = addr_node b"
  then have "a = b + 128" by (simp add: layout_defs)
  then have "a mod 4096 \<noteq> 0"
    by (rule page_offset_nonzero [of b, rotated]) (use assms in \<open>simp_all add: arch_consts\<close>)
  with assms(1) show False by (simp add: arch_consts)
qed

lemma sentinel_simps [simp]:
  "info_Addr info \<notin> size_sentinels info" "size_sentinel info b p \<in> size_sentinels info"
  "size_sentinel info b p \<noteq> info_Addr info"
  "t \<in> size_sentinels info \<Longrightarrow> t \<in> sentinels info" "info_Addr info \<in> sentinels info"
  by (auto simp: size_sentinels_def size_sentinel_def sentinels_def layout_defs)

lemma mm_listsD:
  assumes "mm_lists st info L bs"
  shows "list_family (skl (sls st)) (sentinels info) L" "L (info_Addr info) = map addr_node bs"
    "t \<in> size_sentinels info \<Longrightarrow> set (L t) = size_node ` {b \<in> set bs. size_sentinel info b (pg st b) = t}"
    "b \<in> set bs \<Longrightarrow> range_ok st b" "t \<in> sentinels info \<Longrightarrow> skl (sls st) t (L t)"
  using assms by (auto simp: mm_lists_def list_family_def)

lemma range_okD:
  assumes "range_ok st b"
  shows "get_range st b = Some \<lparr>SizeNode = size_node b, AddrNode = addr_node b, Pages = pg st b, Begin = b\<rparr>"
    "b \<noteq> NULL" "b mod PAGE_SIZE = 0" "wt (sls st) (addr_node b) = b" "wt (sls st) (size_node b) = pg st b"
    "pl (sls st) (addr_node b) = b" "pl (sls st) (size_node b) = b"
  using assms by (auto simp: range_ok_def get_range_def)

text \<open>The address list is sorted by the addresses themselves.\<close>

lemma mm_lists_sorted:
  assumes "mm_lists st info L bs"
  shows "sorted bs" "distinct bs"
proof -
  have k: "skl (sls st) (info_Addr info) (map addr_node bs)"
    using mm_listsD(2,5) [OF assms] by (metis sentinel_simps(5))
  have "map (wt (sls st)) (map addr_node bs) = bs"
    using mm_listsD(4) [OF assms] by (simp add: map_idI range_okD(4))
  with k show "sorted bs" by (simp add: skl_def del: map_map)
  show "distinct bs" using k by (simp add: skl_def linked_def distinct_map)
qed

lemma range_ok_frame:
  assumes "range_ok st b" "mrs st' b = mrs st b"
    "wt (sls st') (addr_node b) = wt (sls st) (addr_node b)" "wt (sls st') (size_node b) = wt (sls st) (size_node b)"
    "pl (sls st') = pl (sls st)"
  shows "range_ok st' b"
  using assms by (simp add: range_ok_def pg_def)

section \<open>Changing the size of a range\<close>

lemma MemoryRangeToSentinel_eq:
  "get_range st b = Some r \<Longrightarrow> MemoryRangeToSentinel st info b = Some (size_sentinel info (Begin r) (Pages r))"
  by (auto simp: MemoryRangeToSentinel_def get_range_def size_sentinel_def split: if_splits)

text \<open>Moving a size node between the lists keeps the classification of the nodes.\<close>

lemma size_lists_move:
  assumes sets: "\<And>u. u \<in> size_sentinels info \<Longrightarrow> set (L u) = size_node ` {b \<in> set bs. size_sentinel info b (f b) = u}"
    and dist: "\<And>u. u \<in> size_sentinels info \<Longrightarrow> distinct (L u)"
    and b: "b \<in> set bs" and s: "s = size_sentinel info b (f b)" and t: "t = size_sentinel info b p"
    and L1: "L1 = L(s := remove1 (size_node b) (L s))"
    and L': "L' = L1(t := insort_key key (size_node b) (L1 t))" and u: "u \<in> size_sentinels info"
  shows "set (L' u) = size_node ` {c \<in> set bs. size_sentinel info c ((f(b := p)) c) = u}"
proof -
  have "set (L1 v) = size_node ` {c \<in> set bs. c \<noteq> b \<and> size_sentinel info c (f c) = v}"
    if "v \<in> size_sentinels info" for v
    using sets [OF that] dist [OF that] b s by (auto simp: L1 set_remove1_eq)
  then show ?thesis
    using b t u by (auto simp: L' set_insort_key)
qed

lemma SetMemoryRangePages_ok:
  assumes inv: "mm_lists st info L bs" and b: "b \<in> set bs"
  shows "\<exists>st' L'. SetMemoryRangePages st info b p = Some st' \<and> mm_lists st' info L' bs \<and>
    pg st' = (pg st)(b := p)"
proof -
  note ok = mm_listsD(4) [OF inv b]
  define x where "x = size_node b"
  define s where "s = size_sentinel info b (pg st b)"
  define t where "t = size_sentinel info b p"
  define k where "k = fst (RandomMemoryRangeHeight MEMRANGE_SIZE_P SKIPLIST_MAX_LEVELS (rnd st))"
  define r where "r = \<lparr>SizeNode = size_node b, AddrNode = addr_node b, Pages = p, Begin = b\<rparr>"
  have s: "s \<in> sentinels info" "x \<in> set (L s)" and t: "t \<in> sentinels info" and k: "0 < k"
    using mm_listsD(3) [OF inv, of s] b RandomMemoryRangeHeight_pos
    by (auto simp: s_def t_def x_def k_def)
  define L1 where "L1 = L(s := remove1 x (L s))"
  define L' where "L' = L1(t := insort_key ((wt (sls st))(x := p)) x (L1 t))"
  from sl.family_move [OF mm_listsD(1) [OF inv] s t k, of p]
  obtain h1 h2 h' where run: "SetSkipListWeight (sls st) x p = Some h1" "SkipListRemove h1 x = Some h2"
      "SkipListInsert h2 t x k = Some h'"
    and fam: "list_family (skl h') (sentinels info) L'"
    and w: "wt h' = (wt (sls st))(x := p)" and pl: "pl h' = pl (sls st)"
    unfolding L'_def L1_def Let_def by blast
  define st1 where "st1 = st\<lparr>mrs := (mrs st)(b \<mapsto> r)\<rparr>"
  define st' where "st' = st1\<lparr>sls := h', rnd := snd (RandomMemoryRangeHeight MEMRANGE_SIZE_P SKIPLIST_MAX_LEVELS (rnd st))\<rparr>"
  have "MemoryRangeToSentinel st1 info b = Some t"
    using MemoryRangeToSentinel_eq [of st1 b r info] range_okD(2) [OF ok]
    by (simp add: st1_def get_range_def r_def t_def)
  then have eq: "SetMemoryRangePages st info b p = Some st'"
    using run range_okD(1) [OF ok]
    by (simp add: SetMemoryRangePages_def x_def st1_def st'_def k_def r_def Let_def split_beta)
  have pg: "pg st' = (pg st)(b := p)"
    by (auto simp: st'_def st1_def pg_def r_def fun_eq_iff)
  have "range_ok st' c" if "c \<in> set bs" for c
    using mm_listsD(4) [OF inv that] ok w pl pg size_node_neq_addr_node [of b c]
    by (auto simp: range_ok_def st'_def st1_def r_def x_def)
  moreover have "set (L' u) = size_node ` {c \<in> set bs. size_sentinel info c (pg st' c) = u}"
    if "u \<in> size_sentinels info" for u
    unfolding pg
    by (rule size_lists_move [OF mm_listsD(3) [OF inv] _ b s_def t_def L1_def [unfolded x_def]
          L'_def [unfolded x_def] that])
      (use mm_listsD(5) [OF inv] in \<open>auto simp: skl_def linked_def\<close>)
  moreover have "L' (info_Addr info) = map addr_node bs"
    using mm_listsD(2) [OF inv] sentinel_simps(3) [symmetric]
    by (simp add: L'_def L1_def s_def t_def)
  ultimately have "mm_lists st' info L' bs"
    using fam by (simp add: mm_lists_def st'_def)
  with eq pg show ?thesis by blast
qed


section \<open>Removing a range\<close>

lemma map_remove1_inj: "inj f \<Longrightarrow> remove1 (f x) (map f xs) = map f (remove1 x xs)"
  by (induction xs) (auto simp: inj_eq)

lemma MemoryRangeRemove_ok:
  assumes inv: "mm_lists st info L bs" and b: "b \<in> set bs"
  shows "\<exists>st' L'. MemoryRangeRemove st info b = Some st' \<and> mm_lists st' info L' (remove1 b bs) \<and>
    mrs st' = mrs st"
proof -
  note ok = mm_listsD(4) [OF inv b]
  define s where "s = size_sentinel info b (pg st b)"
  define L1 where "L1 = L(info_Addr info := remove1 (addr_node b) (L (info_Addr info)))"
  have "addr_node b \<in> set (L (info_Addr info))" using mm_listsD(2) [OF inv] b by simp
  from sl.family_remove [OF mm_listsD(1) [OF inv] sentinel_simps(5) this]
  obtain h1 where h1: "SkipListRemove (sls st) (addr_node b) = Some h1"
    "list_family (skl h1) (sentinels info) L1" "wt h1 = wt (sls st)" "pl h1 = pl (sls st)"
    unfolding L1_def by blast
  have s: "s \<in> size_sentinels info" "L1 s = L s" by (simp_all add: s_def L1_def)
  have xs: "size_node b \<in> set (L s)" using mm_listsD(3) [OF inv s(1)] b by (auto simp: s_def)
  define L' where "L' = L1(s := remove1 (size_node b) (L s))"
  from sl.family_remove [OF h1(2), of s "size_node b"] s xs
  obtain h' where h': "SkipListRemove h1 (size_node b) = Some h'"
    "list_family (skl h') (sentinels info) L'" "wt h' = wt h1" "pl h' = pl h1"
    unfolding L'_def by auto
  define st' where "st' = st\<lparr>sls := h'\<rparr>"
  have run: "MemoryRangeRemove st info b = Some st'"
    using range_okD(1) [OF ok] h1 h' by (simp add: MemoryRangeRemove_def st'_def)
  have d: "distinct bs" using mm_lists_sorted [OF inv] by simp
  have "range_ok st' c" if "c \<in> set bs" for c
    by (rule range_ok_frame [OF mm_listsD(4) [OF inv that]]) (simp_all add: st'_def h1 h')
  moreover have "set (L' u) = size_node ` {c \<in> set (remove1 b bs). size_sentinel info c (pg st' c) = u}"
    if u: "u \<in> size_sentinels info" for u
  proof -
    have "distinct (L u)" using mm_listsD(5) [OF inv] u by (auto simp: skl_def linked_def)
    moreover have "u \<noteq> info_Addr info" using u by auto
    ultimately show ?thesis
      using mm_listsD(3) [OF inv u] d by (auto simp: L'_def L1_def s_def pg_def st'_def set_remove1_eq)
  qed
  moreover have "L' (info_Addr info) = map addr_node (remove1 b bs)"
    using mm_listsD(2) [OF inv] s(1) by (auto simp: L'_def L1_def map_remove1_inj inj_def)
  ultimately have "mm_lists st' info L' (remove1 b bs)"
    using h'(2) by (auto simp: mm_lists_def st'_def dest: in_remove1D)
  with run show ?thesis by (auto simp: st'_def)
qed

section \<open>The abstract allocator\<close>

text \<open>
  The abstract state: the free ranges as pairs (begin, pages), by increasing begin. \<open>mm_rep\<close> is the
  abstraction relation.
\<close>

type_synonym ranges = "(u64 \<times> u64) list"

definition mm_rep :: "mm_state \<Rightarrow> ptr \<Rightarrow> ranges \<Rightarrow> bool" where
  "mm_rep st info rs \<longleftrightarrow> (\<exists>L. mm_lists st info L (map fst rs)) \<and> (\<forall>(b, p)\<in>set rs. pg st b = p)"

definition set_pages :: "u64 \<Rightarrow> u64 \<Rightarrow> ranges \<Rightarrow> ranges" where
  "set_pages b p rs = map (\<lambda>(c, q). (c, if c = b then p else q)) rs"

definition drop_range :: "u64 \<Rightarrow> ranges \<Rightarrow> ranges" where
  "drop_range b rs = filter (\<lambda>(c, q). c \<noteq> b) rs"

definition mergeable :: "u64 \<Rightarrow> u64 \<Rightarrow> u64 \<Rightarrow> bool" where
  "mergeable a p b \<longleftrightarrow> a + p * PAGE_SIZE = b \<and> \<not> (mod_HUGEPAGE_SIZE a \<noteq> 0 \<and> mod_HUGEPAGE_SIZE b = 0)"

fun try_merge :: "u64 \<Rightarrow> ranges \<Rightarrow> ranges" where
  "try_merge b ((a, p) # (c, q) # rs) =
     (if c = b then if mergeable a p b then (a, p + q) # rs else (a, p) # (c, q) # rs
      else (a, p) # try_merge b ((c, q) # rs))"
| "try_merge b rs = rs"

fun next_begin :: "u64 \<Rightarrow> ranges \<Rightarrow> u64 option" where
  "next_begin b [] = None"
| "next_begin b ((a, p) # rs) = (if a = b then (case rs of [] \<Rightarrow> None | (c, q) # _ \<Rightarrow> Some c) else next_begin b rs)"

definition new_range :: "u64 \<Rightarrow> u64 \<Rightarrow> ranges \<Rightarrow> ranges" where
  "new_range b p rs =
     (let rs1 = insort_key fst (b, p) rs;
          rs2 = (case next_begin b rs1 of None \<Rightarrow> rs1 | Some n \<Rightarrow> try_merge n rs1)
      in try_merge b rs2)"

lemma map_fst_set_pages [simp]: "map fst (set_pages b p rs) = map fst rs"
  by (induction rs) (auto simp: set_pages_def)

lemma map_fst_drop_range: "distinct (map fst rs) \<Longrightarrow> map fst (drop_range b rs) = remove1 b (map fst rs)"
  by (induction rs) (auto simp: drop_range_def remove1_idem)

lemma mm_rep_distinct: "mm_rep st info rs \<Longrightarrow> distinct (map fst rs)"
  and mm_rep_sorted: "mm_rep st info rs \<Longrightarrow> sorted (map fst rs)"
  using mm_lists_sorted by (auto simp: mm_rep_def)

lemma mm_rep_range_ok:
  assumes "mm_rep st info rs" "(b, p) \<in> set rs"
  shows "range_ok st b" "pg st b = p"
  using assms mm_listsD(4) by (force simp: mm_rep_def)+

lemma SetMemoryRangePages_rep:
  assumes "mm_rep st info rs" "b \<in> fst ` set rs"
  shows "\<exists>st'. SetMemoryRangePages st info b p = Some st' \<and> mm_rep st' info (set_pages b p rs)"
proof -
  obtain L where "mm_lists st info L (map fst rs)" using assms(1) by (auto simp: mm_rep_def)
  from SetMemoryRangePages_ok [OF this, of b p] assms(2)
  obtain st' L' where "SetMemoryRangePages st info b p = Some st'" "mm_lists st' info L' (map fst rs)"
    and pg: "pg st' = (pg st)(b := p)" by auto
  moreover have "\<forall>(c, q)\<in>set (set_pages b p rs). pg st' c = q"
    using assms(1) by (auto simp: set_pages_def pg mm_rep_def)
  ultimately show ?thesis by (metis mm_rep_def map_fst_set_pages)
qed

lemma MemoryRangeRemove_rep:
  assumes "mm_rep st info rs" "b \<in> fst ` set rs"
  shows "\<exists>st'. MemoryRangeRemove st info b = Some st' \<and> mm_rep st' info (drop_range b rs)"
proof -
  obtain L where "mm_lists st info L (map fst rs)" using assms(1) by (auto simp: mm_rep_def)
  from MemoryRangeRemove_ok [OF this, of b] assms(2)
  obtain st' L' where "MemoryRangeRemove st info b = Some st'"
    "mm_lists st' info L' (remove1 b (map fst rs))" and m: "mrs st' = mrs st" by auto
  moreover have "\<forall>(c, q)\<in>set (drop_range b rs). pg st' c = q"
    using assms(1) m by (auto simp: drop_range_def pg_def mm_rep_def)
  ultimately show ?thesis
    using map_fst_drop_range [OF mm_rep_distinct [OF assms(1)], of b] by (metis mm_rep_def)
qed


section \<open>Merging\<close>

lemma try_merge_head: "b \<notin> fst ` set rs \<Longrightarrow> try_merge b ((a, p) # rs) = (a, p) # rs"
  by (induction b "(a, p) # rs" arbitrary: a p rs rule: try_merge.induct) auto

lemma try_merge_split:
  "b \<notin> fst ` set (as @ [(a, p)]) \<Longrightarrow> try_merge b (as @ (a, p) # (b, q) # cs) =
     as @ (if mergeable a p b then (a, p + q) # cs else (a, p) # (b, q) # cs)"
proof (induction as)
  case (Cons x as)
  obtain c r where x: "x = (c, r)" by (cases x)
  obtain y ys where y: "as @ (a, p) # (b, q) # cs = y # ys" "fst y \<noteq> b"
    using Cons.prems by (cases as) auto
  with Cons x show ?case by (cases y) auto
qed simp

text \<open>The predecessor of a range in the address list.\<close>

lemma mm_rep_prev:
  assumes rep: "mm_rep st info rs" and rs: "rs = as @ (b, q) # cs"
  shows "\<exists>n. SkipListPrev (sls st) (addr_node b) = Some n \<and>
    SkipListPayload (sls st) n = Some (if as = [] then NULL else fst (last as))"
proof -
  obtain L where L: "mm_lists st info L (map fst rs)" using rep by (auto simp: mm_rep_def)
  define xs where "xs = map addr_node (map fst as)"
  have "linked (sls st) (info_Addr info) (L (info_Addr info))"
    using mm_listsD(5) [OF L sentinel_simps(5)] by (simp add: skl_def)
  then have lnk: "linked (sls st) (info_Addr info) (xs @ addr_node b # map addr_node (map fst cs))"
    using mm_listsD(2) [OF L] rs by (simp add: xs_def)
  define n where "n = last (info_Addr info # xs)"
  have "n \<in> set (info_Addr info # xs)" unfolding n_def by (rule last_in_set) simp
  then have "node_at (sls st) n" using linkedD(2) [OF lnk, of n] by auto
  moreover have "pl (sls st) n = (if as = [] then NULL else fst (last as))"
  proof (cases "as = []")
    case True
    then show ?thesis using linkedD(6) [OF lnk] by (simp add: n_def xs_def)
  next
    case False
    then have "n = addr_node (fst (last as))" by (simp add: n_def xs_def last_map)
    moreover have "range_ok st (fst (last as))"
      using mm_rep_range_ok(1) [OF rep, of "fst (last as)" "snd (last as)"] False rs by simp
    ultimately show ?thesis using False range_okD(6) by simp
  qed
  ultimately show ?thesis
    using SkipListPrev_ok [OF lnk] SkipListPayload_ok [of "sls st" n] unfolding n_def [symmetric]
    by auto
qed

lemma set_pages_split:
  "a \<notin> fst ` set (as @ cs) \<Longrightarrow> set_pages a p (as @ (a, q) # cs) = as @ (a, p) # cs"
  by (auto simp: set_pages_def intro!: map_idI) force+

lemma drop_range_split:
  "b \<notin> fst ` set (as @ cs) \<Longrightarrow> drop_range b (as @ (b, q) # cs) = as @ cs"
proof -
  assume "b \<notin> fst ` set (as @ cs)"
  then have "filter (\<lambda>(c, q). c \<noteq> b) as = as" "filter (\<lambda>(c, q). c \<noteq> b) cs = cs"
    by (force simp: filter_id_conv)+
  then show ?thesis by (simp add: drop_range_def)
qed

text \<open>A merge: the predecessor takes over the pages, the range goes.\<close>

lemma merge_calls_rep:
  assumes rep: "mm_rep st info rs" and rs: "rs = as' @ (a, p) # (b, q) # cs"
  shows "\<exists>st1 st'. SetMemoryRangePages st info a (p + q) = Some st1 \<and> MemoryRangeRemove st1 info b = Some st' \<and>
    mm_rep st' info (as' @ (a, p + q) # cs)"
proof -
  have d: "distinct (map fst rs)" by (rule mm_rep_distinct [OF rep])
  obtain st1 where st1: "SetMemoryRangePages st info a (p + q) = Some st1" "mm_rep st1 info (set_pages a (p + q) rs)"
    using SetMemoryRangePages_rep [OF rep, of a "p + q"] rs by force
  have "set_pages a (p + q) rs = as' @ (a, p + q) # (b, q) # cs"
    using set_pages_split [of a as' "(b, q) # cs" "p + q" p] d rs by auto
  moreover have "drop_range b (as' @ (a, p + q) # (b, q) # cs) = as' @ (a, p + q) # cs"
    using drop_range_split [of b "as' @ [(a, p + q)]" cs q] d rs by auto
  ultimately show ?thesis using MemoryRangeRemove_rep [OF st1(2), of b] st1(1) by auto
qed

lemma TryMerge_rep:
  assumes rep: "mm_rep st info rs" and b: "b \<in> fst ` set rs"
  shows "\<exists>st'. TryMergeMemoryRangesWithPrev st info b = Some st' \<and> mm_rep st' info (try_merge b rs)"
proof -
  obtain q where q: "(b, q) \<in> set rs" using b by auto
  then obtain as cs where rs: "rs = as @ (b, q) # cs" by (meson split_list)
  have d: "distinct (map fst rs)" by (rule mm_rep_distinct [OF rep])
  note okb = mm_rep_range_ok [OF rep q]
  obtain n where n: "SkipListPrev (sls st) (addr_node b) = Some n"
    "SkipListPayload (sls st) n = Some (if as = [] then NULL else fst (last as))"
    using mm_rep_prev [OF rep rs] by blast
  note run = TryMergeMemoryRangesWithPrev_def range_okD(1,2) [OF okb(1)] n
  show ?thesis
  proof (cases "as = []")
    case True
    have "try_merge b rs = rs" using d rs True by (simp add: try_merge_head)
    with True rep show ?thesis by (simp add: run)
  next
    case False
    then obtain as' a p where as: "as = as' @ [(a, p)]" by (metis append_butlast_last_id surj_pair)
    then have rs': "rs = as' @ (a, p) # (b, q) # cs" using rs by simp
    then have "(a, p) \<in> set rs" by simp
    note oka = mm_rep_range_ok [OF rep this]
    have tm: "try_merge b rs = as' @ (if mergeable a p b then (a, p + q) # cs else (a, p) # (b, q) # cs)"
      using try_merge_split [of b as' a p q cs] d rs as by auto
    show ?thesis
      using merge_calls_rep [OF rep rs'] tm rep rs' range_okD(1,2) [OF oka(1)] oka(2) okb(2) as
      by (cases "mergeable a p b") (auto simp: run mergeable_def Let_def)
  qed
qed


section \<open>Creating a range\<close>

text \<open>
  A place for a new range: page-aligned, not at address 0, and its first 288 bytes, where the object and its
  two nodes are put, share no byte with the 528 bytes of \<open>MemoryInfo\<close>, where the sentinels are.
\<close>

definition header_apart :: "ptr \<Rightarrow> ptr \<Rightarrow> bool" where
  "header_apart info b \<longleftrightarrow> (\<forall>i<288. \<forall>j<528. b + of_nat i \<noteq> info + of_nat j)"

definition fresh_begin :: "ptr \<Rightarrow> ranges \<Rightarrow> u64 \<Rightarrow> bool" where
  "fresh_begin info rs b \<longleftrightarrow> b \<noteq> NULL \<and> b mod PAGE_SIZE = 0 \<and> b \<notin> fst ` set rs \<and> header_apart info b"

lemma header_apart_nodes:
  assumes "header_apart info b"
  shows "size_node b \<notin> sentinels info" "addr_node b \<notin> sentinels info"
proof -
  have apart: "b + of_nat i \<noteq> info + of_nat j" if "i < 288" "j < 528" for i j
    using assms that by (simp add: header_apart_def)
  show "size_node b \<notin> sentinels info"
    using apart [of 32 16] apart [of 32 144] apart [of 32 272] apart [of 32 400]
    by (simp add: sentinels_def size_sentinels_def layout_defs add.assoc)
  show "addr_node b \<notin> sentinels info"
    using apart [of 160 16] apart [of 160 144] apart [of 160 272] apart [of 160 400]
    by (simp add: sentinels_def size_sentinels_def layout_defs add.assoc)
qed

lemma header_apart_behind:
  assumes "unat info + 528 \<le> unat b" "unat b + 288 \<le> 2 ^ 64"
  shows "header_apart info b"
  unfolding header_apart_def
proof (intro allI impI)
  fix i j :: nat assume "i < 288" "j < 528"
  then have "unat (b + of_nat i) = unat b + i" "unat (info + of_nat j) = unat info + j"
    using assms by (simp_all add: unat_word_ariths unat_of_nat take_bit_nat_eq_self)
  then have "unat (b + of_nat i) \<noteq> unat (info + of_nat j)" using assms(1) \<open>j < 528\<close> by linarith
  then show "b + of_nat i \<noteq> info + of_nat j" by auto
qed

lemma node_not_null:
  assumes "b mod PAGE_SIZE = 0"
  shows "size_node b \<noteq> NULL" "addr_node b \<noteq> NULL"
proof -
  have z: "(b + d) mod 4096 \<noteq> 0" if "d mod 4096 \<noteq> 0" for d
    by (rule page_offset_nonzero [OF _ refl that]) (use assms in \<open>simp add: arch_consts\<close>)
  show "size_node b \<noteq> NULL" using z [of 32] by (auto simp: layout_defs)
  show "addr_node b \<noteq> NULL" using z [of 160] by (auto simp: layout_defs add.assoc)
qed

lemma mm_lists_fresh_nodes:
  assumes inv: "mm_lists st info L bs" and b: "b mod PAGE_SIZE = 0" "b \<notin> set bs"
    and s: "size_node b \<notin> sentinels info" "addr_node b \<notin> sentinels info"
  shows "size_node b \<notin> family_nodes (sentinels info) L" "addr_node b \<notin> family_nodes (sentinels info) L"
proof -
  have nodes: "family_nodes (sentinels info) L \<subseteq>
      sentinels info \<union> size_node ` set bs \<union> addr_node ` set bs"
    using mm_listsD(2) [OF inv] mm_listsD(3) [OF inv]
    by (fastforce simp: family_nodes_def sentinels_def)
  have al: "c mod PAGE_SIZE = 0" if "c \<in> set bs" for c
    using range_okD(3) [OF mm_listsD(4) [OF inv that]] .
  have "size_node b \<notin> addr_node ` set bs" "addr_node b \<notin> size_node ` set bs"
    using al b(1) size_node_neq_addr_node by (metis imageE)+
  with nodes b(2) s show "size_node b \<notin> family_nodes (sentinels info) L"
    "addr_node b \<notin> family_nodes (sentinels info) L"
    by auto
qed

lemma SetMemoryRangeBegin_fresh:
  assumes fam: "list_family (skl (sls st)) (sentinels info) L"
    and r: "get_range st b = Some r" "AddrNode r = x"
    and x: "node_at (sls st) x" "hgt (sls st) x = 0" "x \<notin> family_nodes (sentinels info) L"
  shows "\<exists>st'. SetMemoryRangeBegin st info b a = Some st' \<and>
    list_family (skl (sls st')) (sentinels info)
      (L(info_Addr info := insort_key ((wt (sls st))(x := a)) x (L (info_Addr info)))) \<and>
    wt (sls st') = (wt (sls st))(x := a) \<and> pl (sls st') = pl (sls st) \<and>
    node_at (sls st') = node_at (sls st) \<and>
    (\<forall>p. p \<notin> insert x (family_nodes (sentinels info) L) \<longrightarrow> sls st' p = sls st p) \<and>
    mrs st' = (mrs st)(b \<mapsto> r\<lparr>Begin := a\<rparr>)"
  using sl.family_place [OF fam x sentinel_simps(5) RandomMemoryRangeHeight_pos, of a
      MEMRANGE_ADDR_P SKIPLIST_MAX_LEVELS "rnd st"] r
  by (auto simp: SetMemoryRangeBegin_def Let_def split_beta)

lemma SetMemoryRangePages_fresh:
  assumes fam: "list_family (skl (sls st)) (sentinels info) L"
    and r: "get_range st b = Some r" "SizeNode r = x"
    and x: "node_at (sls st) x" "hgt (sls st) x = 0" "x \<notin> family_nodes (sentinels info) L"
    and t: "t = size_sentinel info (Begin r) p"
  shows "\<exists>st'. SetMemoryRangePages st info b p = Some st' \<and>
    list_family (skl (sls st')) (sentinels info) (L(t := insort_key ((wt (sls st))(x := p)) x (L t))) \<and>
    wt (sls st') = (wt (sls st))(x := p) \<and> pl (sls st') = pl (sls st) \<and>
    mrs st' = (mrs st)(b \<mapsto> r\<lparr>Pages := p\<rparr>)"
proof -
  have "MemoryRangeToSentinel (st\<lparr>mrs := (mrs st)(b \<mapsto> r\<lparr>Pages := p\<rparr>)\<rparr>) info b = Some t"
    using MemoryRangeToSentinel_eq [of "st\<lparr>mrs := (mrs st)(b \<mapsto> r\<lparr>Pages := p\<rparr>)\<rparr>" b "r\<lparr>Pages := p\<rparr>" info] r(1) t
    by (auto simp: get_range_def split: if_splits)
  moreover have "t \<in> sentinels info" by (simp add: t)
  ultimately show ?thesis
    using sl.family_place [OF fam x _ RandomMemoryRangeHeight_pos, of t p
      MEMRANGE_SIZE_P SKIPLIST_MAX_LEVELS "rnd st"] r
    by (auto simp: SetMemoryRangePages_def Let_def split_beta)
qed

lemma insort_key_map_addr:
  assumes "\<And>c. c \<in> insert b (set bs) \<Longrightarrow> f (addr_node c) = c"
  shows "insort_key f (addr_node b) (map addr_node bs) = map addr_node (insort b bs)"
  using assms by (induction bs) auto

text \<open>
  The heap with the two nodes of a new range, and the lists after both nodes are placed: the address
  node by its address, the size node by the page count in the list of its size class.
\<close>

definition fresh_heap :: "sl_heap \<Rightarrow> u64 \<Rightarrow> sl_heap" where
  "fresh_heap h b = h(addr_node b \<mapsto> zero_node\<lparr>Payload := b\<rparr>, size_node b \<mapsto> zero_node\<lparr>Payload := b\<rparr>)"

definition placed_lists :: "ptr \<Rightarrow> sl_heap \<Rightarrow> u64 \<Rightarrow> u64 \<Rightarrow> (ptr \<Rightarrow> ptr list) \<Rightarrow> ptr \<Rightarrow> ptr list" where
  "placed_lists info h b p L =
     (let L1 = L(info_Addr info := insort_key ((wt h)(addr_node b := b)) (addr_node b) (L (info_Addr info)));
          t = size_sentinel info b p
      in L1(t := insort_key ((wt h)(addr_node b := b, size_node b := p)) (size_node b) (L1 t)))"

lemma new_nodes_neq:
  assumes "b mod PAGE_SIZE = 0"
  shows "size_node b \<noteq> addr_node b" "size_node b \<noteq> NULL" "addr_node b \<noteq> NULL"
  using size_node_neq_addr_node node_not_null assms by auto

lemma fresh_heap_new:
  assumes "b mod PAGE_SIZE = 0"
  shows "node_at (fresh_heap h b) (addr_node b)" "node_at (fresh_heap h b) (size_node b)"
    "hgt (fresh_heap h b) (addr_node b) = 0" "hgt (fresh_heap h b) (size_node b) = 0"
    "pl (fresh_heap h b) (addr_node b) = b" "pl (fresh_heap h b) (size_node b) = b"
  using new_nodes_neq [OF assms]
  by (simp_all add: fresh_heap_def SkipListInitNode_ok [OF new_nodes_neq(2) [OF assms]] SkipListInitNode_ok [OF new_nodes_neq(3) [OF assms]])

lemma fresh_heap_other:
  assumes "b mod PAGE_SIZE = 0" "q \<noteq> addr_node b" "q \<noteq> size_node b"
  shows "wt (fresh_heap h b) q = wt h q" "pl (fresh_heap h b) q = pl h q"
  using assms new_nodes_neq [OF assms(1)]
  by (simp_all add: fresh_heap_def SkipListInitNode_ok [OF new_nodes_neq(2) [OF assms(1)]] SkipListInitNode_ok [OF new_nodes_neq(3) [OF assms(1)]])

text \<open>The two calls of \<open>NewMemoryRange\<close> that place the nodes.\<close>

lemma new_range_calls:
  assumes inv: "mm_lists st info L bs" and b: "b \<noteq> NULL" "b mod PAGE_SIZE = 0" "b \<notin> set bs"
    and s: "size_node b \<notin> sentinels info" "addr_node b \<notin> sentinels info"
    and st1: "st1 = st\<lparr>sls := fresh_heap (sls st) b, mrs := (mrs st)(b \<mapsto> r)\<rparr>"
    and r: "r = \<lparr>SizeNode = size_node b, AddrNode = addr_node b, Pages = 0, Begin = 0\<rparr>"
  shows "\<exists>st2 st3. SetMemoryRangeBegin st1 info b b = Some st2 \<and> SetMemoryRangePages st2 info b p = Some st3 \<and>
    list_family (skl (sls st3)) (sentinels info) (placed_lists info (sls st1) b p L) \<and>
    wt (sls st3) = (wt (sls st1))(addr_node b := b, size_node b := p) \<and> pl (sls st3) = pl (sls st1) \<and>
    mrs st3 = (mrs st)(b \<mapsto> r\<lparr>Begin := b, Pages := p\<rparr>)"
proof -
  let ?S = "sentinels info" and ?a = "addr_node b" and ?z = "size_node b" and ?h = "fresh_heap (sls st) b"
  note fresh = mm_lists_fresh_nodes [OF inv b(2,3) s] and ne = new_nodes_neq [OF b(2)]
    and h = fresh_heap_new [OF b(2), of "sls st"]
  have fam1: "list_family (skl (sls st1)) ?S L"
    by (rule sl.family_frame [OF mm_listsD(1) [OF inv]]) (use fresh in \<open>auto simp: st1 fresh_heap_def\<close>)
  have g1: "get_range st1 b = Some r" using b(1) by (simp add: get_range_def st1)
  define L1 where "L1 = L(info_Addr info := insort_key ((wt ?h)(?a := b)) ?a (L (info_Addr info)))"
  obtain st2 where st2: "SetMemoryRangeBegin st1 info b b = Some st2" "list_family (skl (sls st2)) ?S L1"
    "wt (sls st2) = (wt ?h)(?a := b)" "pl (sls st2) = pl ?h" "node_at (sls st2) = node_at ?h"
    "mrs st2 = (mrs st1)(b \<mapsto> r\<lparr>Begin := b\<rparr>)"
    and out: "\<And>q. q \<notin> insert ?a (family_nodes ?S L) \<Longrightarrow> sls st2 q = sls st1 q"
    using SetMemoryRangeBegin_fresh [OF fam1 g1, of ?a b] h fresh by (auto simp: r st1 L1_def)
  have z2: "?z \<notin> family_nodes ?S L1"
    using fresh(1) ne(1) by (auto simp: family_nodes_def L1_def set_insort_key split: if_splits)
  have "sls st2 ?z = ?h ?z" using out [of ?z] fresh(1) ne(1) by (simp add: st1)
  then have "hgt (sls st2) ?z = 0" using h(4) by (simp add: hgt_def)
  moreover have "get_range st2 b = Some (r\<lparr>Begin := b\<rparr>)" using b(1) st2(6) by (simp add: get_range_def)
  ultimately show ?thesis
    using SetMemoryRangePages_fresh [OF st2(2), of b "r\<lparr>Begin := b\<rparr>" ?z "size_sentinel info b p" p] z2 h(2) st2
    by (auto simp: r st1 placed_lists_def L1_def Let_def)
qed

lemma placed_lists_sets:
  assumes inv: "mm_lists st info L bs" and b: "b mod PAGE_SIZE = 0" "b \<notin> set bs" and h: "h = fresh_heap (sls st) b"
  shows "placed_lists info h b p L (info_Addr info) = map addr_node (insort b bs)"
    and "u \<in> size_sentinels info \<Longrightarrow> set (placed_lists info h b p L u) =
      size_node ` {c \<in> set (insort b bs). size_sentinel info c (((pg st)(b := p)) c) = u}"
proof -
  have "insort_key ((wt h)(addr_node b := b)) (addr_node b) (map addr_node bs) = map addr_node (insort b bs)"
  proof (rule insort_key_map_addr)
    fix c assume "c \<in> insert b (set bs)"
    then show "((wt h)(addr_node b := b)) (addr_node c) = c"
      using fresh_heap_other(1) [OF b(1), of "addr_node c" "sls st"] size_node_neq_addr_node [OF b(1), of c]
        range_okD(3,4) [OF mm_listsD(4) [OF inv]] by (auto simp: h)
  qed
  then show "placed_lists info h b p L (info_Addr info) = map addr_node (insort b bs)"
    using mm_listsD(2) [OF inv] sentinel_simps(3) [of info b p, symmetric] by (simp add: placed_lists_def Let_def)
  show "set (placed_lists info h b p L u) =
      size_node ` {c \<in> set (insort b bs). size_sentinel info c (((pg st)(b := p)) c) = u}" if u: "u \<in> size_sentinels info"
  proof -
    have "u \<noteq> info_Addr info" using u by auto
    then show ?thesis
      using mm_listsD(3) [OF inv u] b(2) by (auto simp: placed_lists_def Let_def set_insort_key)
  qed
qed

text \<open>The state \<open>NewMemoryRange\<close> reaches before it tries to merge.\<close>

lemma new_range_placed:
  assumes inv: "mm_lists st info L bs" and b: "b \<noteq> NULL" "b mod PAGE_SIZE = 0" "b \<notin> set bs"
    and s: "size_node b \<notin> sentinels info" "addr_node b \<notin> sentinels info"
    and h2: "h2 = (sls st)(addr_node b \<mapsto> zero_node\<lparr>Payload := b\<rparr>, size_node b \<mapsto> zero_node\<lparr>Payload := b\<rparr>)"
    and r: "r = \<lparr>SizeNode = size_node b, AddrNode = addr_node b, Pages = 0, Begin = 0\<rparr>"
  shows "\<exists>st2 st3 L'. SetMemoryRangeBegin (st\<lparr>sls := h2, mrs := (mrs st)(b \<mapsto> r)\<rparr>) info b b = Some st2 \<and>
    SetMemoryRangePages st2 info b p = Some st3 \<and> mm_lists st3 info L' (insort b bs) \<and>
    pg st3 = (pg st)(b := p)"
proof -
  have h: "h2 = fresh_heap (sls st) b" by (simp add: h2 fresh_heap_def)
  obtain st2 st3 where run: "SetMemoryRangeBegin (st\<lparr>sls := h2, mrs := (mrs st)(b \<mapsto> r)\<rparr>) info b b = Some st2"
    "SetMemoryRangePages st2 info b p = Some st3"
    and st3: "list_family (skl (sls st3)) (sentinels info) (placed_lists info h2 b p L)"
    "wt (sls st3) = (wt h2)(addr_node b := b, size_node b := p)" "pl (sls st3) = pl h2"
    "mrs st3 = (mrs st)(b \<mapsto> r\<lparr>Begin := b, Pages := p\<rparr>)"
    using new_range_calls [OF inv b s refl r, of p] unfolding h [symmetric] by auto
  have pg: "pg st3 = (pg st)(b := p)" by (auto simp: pg_def st3(4) fun_eq_iff)
  have "range_ok st3 c" if "c \<in> insert b (set bs)" for c
  proof (cases "c = b")
    case True
    then show ?thesis
      using new_nodes_neq [OF b(2)] b fresh_heap_new [OF b(2), of "sls st"] by (simp add: range_ok_def pg st3 r h)
  next
    case False
    with that have c: "range_ok st c" using mm_listsD(4) [OF inv] by simp
    have "addr_node c \<noteq> size_node b" "size_node c \<noteq> addr_node b"
      using size_node_neq_addr_node range_okD(3) [OF c] b(2) by metis+
    then show ?thesis
      using c False pg by (simp add: range_ok_def st3 h fresh_heap_other [OF b(2)])
  qed
  moreover have "set (placed_lists info h2 b p L u) =
      size_node ` {c \<in> set (insort b bs). size_sentinel info c (pg st3 c) = u}" if "u \<in> size_sentinels info" for u
    unfolding pg by (rule placed_lists_sets(2) [OF inv b(2,3) h that])
  ultimately have "mm_lists st3 info (placed_lists info h2 b p L) (insort b bs)"
    using st3(1) placed_lists_sets(1) [OF inv b(2,3) h] by (simp add: mm_lists_def set_insort_key)
  with run pg show ?thesis by blast
qed

lemma map_fst_insort: "map fst (insort_key fst (b, p) rs) = insort b (map fst rs)"
  by (induction rs) auto

lemma next_begin_split:
  "b \<notin> fst ` set as \<Longrightarrow> next_begin b (as @ (b, p) # cs) = (case cs of [] \<Rightarrow> None | (c, q) # _ \<Rightarrow> Some c)"
  by (induction as) (auto split: list.splits)

lemma next_begin_in: "next_begin b rs = Some n \<Longrightarrow> n \<in> fst ` set rs"
  by (induction rs) (auto split: if_splits list.splits)

lemma try_merge_keeps:
  "b \<noteq> n \<Longrightarrow> b \<in> fst ` set rs \<Longrightarrow> b \<in> fst ` set (try_merge n rs)"
  by (induction n rs rule: try_merge.induct) auto

text \<open>The successor of a range in the address list.\<close>

lemma mm_rep_next:
  assumes rep: "mm_rep st info rs" and b: "b \<in> fst ` set rs"
  shows "\<exists>n. SkipListNext (sls st) (addr_node b) = Some n \<and> SkipListPayload (sls st) n =
    Some (case next_begin b rs of None \<Rightarrow> NULL | Some c \<Rightarrow> c)"
proof -
  obtain q where "(b, q) \<in> set rs" using b by auto
  then obtain as cs where rs: "rs = as @ (b, q) # cs" by (meson split_list)
  obtain L where L: "mm_lists st info L (map fst rs)" using rep by (auto simp: mm_rep_def)
  have "linked (sls st) (info_Addr info) (L (info_Addr info))"
    using mm_listsD(5) [OF L sentinel_simps(5)] by (simp add: skl_def)
  then have lnk: "linked (sls st) (info_Addr info)
      (map addr_node (map fst as) @ addr_node b # map addr_node (map fst cs))"
    using mm_listsD(2) [OF L] rs by simp
  have nb: "next_begin b rs = (case cs of [] \<Rightarrow> None | (c, q) # _ \<Rightarrow> Some c)"
    using mm_rep_distinct [OF rep] rs by (simp add: next_begin_split)
  show ?thesis
  proof (cases cs)
    case Nil
    then show ?thesis using SkipListNext_ok [OF lnk] nb by (simp add: SkipListPayload_def)
  next
    case (Cons x ds)
    obtain c r where x: "x = (c, r)" by (cases x)
    have "(c, r) \<in> set rs" using rs Cons x by simp
    then have "range_ok st c" by (rule mm_rep_range_ok(1) [OF rep])
    moreover have "node_at (sls st) (addr_node c)" using linkedD(2) [OF lnk, of "addr_node c"] Cons x by simp
    ultimately show ?thesis
      using SkipListNext_ok [OF lnk] SkipListPayload_ok [of "sls st" "addr_node c"] range_okD(6) nb Cons x by simp
  qed
qed

text \<open>\<open>NewMemoryRange\<close> implements ordered insertion followed by the two merges.\<close>

text \<open>The merge with the successor, if there is one; the range itself stays.\<close>

definition merge_next :: "u64 \<Rightarrow> ranges \<Rightarrow> ranges" where
  "merge_next b rs = (case next_begin b rs of None \<Rightarrow> rs | Some n \<Rightarrow> try_merge n rs)"

lemma merge_next_rep:
  assumes rep: "mm_rep st info rs"
  shows "\<exists>st'. TryMergeMemoryRangesWithPrev st info (case next_begin b rs of None \<Rightarrow> NULL | Some c \<Rightarrow> c) = Some st' \<and>
    mm_rep st' info (merge_next b rs)"
proof (cases "next_begin b rs")
  case None
  with rep show ?thesis by (simp add: merge_next_def TryMergeMemoryRangesWithPrev_def)
next
  case (Some c)
  with TryMerge_rep [OF rep next_begin_in [OF Some]] show ?thesis by (auto simp: merge_next_def)
qed

lemma merge_next_keeps:
  assumes "distinct (map fst rs)" "b \<in> fst ` set rs"
  shows "b \<in> fst ` set (merge_next b rs)"
proof (cases "next_begin b rs")
  case (Some c)
  obtain as q cs where "rs = as @ (b, q) # cs" using assms(2) by (auto dest: split_list)
  then have "c \<noteq> b" using assms(1) Some by (auto simp: next_begin_split split: list.splits)
  with Some assms(2) show ?thesis by (simp add: merge_next_def try_merge_keeps)
qed (use assms(2) in \<open>simp add: merge_next_def\<close>)

lemma NewMemoryRange_rep:
  assumes rep: "mm_rep st info rs" and b: "fresh_begin info rs b"
  shows "\<exists>st'. NewMemoryRange st info b p = Some st' \<and> mm_rep st' info (new_range b p rs)"
proof -
  define rs1 where "rs1 = insort_key fst (b, p) rs"
  define h2 where "h2 = (sls st)(addr_node b \<mapsto> zero_node\<lparr>Payload := b\<rparr>, size_node b \<mapsto> zero_node\<lparr>Payload := b\<rparr>)"
  define r where "r = \<lparr>SizeNode = size_node b, AddrNode = addr_node b, Pages = 0, Begin = 0\<rparr>"
  have b': "b \<noteq> NULL" "b mod PAGE_SIZE = 0" "b \<notin> set (map fst rs)"
    "size_node b \<notin> sentinels info" "addr_node b \<notin> sentinels info"
    using b header_apart_nodes [of info b] by (auto simp: fresh_begin_def)
  obtain L where L: "mm_lists st info L (map fst rs)" using rep by (auto simp: mm_rep_def)
  from new_range_placed [OF L b' h2_def r_def, of p]
  obtain st2 st3 L' where run: "SetMemoryRangeBegin (st\<lparr>sls := h2, mrs := (mrs st)(b \<mapsto> r)\<rparr>) info b b = Some st2"
      "SetMemoryRangePages st2 info b p = Some st3"
    and L': "mm_lists st3 info L' (insort b (map fst rs))" and pg: "pg st3 = (pg st)(b := p)"
    by blast
  have "\<forall>(c, q)\<in>set rs1. pg st3 c = q"
    using rep b'(3) by (auto simp: rs1_def set_insort_key pg mm_rep_def rev_image_eqI)
  then have rep3: "mm_rep st3 info rs1"
    using L' by (auto simp: mm_rep_def rs1_def map_fst_insort)
  have bin: "b \<in> fst ` set rs1" by (simp add: rs1_def set_insort_key)
  then obtain q where q: "(b, q) \<in> set rs1" by auto
  obtain n where n: "SkipListNext (sls st3) (addr_node b) = Some n"
    "SkipListPayload (sls st3) n = Some (case next_begin b rs1 of None \<Rightarrow> NULL | Some c \<Rightarrow> c)"
    using mm_rep_next [OF rep3 bin] by blast
  obtain st4 where st4: "TryMergeMemoryRangesWithPrev st3 info (case next_begin b rs1 of None \<Rightarrow> NULL | Some c \<Rightarrow> c) = Some st4"
    "mm_rep st4 info (merge_next b rs1)" using merge_next_rep [OF rep3] by blast
  obtain st' where st': "TryMergeMemoryRangesWithPrev st4 info b = Some st'" "mm_rep st' info (try_merge b (merge_next b rs1))"
    using TryMerge_rep [OF st4(2) merge_next_keeps [OF mm_rep_distinct [OF rep3] bin]] by blast
  have "range_ok st3 b" by (rule mm_rep_range_ok(1) [OF rep3 q])
  then have "NewMemoryRange st info b p = Some st'"
    using run n st4(1) st'(1) b'(1) node_not_null [OF b'(2)] range_okD(1)
    by (simp add: NewMemoryRange_def SkipListInitNode_ok(1) Let_def size_node_def [symmetric]
        addr_node_def [symmetric] h2_def r_def)
  with st'(2) show ?thesis by (simp add: new_range_def rs1_def [symmetric] merge_next_def)
qed


section \<open>Page-aligned regions are never split\<close>

text \<open>
  For a page-aligned address the macro-expanded remainder \<open>begin % HUGEPAGE_SIZE\<close> is 0, so every
  range counts as aligned and \<open>InsertNewMemoryRange\<close> takes its second branch.
\<close>

lemma aligned_mod_HUGEPAGE_SIZE:
  assumes "b mod PAGE_SIZE = 0"
  shows "mod_HUGEPAGE_SIZE b = 0"
proof -
  have t: "x mod 4096 = take_bit 12 x" "x mod 512 = take_bit 9 x" for x :: u64
    by (simp_all add: take_bit_eq_mod)
  have z: "take_bit 12 b = 0" using assms by (simp add: t arch_consts)
  have "take_bit 9 b = take_bit 9 (take_bit 12 b)" by simp
  also have "\<dots> = 0" unfolding z by simp
  finally show ?thesis by (simp add: mod_HUGEPAGE_SIZE_zero t)
qed

lemma InsertNewMemoryRange_aligned:
  assumes "b mod PAGE_SIZE = 0"
  shows "InsertNewMemoryRange st info b p = (if p = 0 then Some st else NewMemoryRange st info b p)"
  using aligned_mod_HUGEPAGE_SIZE [OF assms]
  by (simp add: InsertNewMemoryRange_def Let_def arch_consts)

section \<open>Allocation\<close>

text \<open>What allocating \<open>need\<close> pages from the range \<open>(b, p)\<close> leaves of the free ranges.\<close>

definition take_range :: "u64 \<Rightarrow> u64 \<Rightarrow> u64 \<Rightarrow> ranges \<Rightarrow> ranges" where
  "take_range b p need rs =
     (if p = need then drop_range b rs else set_pages b (p - min p need) rs)"

text \<open>The nodes of a size list are the ranges of that class; their weights are the page counts.\<close>

lemma size_list_range:
  assumes L: "mm_lists st info L (map fst rs)" and rep: "mm_rep st info rs"
    and t: "t \<in> size_sentinels info" and x: "x \<in> set (L t)"
  obtains b p where "(b, p) \<in> set rs" "size_sentinel info b p = t" "x = size_node b"
    "wt (sls st) x = p" "pl (sls st) x = b" "range_ok st b" "pg st b = p" "node_at (sls st) x"
proof -
  obtain b where b: "b \<in> set (map fst rs)" "x = size_node b" "size_sentinel info b (pg st b) = t"
    using mm_listsD(3) [OF L t] x by auto
  then obtain p where p: "(b, p) \<in> set rs" by auto
  note ok = mm_rep_range_ok [OF rep p]
  have "node_at (sls st) x"
    using mm_listsD(5) [OF L, of t] t x by (auto simp: skl_def linked_def)
  with b p ok range_okD [OF ok(1)] that show ?thesis by auto
qed

lemma size_list_complete:
  assumes L: "mm_lists st info L (map fst rs)" and rep: "mm_rep st info rs"
    and c: "(c, q) \<in> set rs" "size_sentinel info c q = t"
  shows "size_node c \<in> set (L t)" "wt (sls st) (size_node c) = q"
proof -
  note ok = mm_rep_range_ok [OF rep c(1)]
  show "wt (sls st) (size_node c) = q" using range_okD(5) [OF ok(1)] ok(2) by simp
  have "t \<in> size_sentinels info" using c(2) by (metis sentinel_simps(2))
  from mm_listsD(3) [OF L this] c ok(2) show "size_node c \<in> set (L t)" by force
qed

text \<open>Once a node is chosen, the code hands out the end of its range.\<close>

lemma AllocatePagesFromList_chosen:
  assumes rep: "mm_rep st info rs" and bp: "(b, p) \<in> set rs"
    and best: "SkipListBest (sls st) t need exact = Some x" and x: "x = size_node b" "node_at (sls st) x"
    "wt (sls st) x = p" "pl (sls st) x = b"
  shows "\<exists>st'. AllocatePagesFromList st info t begin0 need exact =
      Some (st', True, min p need, b + (p - min p need) * PAGE_SIZE) \<and>
    mm_rep st' info (take_range b p need rs)"
proof -
  note ok = mm_rep_range_ok [OF rep bp]
  have x0: "x \<noteq> NULL" using x(2) by (simp add: node_at_def)
  have b: "b \<in> fst ` set rs" using bp by force
  note run = AllocatePagesFromList_def best x0 access_simps(1,2) [OF x(2)] x(3,4) range_okD(1) [OF ok(1)] ok(2)
  show ?thesis
  proof (cases "p = need")
    case True
    with MemoryRangeRemove_rep [OF rep b] show ?thesis by (auto simp: run take_range_def Let_def)
  next
    case False
    with SetMemoryRangePages_rep [OF rep b, of "p - min p need"] show ?thesis
      by (auto simp: run take_range_def Let_def)
  qed
qed

lemma AllocatePagesFromList_exact:
  assumes rep: "mm_rep st info rs" and t: "t \<in> size_sentinels info"
  shows "(\<exists>b p st'. (b, p) \<in> set rs \<and> size_sentinel info b p = t \<and> need \<le> p \<and>
      (\<forall>(c, q)\<in>set rs. size_sentinel info c q = t \<and> need \<le> q \<longrightarrow> p \<le> q) \<and>
      AllocatePagesFromList st info t begin0 need True = Some (st', True, need, b + (p - need) * PAGE_SIZE) \<and>
      mm_rep st' info (take_range b p need rs)) \<or>
    (\<forall>(c, q)\<in>set rs. size_sentinel info c q = t \<longrightarrow> q < need) \<and>
      AllocatePagesFromList st info t begin0 need True = Some (st, False, 0, begin0)"
proof -
  obtain L where L: "mm_lists st info L (map fst rs)" using rep by (auto simp: mm_rep_def)
  have inv: "skl (sls st) t (L t)" using mm_listsD(5) [OF L] t by simp
  note best = SkipListBest_exact [OF inv, of need]
  show ?thesis
  proof (cases "find (\<lambda>x. need \<le> wt (sls st) x) (L t)")
    case None
    have "q < need" if "(c, q) \<in> set rs" "size_sentinel info c q = t" for c q
      using None size_list_complete [OF L rep that] by (auto simp: find_None_iff not_le)
    then show ?thesis using None best by (auto simp: AllocatePagesFromList_def)
  next
    case (Some x)
    then obtain i where i: "i < length (L t)" "x = L t ! i" "need \<le> wt (sls st) x"
      and least: "\<And>j. j < i \<Longrightarrow> \<not> need \<le> wt (sls st) (L t ! j)"
      by (auto simp: find_Some_iff)
    then have xin: "x \<in> set (L t)" by simp
    obtain b p where bp: "(b, p) \<in> set rs" "size_sentinel info b p = t" and xb: "x = size_node b"
      "wt (sls st) x = p" "pl (sls st) x = b" "node_at (sls st) x"
      using size_list_range [OF L rep t xin] by metis
    have min: "p \<le> q" if c: "(c, q) \<in> set rs" "size_sentinel info c q = t" "need \<le> q" for c q
    proof -
      obtain j where j: "j < length (L t)" "L t ! j = size_node c"
        using size_list_complete(1) [OF L rep c(1,2)] by (auto simp: in_set_conv_nth)
      with size_list_complete(2) [OF L rep c(1,2)] c(3) least have "i \<le> j"
        by (metis linorder_not_le)
      then have "wt (sls st) (L t ! i) \<le> wt (sls st) (L t ! j)"
        using inv j(1) sorted_nth_mono [of "map (wt (sls st)) (L t)" i j] by (simp add: skl_def)
      with i j size_list_complete(2) [OF L rep c(1,2)] xb show ?thesis by simp
    qed
    have "SkipListBest (sls st) t need True = Some x" using best Some by simp
    moreover have "min p need = need" using i(3) xb(2) by simp
    ultimately have "\<exists>st'. AllocatePagesFromList st info t begin0 need True =
        Some (st', True, need, b + (p - need) * PAGE_SIZE) \<and> mm_rep st' info (take_range b p need rs)"
      using AllocatePagesFromList_chosen [OF rep bp(1) _ xb(1,4,2,3), of t need True begin0] by (simp only:)
    with bp min i(3) xb(2) show ?thesis by blast
  qed
qed

lemma AllocatePagesFromList_inexact:
  assumes rep: "mm_rep st info rs" and t: "t \<in> size_sentinels info"
  shows "(\<exists>b p st'. (b, p) \<in> set rs \<and> size_sentinel info b p = t \<and>
      AllocatePagesFromList st info t begin0 need False =
        Some (st', True, min p need, b + (p - min p need) * PAGE_SIZE) \<and>
      mm_rep st' info (take_range b p need rs)) \<or>
    (\<forall>(c, q)\<in>set rs. size_sentinel info c q \<noteq> t) \<and>
      AllocatePagesFromList st info t begin0 need False = Some (st, False, 0, begin0)"
proof -
  obtain L where L: "mm_lists st info L (map fst rs)" using rep by (auto simp: mm_rep_def)
  have inv: "skl (sls st) t (L t)" using mm_listsD(5) [OF L] t by simp
  obtain x where x: "SkipListBest (sls st) t need False = Some (if L t = [] then NULL else x)"
    "L t \<noteq> [] \<Longrightarrow> x \<in> set (L t)"
    by (rule SkipListBest_inexact [OF inv, of need]) blast
  show ?thesis
  proof (cases "L t = []")
    case True
    have "size_sentinel info c q \<noteq> t" if "(c, q) \<in> set rs" for c q
      using size_list_complete(1) [OF L rep that, of t] True by auto
    with x True show ?thesis by (auto simp: AllocatePagesFromList_def)
  next
    case False
    obtain b p where bp: "(b, p) \<in> set rs" "size_sentinel info b p = t" and xb: "x = size_node b"
      "wt (sls st) x = p" "pl (sls st) x = b" "node_at (sls st) x"
      using size_list_range [OF L rep t x(2) [OF False]] by metis
    from AllocatePagesFromList_chosen [OF rep bp(1) _ xb(1,4,2,3), of t need False] x(1) False bp(1,2)
    show ?thesis by auto
  qed
qed


text \<open>Every range of a represented state is page-aligned, so two of the three classes are in use.\<close>

lemma mm_rep_class:
  assumes "mm_rep st info rs" "(b, p) \<in> set rs"
  shows "size_sentinel info b p = (if p \<ge> 512 then info_Aligned2MBig info else info_Aligned2M info)"
  using aligned_mod_HUGEPAGE_SIZE [OF range_okD(3) [OF mm_rep_range_ok(1) [OF assms]]]
  by (simp add: size_sentinel_def arch_consts)

lemma sentinel_classes [simp]:
  "info_Unaligned2M info \<in> size_sentinels info" "info_Aligned2M info \<in> size_sentinels info"
  "info_Aligned2MBig info \<in> size_sentinels info"
  "info_Unaligned2M info \<noteq> info_Aligned2M info" "info_Unaligned2M info \<noteq> info_Aligned2MBig info"
  "info_Aligned2M info \<noteq> info_Aligned2MBig info"
  "info_Aligned2M info \<noteq> info_Unaligned2M info" "info_Aligned2MBig info \<noteq> info_Unaligned2M info"
  "info_Aligned2MBig info \<noteq> info_Aligned2M info"
  by (auto simp: size_sentinels_def layout_defs)

lemma AllocatePages_Unaligned2M:
  assumes rep: "mm_rep st info rs"
  shows "AllocatePagesFromList st info (info_Unaligned2M info) begin0 need exact = Some (st, False, 0, begin0)"
proof -
  have "size_sentinel info b p \<noteq> info_Unaligned2M info" if "(b, p) \<in> set rs" for b p
    using mm_rep_class [OF rep that] by simp
  then show ?thesis
    using AllocatePagesFromList_exact [OF rep sentinel_classes(1), where ?begin0.0 = begin0 and need = need]
      AllocatePagesFromList_inexact [OF rep sentinel_classes(1), where ?begin0.0 = begin0 and need = need]
    by (cases exact) (simp; blast)+
qed

text \<open>Exact allocation over all lists is best fit over all free ranges.\<close>

definition best_fit :: "ranges \<Rightarrow> u64 \<Rightarrow> u64 \<Rightarrow> u64 \<Rightarrow> bool" where
  "best_fit rs need b p \<longleftrightarrow> (b, p) \<in> set rs \<and> need \<le> p \<and> (\<forall>(c, q)\<in>set rs. need \<le> q \<longrightarrow> p \<le> q)"

lemma AllocatePages_exact_big:
  assumes rep: "mm_rep st info rs" and none: "need < 512 \<Longrightarrow> \<forall>(c, q)\<in>set rs. q < 512 \<longrightarrow> q < need"
  shows "(\<exists>b p st'. best_fit rs need b p \<and>
      AllocatePagesFromList st info (info_Aligned2MBig info) begin0 need True =
        Some (st', True, need, b + (p - need) * PAGE_SIZE) \<and> mm_rep st' info (take_range b p need rs)) \<or>
    (\<forall>(c, q)\<in>set rs. q < need) \<and>
      AllocatePagesFromList st info (info_Aligned2MBig info) begin0 need True = Some (st, False, 0, begin0)"
proof -
  have big: "q \<ge> 512" if "(c, q) \<in> set rs" "need \<le> q" for c q
    using none that by (cases "need < 512") (auto simp: not_le not_less leD dest: order_trans)
  have cl: "size_sentinel info c q = info_Aligned2MBig info \<longleftrightarrow> q \<ge> 512" if "(c, q) \<in> set rs" for c q
    using mm_rep_class [OF rep that] by simp
  from AllocatePagesFromList_exact [OF rep sentinel_classes(3), where ?begin0.0 = begin0 and need = need]
  show ?thesis
  proof (elim disjE exE conjE)
    fix b p st' assume "(b, p) \<in> set rs" "need \<le> p"
      and least: "\<forall>(c, q)\<in>set rs. size_sentinel info c q = info_Aligned2MBig info \<and> need \<le> q \<longrightarrow> p \<le> q"
      and run: "AllocatePagesFromList st info (info_Aligned2MBig info) begin0 need True =
        Some (st', True, need, b + (p - need) * PAGE_SIZE)" "mm_rep st' info (take_range b p need rs)"
    moreover have "\<forall>(c, q)\<in>set rs. need \<le> q \<longrightarrow> p \<le> q" using least big cl by fast
    ultimately show ?thesis unfolding best_fit_def by blast
  next
    assume "\<forall>(c, q)\<in>set rs. size_sentinel info c q = info_Aligned2MBig info \<longrightarrow> q < need"
      and "AllocatePagesFromList st info (info_Aligned2MBig info) begin0 need True = Some (st, False, 0, begin0)"
    moreover from this have "\<forall>(c, q)\<in>set rs. q < need" using big cl by (fastforce simp: not_less [symmetric])
    ultimately show ?thesis by blast
  qed
qed

lemma AllocatePages_exact:
  assumes rep: "mm_rep st info rs"
  shows "(\<exists>b p st'. best_fit rs need b p \<and>
      AllocatePages st info begin0 need True = Some (st', True, need, b + (p - need) * PAGE_SIZE) \<and>
      mm_rep st' info (take_range b p need rs)) \<or>
    (\<forall>(c, q)\<in>set rs. q < need) \<and> AllocatePages st info begin0 need True = Some (st, False, 0, begin0)"
proof (cases "need < 512")
  case False
  then have "AllocatePages st info begin0 need True =
      AllocatePagesFromList st info (info_Aligned2MBig info) begin0 need True"
    by (simp add: AllocatePages_def arch_consts)
  with AllocatePages_exact_big [OF rep, where ?begin0.0 = begin0 and need = need] False show ?thesis by simp
next
  case True
  have cl: "size_sentinel info c q = info_Aligned2M info \<longleftrightarrow> q < 512" if "(c, q) \<in> set rs" for c q
    using mm_rep_class [OF rep that] by (simp add: not_le leD)
  note run = AllocatePages_def arch_consts AllocatePages_Unaligned2M [OF rep] True
  from AllocatePagesFromList_exact [OF rep sentinel_classes(2), where ?begin0.0 = begin0 and need = need]
  show ?thesis
  proof (elim disjE exE conjE)
    fix b p st' assume bp: "(b, p) \<in> set rs" "need \<le> p" "size_sentinel info b p = info_Aligned2M info"
      and least: "\<forall>(c, q)\<in>set rs. size_sentinel info c q = info_Aligned2M info \<and> need \<le> q \<longrightarrow> p \<le> q"
      and st': "AllocatePagesFromList st info (info_Aligned2M info) begin0 need True =
        Some (st', True, need, b + (p - need) * PAGE_SIZE)" "mm_rep st' info (take_range b p need rs)"
    have "p < 512" using cl [OF bp(1)] bp(3) by simp
    then have "\<forall>(c, q)\<in>set rs. need \<le> q \<longrightarrow> p \<le> q" using least cl by (force simp: not_less)
    with bp have "best_fit rs need b p" by (simp add: best_fit_def)
    with st' show ?thesis by (auto simp: run)
  next
    assume none: "\<forall>(c, q)\<in>set rs. size_sentinel info c q = info_Aligned2M info \<longrightarrow> q < need"
      and "AllocatePagesFromList st info (info_Aligned2M info) begin0 need True = Some (st, False, 0, begin0)"
    then have "AllocatePages st info begin0 need True =
        AllocatePagesFromList st info (info_Aligned2MBig info) begin0 need True"
      by (simp add: run)
    moreover have "\<forall>(c, q)\<in>set rs. q < 512 \<longrightarrow> q < need" using none cl by fast
    ultimately show ?thesis using AllocatePages_exact_big [OF rep, where ?begin0.0 = begin0 and need = need] by simp
  qed
qed

text \<open>Which list an inexact request is served from: without a size limit only the lists' order matters.\<close>

lemma AllocatePages_inexact:
  assumes rep: "mm_rep st info rs"
  shows "(\<exists>b p st'. (b, p) \<in> set rs \<and> (need < 512 \<or> 512 \<le> p) \<and>
      AllocatePages st info begin0 need False = Some (st', True, min p need, b + (p - min p need) * PAGE_SIZE) \<and>
      mm_rep st' info (take_range b p need rs)) \<or>
    (\<forall>(c, q)\<in>set rs. \<not> need < 512 \<and> q < 512) \<and> AllocatePages st info begin0 need False = Some (st, False, 0, begin0)"
proof -
  have big: "size_sentinel info c q = info_Aligned2MBig info \<longleftrightarrow> 512 \<le> q"
    and small: "size_sentinel info c q = info_Aligned2M info \<longleftrightarrow> q < 512" if "(c, q) \<in> set rs" for c q
    using mm_rep_class [OF rep that] by (auto simp: not_le)
  note last = AllocatePagesFromList_inexact [OF rep sentinel_classes(3), where ?begin0.0 = begin0 and need = need]
  show ?thesis
  proof (cases "need < 512")
    case False
    then have "AllocatePages st info begin0 need False =
        AllocatePagesFromList st info (info_Aligned2MBig info) begin0 need False"
      by (simp add: AllocatePages_def arch_consts)
    with last big False show ?thesis by (fastforce simp: not_le)
  next
    case True
    note run = AllocatePages_def arch_consts AllocatePages_Unaligned2M [OF rep] True
    from AllocatePagesFromList_inexact [OF rep sentinel_classes(2), where ?begin0.0 = begin0 and need = need]
    show ?thesis
    proof (elim disjE exE conjE)
      fix b p st' assume "(b, p) \<in> set rs" "mm_rep st' info (take_range b p need rs)"
        "AllocatePagesFromList st info (info_Aligned2M info) begin0 need False =
          Some (st', True, min p need, b + (p - min p need) * PAGE_SIZE)"
      then show ?thesis by (intro disjI1 exI [of _ b] exI [of _ p] exI [of _ st']) (simp add: run)
    next
      assume none: "\<forall>(c, q)\<in>set rs. size_sentinel info c q \<noteq> info_Aligned2M info"
        and "AllocatePagesFromList st info (info_Aligned2M info) begin0 need False = Some (st, False, 0, begin0)"
      then have run': "AllocatePages st info begin0 need False =
          AllocatePagesFromList st info (info_Aligned2MBig info) begin0 need False"
        by (simp add: run)
      have all: "512 \<le> q" if "(c, q) \<in> set rs" for c q using none small [OF that] that by (auto simp: not_le)
      from last show ?thesis
      proof (elim disjE exE conjE)
        fix b p st' assume "(b, p) \<in> set rs" "mm_rep st' info (take_range b p need rs)"
          "AllocatePagesFromList st info (info_Aligned2MBig info) begin0 need False =
            Some (st', True, min p need, b + (p - min p need) * PAGE_SIZE)"
        with True show ?thesis by (intro disjI1 exI [of _ b] exI [of _ p] exI [of _ st']) (simp add: run')
      next
        assume "\<forall>(c, q)\<in>set rs. size_sentinel info c q \<noteq> info_Aligned2MBig info"
          "AllocatePagesFromList st info (info_Aligned2MBig info) begin0 need False = Some (st, False, 0, begin0)"
        moreover from this have "rs = []" using all big by (cases rs) auto
        ultimately show ?thesis by (simp add: run')
      qed
    qed
  qed
qed

end
