(* ===== verification/Memory_Space.thy ===== *)
theory Memory_Space
  imports Memory_Range
begin

text \<open>
  What the page-range allocator means for memory: the abstract ranges of \<open>Memory_Range\<close> denote a
  set of free page numbers. The invariant \<open>separated\<close> says that the ranges are non-empty, within
  the address space, disjoint and never adjacent (adjacent ranges have been merged). Insertion
  adds exactly the pages of the region, allocation removes exactly the pages it returns.
\<close>

section \<open>Ranges as sets of pages\<close>

definition page_no :: "u64 \<Rightarrow> nat" where
  "page_no b = unat b div 4096"

definition end_of :: "u64 \<times> u64 \<Rightarrow> nat" where
  "end_of r = unat (fst r) + unat (snd r) * 4096"

definition pages_of :: "u64 \<times> u64 \<Rightarrow> nat set" where
  "pages_of r = {page_no (fst r) ..< page_no (fst r) + unat (snd r)}"

definition free_pages :: "ranges \<Rightarrow> nat set" where
  "free_pages rs = (\<Union>r\<in>set rs. pages_of r)"

definition range_valid :: "u64 \<times> u64 \<Rightarrow> bool" where
  "range_valid r \<longleftrightarrow> fst r mod PAGE_SIZE = 0 \<and> 0 < snd r \<and> end_of r \<le> 2 ^ 64"

definition gap :: "u64 \<times> u64 \<Rightarrow> u64 \<times> u64 \<Rightarrow> bool" where
  "gap r r' \<longleftrightarrow> end_of r < unat (fst r')"

definition separated :: "ranges \<Rightarrow> bool" where
  "separated rs \<longleftrightarrow> (\<forall>r\<in>set rs. range_valid r) \<and> sorted_wrt gap rs"

definition mm_inv :: "mm_state \<Rightarrow> ptr \<Rightarrow> ranges \<Rightarrow> bool" where
  "mm_inv st info rs \<longleftrightarrow> mm_rep st info rs \<and> separated rs"

lemma unat_aligned: "b mod PAGE_SIZE = 0 \<Longrightarrow> unat b = page_no b * 4096"
proof -
  assume "b mod PAGE_SIZE = 0"
  then have "unat b mod 4096 = 0" by (simp add: arch_consts unat_mod flip: unat_eq_zero)
  then show ?thesis by (auto simp: page_no_def)
qed

lemma end_of_aligned: "range_valid r \<Longrightarrow> end_of r = (page_no (fst r) + unat (snd r)) * 4096"
  by (simp add: end_of_def range_valid_def unat_aligned add_mult_distrib)

lemma unat_end: "unat a + unat p * 4096 < 2 ^ 64 \<Longrightarrow> unat (a + p * PAGE_SIZE) = unat a + unat p * 4096"
  by (simp add: arch_consts unat_word_ariths)

text \<open>On page-aligned ranges the code merges exactly the adjacent ones.\<close>

lemma mergeable_iff:
  assumes "range_valid (a, p)" "b mod PAGE_SIZE = 0" "b \<noteq> 0"
  shows "mergeable a p b \<longleftrightarrow> end_of (a, p) = unat b"
proof -
  have "a + p * PAGE_SIZE = b \<longleftrightarrow> end_of (a, p) = unat b"
  proof (cases "end_of (a, p) < 2 ^ 64")
    case True
    then show ?thesis using unat_end [of a p] by (auto simp: end_of_def word_unat_eq_iff)
  next
    case False
    with assms(1) have e: "end_of (a, p) = 2 ^ 64" by (simp add: range_valid_def)
    then have "unat (a + p * PAGE_SIZE) = 0"
      by (simp add: end_of_def arch_consts unat_word_ariths mod_simps)
    then show ?thesis using assms(3) e u64_less [of b] by (auto simp: unat_eq_zero)
  qed
  with assms show ?thesis
    by (simp add: mergeable_def range_valid_def aligned_mod_HUGEPAGE_SIZE)
qed

lemma join_ranges:
  assumes "range_valid (a, p)" "range_valid (b, q)" "end_of (a, p) = unat b"
  shows "range_valid (a, p + q)" "end_of (a, p + q) = end_of (b, q)"
    "pages_of (a, p + q) = pages_of (a, p) \<union> pages_of (b, q)"
proof -
  have "(unat p + unat q) * 4096 \<le> 2 ^ 64" using assms by (simp add: range_valid_def end_of_def)
  then have s: "unat (p + q) = unat p + unat q" by (simp add: unat_word_ariths)
  then have "0 < p + q" using assms(1) by (simp add: range_valid_def word_less_nat_alt)
  with s assms show v: "range_valid (a, p + q)" "end_of (a, p + q) = end_of (b, q)"
    by (simp_all add: range_valid_def end_of_def)
  have "page_no b = page_no a + unat p"
    using assms end_of_aligned [OF assms(1)] unat_aligned [of b] by (simp add: range_valid_def)
  then show "pages_of (a, p + q) = pages_of (a, p) \<union> pages_of (b, q)"
    by (auto simp: pages_of_def s)
qed

lemma disjoint_iff_apart:
  assumes "range_valid r" "range_valid s"
  shows "pages_of r \<inter> pages_of s = {} \<longleftrightarrow> end_of r \<le> unat (fst s) \<or> end_of s \<le> unat (fst r)"
proof -
  have "unat (fst r) = page_no (fst r) * 4096" "unat (fst s) = page_no (fst s) * 4096"
    "0 < unat (snd r)" "0 < unat (snd s)"
    using assms by (auto simp: range_valid_def unat_aligned word_less_nat_alt)
  then show ?thesis
    by (auto simp: pages_of_def end_of_aligned assms ivl_disj_int disjoint_iff not_less)
qed


section \<open>Insertion\<close>

text \<open>The two merges of \<open>new_range\<close>, on the ranges below and above the new one.\<close>

definition merge_right :: "u64 \<Rightarrow> u64 \<Rightarrow> ranges \<Rightarrow> u64 \<times> ranges" where
  "merge_right b p us = (case us of [] \<Rightarrow> (p, []) | (n, q) # vs \<Rightarrow> if mergeable b p n then (p + q, vs) else (p, us))"

definition merge_left :: "ranges \<Rightarrow> u64 \<Rightarrow> u64 \<Rightarrow> ranges \<Rightarrow> ranges" where
  "merge_left ls b p us =
     (if ls = [] then (b, p) # us
      else case last ls of (a, r) \<Rightarrow>
        if mergeable a r b then butlast ls @ (a, r + p) # us else ls @ (b, p) # us)"

lemma insort_key_middle:
  assumes "\<forall>x\<in>set ls. fst x < b" "\<forall>x\<in>set us. b < fst x"
  shows "insort_key fst (b, p) (ls @ us) = ls @ (b, p) # us"
  using assms
proof (induction ls)
  case Nil
  then show ?case by (cases us) auto
next
  case (Cons x ls)
  then show ?case by (auto simp: leD)
qed

lemma try_merge_last:
  assumes "b \<notin> fst ` set ls" "b \<notin> fst ` set us"
  shows "try_merge b (ls @ (b, p) # us) = merge_left ls b p us"
proof (cases ls rule: rev_cases)
  case Nil
  with assms show ?thesis by (simp add: merge_left_def try_merge_head)
next
  case (snoc as x)
  obtain a r where "x = (a, r)" by (cases x)
  with snoc assms show ?thesis
    using try_merge_split [of b as a r p us] by (auto simp: merge_left_def)
qed

lemma new_range_eq:
  assumes ls: "\<forall>x\<in>set ls. fst x < b" and us: "\<forall>x\<in>set us. b < fst x" and d: "distinct (map fst us)"
  shows "new_range b p (ls @ us) = (case merge_right b p us of (q, vs) \<Rightarrow> merge_left ls b q vs)"
proof -
  have b: "b \<notin> fst ` set ls" "b \<notin> fst ` set us" using ls us by auto
  note ins = insort_key_middle [OF ls us, of p]
  show ?thesis
  proof (cases us)
    case Nil
    with b ins show ?thesis
      by (simp add: new_range_def next_begin_split try_merge_last merge_right_def)
  next
    case (Cons y vs)
    obtain n q where y: "y = (n, q)" by (cases y)
    have n: "n \<notin> fst ` set (ls @ [(b, p)])" using ls us Cons y by force
    have "try_merge n (ls @ (b, p) # us) = ls @ (if mergeable b p n then (b, p + q) # vs else (b, p) # us)"
      using try_merge_split [OF n, of q vs] Cons y by simp
    with b ins Cons y show ?thesis
      by (auto simp: new_range_def next_begin_split try_merge_last merge_right_def)
  qed
qed

lemma merge_right_separated:
  assumes r: "range_valid (b, p)" and us: "separated us" "0 \<notin> fst ` set us"
    and above: "\<forall>x\<in>set us. end_of (b, p) \<le> unat (fst x)" and m: "merge_right b p us = (q, vs)"
  shows "range_valid (b, q)" "separated ((b, q) # vs)" "set vs \<subseteq> set us"
    "free_pages ((b, q) # vs) = pages_of (b, p) \<union> free_pages us"
proof -
  have "range_valid (b, q) \<and> separated ((b, q) # vs) \<and> set vs \<subseteq> set us \<and>
      free_pages ((b, q) # vs) = pages_of (b, p) \<union> free_pages us"
  proof (cases us)
    case Nil
    with m r show ?thesis by (simp add: merge_right_def separated_def free_pages_def)
  next
    case (Cons y ws)
    obtain n t where y: "y = (n, t)" by (cases y)
    have v: "range_valid (n, t)" "separated ws" "\<forall>x\<in>set ws. gap (n, t) x"
      using us(1) Cons y by (auto simp: separated_def)
    then have me: "mergeable b p n \<longleftrightarrow> end_of (b, p) = unat n"
      using r us(2) Cons y by (intro mergeable_iff) (auto simp: range_valid_def)
    show ?thesis
    proof (cases "mergeable b p n")
      case True
      with m Cons y have "q = p + t" "vs = ws" by (auto simp: merge_right_def)
      with join_ranges [OF r v(1)] True me v Cons y show ?thesis
        by (auto simp: separated_def free_pages_def gap_def)
    next
      case False
      with m Cons y have qv: "q = p" "vs = us" by (auto simp: merge_right_def)
      have "end_of (b, p) < unat n" using False me above Cons y by fastforce
      moreover have "unat n < unat (fst x)" if "x \<in> set ws" for x
        using v(3) that by (auto simp: gap_def end_of_def)
      ultimately have "\<forall>x\<in>set us. gap (b, p) x" using Cons y by (force simp: gap_def)
      with qv r us(1) show ?thesis by (auto simp: separated_def free_pages_def)
    qed
  qed
  then show "range_valid (b, q)" "separated ((b, q) # vs)" "set vs \<subseteq> set us"
    "free_pages ((b, q) # vs) = pages_of (b, p) \<union> free_pages us" by auto
qed

lemma merge_left_separated:
  assumes r: "range_valid (b, p)" "b \<noteq> 0" and us: "separated ((b, p) # us)" and ls: "separated ls"
    and below: "\<forall>x\<in>set ls. end_of x \<le> unat b"
  shows "separated (merge_left ls b p us)"
    "free_pages (merge_left ls b p us) = free_pages ls \<union> free_pages ((b, p) # us)"
proof -
  have up: "unat b < unat (fst x)" if "x \<in> set us" for x
    using us that by (auto simp: separated_def gap_def end_of_def)
  have "separated (merge_left ls b p us) \<and>
      free_pages (merge_left ls b p us) = free_pages ls \<union> free_pages ((b, p) # us)"
  proof (cases ls rule: rev_cases)
    case Nil
    then show ?thesis using us by (simp add: merge_left_def free_pages_def)
  next
    case (snoc as x)
    obtain a t where x: "x = (a, t)" by (cases x)
    have v: "range_valid (a, t)" "separated as" "\<forall>y\<in>set as. gap y (a, t)"
      using ls snoc x by (auto simp: separated_def sorted_wrt_append)
    have me: "mergeable a t b \<longleftrightarrow> end_of (a, t) = unat b"
      using v(1) r by (intro mergeable_iff) (auto simp: range_valid_def)
    have low: "gap y z" if "y \<in> set as" "unat a \<le> unat (fst z)" for y z
      using v(3) that by (force simp: gap_def)
    have ab: "unat a \<le> unat b" using below snoc x by (simp add: end_of_def)
    have low_us: "gap y z" if "y \<in> set as" "z \<in> set us" for y z
      using low [OF that(1)] up [OF that(2)] ab by simp
    show ?thesis
    proof (cases "mergeable a t b")
      case True
      then have "\<forall>z\<in>set us. gap (a, t + p) z"
        using us join_ranges(2) [OF v(1) r(1)] me by (auto simp: separated_def gap_def)
      with True join_ranges [OF v(1) r(1)] me v us low_us low snoc x show ?thesis
        by (auto simp: merge_left_def separated_def free_pages_def sorted_wrt_append)
    next
      case False
      then have "end_of (a, t) < unat b" using me below snoc x by force
      then have "gap (a, t) z" if "z \<in> set ((b, p) # us)" for z
        using up [of z] that by (cases "z = (b, p)") (auto simp: gap_def)
      with False v us ab low_us low snoc x show ?thesis
        by (auto simp: merge_left_def separated_def free_pages_def sorted_wrt_append)
    qed
  qed
  then show "separated (merge_left ls b p us)"
    "free_pages (merge_left ls b p us) = free_pages ls \<union> free_pages ((b, p) # us)" by auto
qed


lemma separated_filter: "separated rs \<Longrightarrow> separated (filter P rs)"
  by (auto simp: separated_def sorted_wrt_filter)

lemma separated_distinct: "separated rs \<Longrightarrow> distinct (map fst rs)"
  by (induction rs) (auto simp: separated_def gap_def end_of_def)

lemma separated_sorted: "separated rs \<Longrightarrow> sorted (map fst rs)"
  by (induction rs) (auto simp: separated_def gap_def end_of_def word_le_nat_alt)

text \<open>Inserting a valid region that is disjoint from the free pages.\<close>

lemma new_range_separated:
  assumes sep: "separated rs" "0 \<notin> fst ` set rs" and r: "range_valid (b, p)" "b \<noteq> 0"
    and dis: "pages_of (b, p) \<inter> free_pages rs = {}"
  shows "separated (new_range b p rs)" "free_pages (new_range b p rs) = free_pages rs \<union> pages_of (b, p)"
proof -
  define ls where "ls = filter (\<lambda>x. fst x < b) rs"
  define us where "us = filter (\<lambda>x. \<not> fst x < b) rs"
  have rs: "rs = ls @ us"
    unfolding ls_def us_def by (rule filter_split_sorted [OF separated_sorted [OF sep(1)]])
  have apart: "end_of x \<le> unat b \<or> end_of (b, p) \<le> unat (fst x)" if "x \<in> set rs" for x
    using dis that sep(1) disjoint_iff_apart [OF r(1), of x] by (auto simp: free_pages_def separated_def)
  have pos: "unat b < end_of (b, p)" "\<And>x. x \<in> set rs \<Longrightarrow> unat (fst x) < end_of x"
    using r(1) sep(1) by (auto simp: range_valid_def separated_def end_of_def word_less_nat_alt)
  have below: "\<forall>x\<in>set ls. end_of x \<le> unat b"
    using apart pos by (force simp: ls_def word_less_nat_alt)
  have above: "\<forall>x\<in>set us. end_of (b, p) \<le> unat (fst x)"
    using apart pos by (force simp: us_def word_less_nat_alt)
  have ls: "\<forall>x\<in>set ls. fst x < b" by (simp add: ls_def)
  have us: "\<forall>x\<in>set us. b < fst x" using above pos by (force simp: word_less_nat_alt)
  have sl: "separated ls" "separated us" unfolding ls_def us_def by (rule separated_filter [OF sep(1)])+
  obtain q vs where m: "merge_right b p us = (q, vs)" by (cases "merge_right b p us")
  have "0 \<notin> fst ` set us" using sep(2) by (auto simp: rs)
  note mr = merge_right_separated [OF r(1) sl(2) this above m]
  note ml = merge_left_separated [OF mr(1) r(2) mr(2) sl(1) below]
  have eq: "new_range b p rs = merge_left ls b q vs"
    using new_range_eq [OF ls us separated_distinct [OF sl(2)], of p] m rs by simp
  show "separated (new_range b p rs)" using ml(1) eq by simp
  show "free_pages (new_range b p rs) = free_pages rs \<union> pages_of (b, p)"
    using ml(2) mr(4) unfolding eq by (auto simp: rs free_pages_def)
qed

section \<open>Allocation\<close>

lemma separated_split:
  assumes "separated (as @ (b, p) # cs)"
  shows "range_valid (b, p)" "pages_of (b, p) \<inter> free_pages (as @ cs) = {}" "b \<notin> fst ` set (as @ cs)"
    "separated (as @ cs)"
    "0 < q \<Longrightarrow> q \<le> p \<Longrightarrow> separated (as @ (b, q) # cs)"
proof -
  have v: "range_valid (b, p)" and va: "\<forall>x\<in>set (as @ cs). range_valid x"
    and g: "\<forall>x\<in>set as. gap x (b, p)" "\<forall>x\<in>set cs. gap (b, p) x" "sorted_wrt gap as" "sorted_wrt gap cs"
      "\<forall>x\<in>set as. \<forall>y\<in>set cs. gap x y"
    using assms by (auto simp: separated_def sorted_wrt_append)
  show "range_valid (b, p)" by (rule v)
  have "pages_of (b, p) \<inter> pages_of x = {}" if "x \<in> set (as @ cs)" for x
    using disjoint_iff_apart [OF v, of x] va g(1,2) that by (auto simp: gap_def)
  then show "pages_of (b, p) \<inter> free_pages (as @ cs) = {}" by (auto simp: free_pages_def)
  show "b \<notin> fst ` set (as @ cs)" using separated_distinct [OF assms] by auto
  show "separated (as @ cs)" using va g by (auto simp: separated_def sorted_wrt_append)
  assume q: "0 < q" "q \<le> p"
  then have "end_of (b, q) \<le> end_of (b, p)" by (simp add: end_of_def word_le_nat_alt)
  then have "range_valid (b, q)" "\<forall>x\<in>set cs. gap (b, q) x" "\<forall>x\<in>set as. gap x (b, q)"
    using v q g(1,2) by (auto simp: range_valid_def gap_def)
  then show "separated (as @ (b, q) # cs)"
    using va g by (auto simp: separated_def sorted_wrt_append)
qed

text \<open>Cutting the end off a range.\<close>

lemma split_range:
  assumes v: "range_valid (b, p)" and n: "need < p"
  shows "pages_of (b, p) = pages_of (b, p - need) \<union> pages_of (b + (p - need) * PAGE_SIZE, need)"
    "pages_of (b, p - need) \<inter> pages_of (b + (p - need) * PAGE_SIZE, need) = {}"
proof -
  have s: "unat (p - need) = unat p - unat need" "unat need < unat p"
    using n by (auto simp: unat_sub word_less_nat_alt word_le_nat_alt)
  have "unat b + unat (p - need) * 4096 < 2 ^ 64 \<or> unat need = 0"
    using v s by (auto simp: range_valid_def end_of_def)
  moreover have "unat (b + (p - need) * PAGE_SIZE) = unat b + unat (p - need) * 4096"
    if "unat b + unat (p - need) * 4096 < 2 ^ 64"
    using that by (rule unat_end)
  ultimately have "page_no (b + (p - need) * PAGE_SIZE) = page_no b + unat (p - need) \<or> unat need = 0"
    using v unat_aligned [of b] by (auto simp: page_no_def range_valid_def)
  then show "pages_of (b, p) = pages_of (b, p - need) \<union> pages_of (b + (p - need) * PAGE_SIZE, need)"
    "pages_of (b, p - need) \<inter> pages_of (b + (p - need) * PAGE_SIZE, need) = {}"
    using s by (auto simp: pages_of_def)
qed

lemma take_range_separated:
  assumes sep: "separated rs" and bp: "(b, p) \<in> set rs" and need: "need \<le> p"
  shows "separated (take_range b p need rs)"
    "pages_of (b + (p - need) * PAGE_SIZE, need) \<subseteq> free_pages rs"
    "free_pages (take_range b p need rs) = free_pages rs - pages_of (b + (p - need) * PAGE_SIZE, need)"
proof -
  obtain as cs where rs: "rs = as @ (b, p) # cs" using bp by (meson split_list)
  note sp = separated_split [OF sep [unfolded rs]]
  have m: "min p need = need" using need by simp
  show "separated (take_range b p need rs)"
    "pages_of (b + (p - need) * PAGE_SIZE, need) \<subseteq> free_pages rs"
    "free_pages (take_range b p need rs) = free_pages rs - pages_of (b + (p - need) * PAGE_SIZE, need)"
  proof (atomize (full), cases "p = need")
    case True
    then have "take_range b p need rs = as @ cs"
      using drop_range_split [OF sp(3)] by (simp add: take_range_def rs)
    with True sp show "separated (take_range b p need rs) \<and>
        pages_of (b + (p - need) * PAGE_SIZE, need) \<subseteq> free_pages rs \<and>
        free_pages (take_range b p need rs) = free_pages rs - pages_of (b + (p - need) * PAGE_SIZE, need)"
      by (auto simp: rs free_pages_def)
  next
    case False
    then have lt: "need < p" using need by simp
    have t: "take_range b p need rs = as @ (b, p - need) # cs"
      using set_pages_split [OF sp(3)] False m by (simp add: take_range_def rs)
    have "0 < p - need" "p - need \<le> p"
      using lt by (auto simp: word_less_nat_alt word_le_nat_alt unat_sub)
    with sp(5) split_range [OF sp(1) lt] sp(2) show "separated (take_range b p need rs) \<and>
        pages_of (b + (p - need) * PAGE_SIZE, need) \<subseteq> free_pages rs \<and>
        free_pages (take_range b p need rs) = free_pages rs - pages_of (b + (p - need) * PAGE_SIZE, need)"
      unfolding t by (auto simp: rs free_pages_def)
  qed
qed


text \<open>A range that is too small is taken as a whole; it stays in the list without pages.\<close>

lemma take_range_whole:
  assumes sep: "separated rs" and bp: "(b, p) \<in> set rs" and lt: "p < need"
  shows "free_pages (take_range b p need rs) = free_pages rs - pages_of (b, p)" "pages_of (b, p) \<subseteq> free_pages rs"
proof -
  obtain as cs where rs: "rs = as @ (b, p) # cs" using bp by (meson split_list)
  note sp = separated_split [OF sep [unfolded rs]]
  have "p \<noteq> need" "min p need = p" using lt by auto
  then have "take_range b p need rs = as @ (b, 0) # cs"
    using set_pages_split [OF sp(3)] by (simp add: take_range_def rs)
  then show "free_pages (take_range b p need rs) = free_pages rs - pages_of (b, p)" "pages_of (b, p) \<subseteq> free_pages rs"
    using sp(2) by (auto simp: rs free_pages_def pages_of_def)
qed

section \<open>The initial state\<close>

text \<open>A \<open>MemoryInfo\<close> of all zeroes, as the header asks for, is an allocator with no free range.\<close>

lemma skl_zero_sentinel:
  assumes "h s = Some zero_node" "s \<noteq> NULL"
  shows "skl h s []"
  using assms
  by (auto simp: skl_def linked_def node_at_def pl_def hgt_def nx_def lvl_def zero_node_def
      SkipListNodeHeight_loop.simps)

definition zeroed_info :: "mm_state \<Rightarrow> ptr \<Rightarrow> bool" where
  "zeroed_info st info \<longleftrightarrow> (\<forall>t\<in>sentinels info. t \<noteq> NULL \<and> sls st t = Some zero_node)"

lemma zeroed_info_inv:
  assumes "zeroed_info st info"
  shows "mm_inv st info []"
proof -
  have "list_family (skl (sls st)) (sentinels info) (\<lambda>_. [])"
    using assms skl_zero_sentinel by (auto simp: list_family_def zeroed_info_def)
  then have "mm_lists st info (\<lambda>_. []) []" by (simp add: mm_lists_def)
  then show ?thesis by (auto simp: mm_inv_def mm_rep_def separated_def)
qed

section \<open>The operations on the invariant\<close>

lemma mm_inv_not_null: "mm_inv st info rs \<Longrightarrow> 0 \<notin> fst ` set rs"
  using mm_rep_range_ok(1) range_okD(2) by (fastforce simp: mm_inv_def)

lemma mm_inv_insert:
  assumes inv: "mm_inv st info rs" and r: "range_valid (b, p)" and fresh: "fresh_begin info rs b"
    and dis: "pages_of (b, p) \<inter> free_pages rs = {}"
  shows "\<exists>st'. InsertNewMemoryRange st info b p = Some st' \<and> mm_inv st' info (new_range b p rs) \<and>
    free_pages (new_range b p rs) = free_pages rs \<union> pages_of (b, p)"
proof -
  have p: "p \<noteq> 0" and al: "b mod PAGE_SIZE = 0" and b: "b \<noteq> 0"
    using r fresh by (auto simp: range_valid_def fresh_begin_def)
  have sep: "separated rs" and rep: "mm_rep st info rs" using inv by (auto simp: mm_inv_def)
  from NewMemoryRange_rep [OF rep fresh, of p] new_range_separated [OF sep mm_inv_not_null [OF inv] r b dis] p
  show ?thesis by (auto simp: InsertNewMemoryRange_aligned [OF al] mm_inv_def)
qed

lemma mm_inv_allocate:
  assumes inv: "mm_inv st info rs"
  shows "(\<exists>b p st'. best_fit rs need b p \<and>
      AllocatePages st info begin0 need True = Some (st', True, need, b + (p - need) * PAGE_SIZE) \<and>
      mm_inv st' info (take_range b p need rs) \<and>
      pages_of (b + (p - need) * PAGE_SIZE, need) \<subseteq> free_pages rs \<and>
      free_pages (take_range b p need rs) = free_pages rs - pages_of (b + (p - need) * PAGE_SIZE, need)) \<or>
    (\<forall>(c, q)\<in>set rs. q < need) \<and> AllocatePages st info begin0 need True = Some (st, False, 0, begin0)"
proof -
  have sep: "separated rs" and rep: "mm_rep st info rs" using inv by (auto simp: mm_inv_def)
  from AllocatePages_exact [OF rep, where ?begin0.0 = begin0 and need = need]
  show ?thesis
  proof (elim disjE exE conjE)
    fix b p st' assume bf: "best_fit rs need b p" and run: "AllocatePages st info begin0 need True =
        Some (st', True, need, b + (p - need) * PAGE_SIZE)" "mm_rep st' info (take_range b p need rs)"
    have "(b, p) \<in> set rs" "need \<le> p" using bf by (auto simp: best_fit_def)
    note take_range_separated [OF sep this]
    with bf run show ?thesis unfolding mm_inv_def by blast
  qed blast
qed

lemma mm_inv_allocate_inexact:
  assumes inv: "mm_inv st info rs"
  shows "(\<exists>b p st'. (b, p) \<in> set rs \<and> (need < 512 \<or> 512 \<le> p) \<and>
      AllocatePages st info begin0 need False = Some (st', True, min p need, b + (p - min p need) * PAGE_SIZE) \<and>
      mm_rep st' info (take_range b p need rs) \<and> (need \<le> p \<longrightarrow> mm_inv st' info (take_range b p need rs)) \<and>
      pages_of (b + (p - min p need) * PAGE_SIZE, min p need) \<subseteq> free_pages rs \<and>
      free_pages (take_range b p need rs) = free_pages rs - pages_of (b + (p - min p need) * PAGE_SIZE, min p need)) \<or>
    (\<forall>(c, q)\<in>set rs. \<not> need < 512 \<and> q < 512) \<and> AllocatePages st info begin0 need False = Some (st, False, 0, begin0)"
proof -
  have sep: "separated rs" and rep: "mm_rep st info rs" using inv by (auto simp: mm_inv_def)
  have "pages_of (b + (p - min p need) * PAGE_SIZE, min p need) \<subseteq> free_pages rs \<and>
      free_pages (take_range b p need rs) = free_pages rs - pages_of (b + (p - min p need) * PAGE_SIZE, min p need) \<and>
      (need \<le> p \<longrightarrow> separated (take_range b p need rs))" if bp: "(b, p) \<in> set rs" for b p
  proof (cases "need \<le> p")
    case True
    with take_range_separated [OF sep bp True] show ?thesis by (simp add: min_absorb2)
  next
    case False
    then have "p < need" "min p need = p" by auto
    with take_range_whole [OF sep bp] False show ?thesis by simp
  qed
  with AllocatePages_inexact [OF rep, where ?begin0.0 = begin0 and need = need] show ?thesis
    unfolding mm_inv_def by blast
qed

text \<open>A concrete allocator: \<open>MemoryInfo\<close> at 0x1000, and the same after one region was inserted.\<close>

definition ex_state :: mm_state where
  "ex_state = \<lparr>sls = (\<lambda>p. if p \<in> {4112, 4240, 4368, 4496} then Some zero_node else None),
     mrs = Map.empty, rnd = SEED\<rparr>"

lemma ex_state_inv: "mm_inv ex_state 4096 []"
  by (rule zeroed_info_inv)
    (simp add: zeroed_info_def ex_state_def sentinels_def size_sentinels_def layout_defs)

lemma fresh_begin_ex: "fresh_begin 4096 [] 65536"
  by (simp add: fresh_begin_def header_apart_behind arch_consts)

lemma range_valid_ex: "range_valid (65536, 3)"
  by (simp add: range_valid_def end_of_def arch_consts)

lemma ex_inserted: "\<exists>st. mm_inv st 4096 [(65536, 3)]"
  using mm_inv_insert [OF ex_state_inv range_valid_ex fresh_begin_ex]
  by (auto simp: new_range_def free_pages_def)

section \<open>Runs of free pages\<close>

text \<open>Because adjacent ranges are merged, a run of free pages lies in a single range.\<close>

lemma separated_adjacent:
  assumes sep: "separated rs" and rs: "r \<in> set rs" "s \<in> set rs" and k: "k \<in> pages_of r" "Suc k \<in> pages_of s"
  shows "s = r"
proof (rule ccontr)
  assume ne: "s \<noteq> r"
  have v: "range_valid r" "range_valid s" using sep rs by (auto simp: separated_def)
  have or: "gap r s \<or> gap s r"
    using sep rs ne by (auto simp: separated_def sorted_wrt_iff_nth_less in_set_conv_nth)
      (metis linorder_neqE_nat)
  have u: "unat (fst r) = page_no (fst r) * 4096" "unat (fst s) = page_no (fst s) * 4096"
    using v by (auto simp: range_valid_def unat_aligned)
  show False using or k u by (auto simp: gap_def end_of_def pages_of_def)
qed

lemma free_run_in_range:
  assumes sep: "separated rs" and run: "{k..<k + Suc n} \<subseteq> free_pages rs"
  shows "\<exists>r\<in>set rs. {k..<k + Suc n} \<subseteq> pages_of r"
  using run
proof (induction n)
  case 0
  then show ?case by (auto simp: free_pages_def)
next
  case (Suc n)
  have "{k..<k + Suc n} \<subseteq> free_pages rs" using Suc.prems by auto
  then obtain r where r: "r \<in> set rs" "{k..<k + Suc n} \<subseteq> pages_of r" using Suc.IH by blast
  have "k + Suc n \<in> free_pages rs" using Suc.prems by auto
  then obtain s where s: "s \<in> set rs" "k + Suc n \<in> pages_of s" by (auto simp: free_pages_def)
  have "k + n \<in> pages_of r" using r(2) by auto
  then have "s = r" using separated_adjacent [OF sep r(1) s(1), of "k + n"] s(2) by simp
  moreover have "{k..<k + Suc (Suc n)} = insert (k + Suc n) {k..<k + Suc n}" by auto
  ultimately show ?case using r s(2) by auto
qed

lemma free_run_length:
  assumes "separated rs" "{k..<k + n} \<subseteq> free_pages rs" "0 < n"
  obtains b p where "(b, p) \<in> set rs" "n \<le> unat p"
proof -
  obtain m where "n = Suc m" using assms(3) by (cases n) auto
  with free_run_in_range [of rs k m] assms(1,2) obtain r where r: "r \<in> set rs" "{k..<k + n} \<subseteq> pages_of r"
    by auto
  have "card {k..<k + n} \<le> card (pages_of r)"
    by (rule card_mono [OF _ r(2)]) (simp add: pages_of_def)
  with r(1) that [of "fst r" "snd r"] show ?thesis by (simp add: pages_of_def)
qed

section \<open>Reachable states\<close>

text \<open>
  The states the allocator goes through, with the set of free pages a client accounts for: it starts
  from a zeroed \<open>MemoryInfo\<close>, regions are added with \<open>InsertNewMemoryRange\<close> (none of whose pages
  is free already, nor its first bytes part of \<open>MemoryInfo\<close>), and pages are taken with allocations, exact or not, that may fail. A request that is served
  with fewer pages than it asks for is not part of a history: it leaves a range without pages behind.
\<close>

inductive mm_reach :: "ptr \<Rightarrow> mm_state \<Rightarrow> nat set \<Rightarrow> bool" for info where
  mm_init: "zeroed_info st info \<Longrightarrow> mm_reach info st {}"
| mm_insert: "mm_reach info st F \<Longrightarrow> range_valid (b, p) \<Longrightarrow> fresh_begin info [] b \<Longrightarrow>
    pages_of (b, p) \<inter> F = {} \<Longrightarrow> InsertNewMemoryRange st info b p = Some st' \<Longrightarrow>
    mm_reach info st' (F \<union> pages_of (b, p))"
| mm_alloc: "mm_reach info st F \<Longrightarrow> AllocatePages st info begin0 need exact = Some (st', True, need, a) \<Longrightarrow>
    mm_reach info st' (F - pages_of (a, need))"
| mm_fail: "mm_reach info st F \<Longrightarrow> AllocatePages st info begin0 need exact = Some (st', False, n, a) \<Longrightarrow>
    mm_reach info st' F"

lemma fresh_begin_disjoint:
  assumes "fresh_begin info [] b" "range_valid (b, p)" "pages_of (b, p) \<inter> free_pages rs = {}"
    "separated rs"
  shows "fresh_begin info rs b"
proof -
  have "b \<noteq> fst r" if "r \<in> set rs" for r
  proof
    assume "b = fst r"
    moreover have "0 < unat (snd r)" "0 < unat p"
      using assms(2,4) that by (auto simp: separated_def range_valid_def word_less_nat_alt)
    ultimately have "page_no b \<in> pages_of (b, p) \<inter> pages_of r" by (simp add: pages_of_def)
    with assms(3) that show False by (auto simp: free_pages_def)
  qed
  with assms(1) show ?thesis by (auto simp: fresh_begin_def)
qed

lemma mm_reach_inv:
  assumes "mm_reach info st F"
  shows "\<exists>rs. mm_inv st info rs \<and> free_pages rs = F"
  using assms
proof induction
  case (mm_init st)
  from zeroed_info_inv [OF this] show ?case by (auto simp: free_pages_def)
next
  case (mm_insert st F b p st')
  then obtain rs where rs: "mm_inv st info rs" "free_pages rs = F" by blast
  then have "separated rs" by (simp add: mm_inv_def)
  then have "fresh_begin info rs b" using fresh_begin_disjoint mm_insert.hyps rs(2) by blast
  from mm_inv_insert [OF rs(1) mm_insert.hyps(2) this] mm_insert.hyps rs(2) show ?case by auto
next
  case (mm_alloc st F begin0 need exact st' a)
  then obtain rs where rs: "mm_inv st info rs" "free_pages rs = F" by blast
  from mm_inv_allocate [OF rs(1), where ?begin0.0 = begin0 and need = need]
    mm_inv_allocate_inexact [OF rs(1), where ?begin0.0 = begin0 and need = need] mm_alloc.hyps rs(2)
  show ?case by (cases exact) (auto simp: min_def split: if_splits)
next
  case (mm_fail st F begin0 need exact st' n a)
  then obtain rs where rs: "mm_inv st info rs" "free_pages rs = F" by blast
  from mm_inv_allocate [OF rs(1), where ?begin0.0 = begin0 and need = need]
    mm_inv_allocate_inexact [OF rs(1), where ?begin0.0 = begin0 and need = need] mm_fail.hyps rs
  show ?case by (cases exact) auto
qed

lemma ex_reach: "\<exists>st. mm_reach 4096 st {16..<19}"
proof -
  from mm_inv_insert [OF ex_state_inv range_valid_ex fresh_begin_ex]
  obtain st where "InsertNewMemoryRange ex_state 4096 65536 3 = Some st" by (auto simp: free_pages_def)
  moreover have "mm_reach 4096 ex_state {}"
    by (rule mm_init) (simp add: zeroed_info_def ex_state_def sentinels_def size_sentinels_def layout_defs)
  ultimately have "mm_reach 4096 st ({} \<union> pages_of (65536, 3))"
    by (intro mm_insert [OF _ range_valid_ex fresh_begin_ex]) auto
  moreover have "pages_of (65536, 3) = {16..<19}" by (simp add: pages_of_def page_no_def)
  ultimately show ?thesis by auto
qed

text \<open>An exact allocation in a reachable state; what it returns is a valid region.\<close>

lemma range_valid_part:
  assumes v: "range_valid (b, p)" and n: "need \<le> p" "0 < need"
  shows "range_valid (b + (p - need) * PAGE_SIZE, need)"
proof -
  have s: "unat (p - need) = unat p - unat need" "unat need \<le> unat p" "0 < unat need"
    using n by (auto simp: unat_sub word_less_nat_alt word_le_nat_alt)
  have e: "unat b + unat p * 4096 \<le> 2 ^ 64" using v by (simp add: range_valid_def end_of_def)
  then have u: "unat (b + (p - need) * PAGE_SIZE) = unat b + unat (p - need) * 4096"
    using s by (intro unat_end) linarith
  have "unat b mod 4096 = 0" using v unat_aligned [of b] by (simp add: range_valid_def)
  then have "unat (b + (p - need) * PAGE_SIZE) mod 4096 = 0" unfolding u by simp
  then have "(b + (p - need) * PAGE_SIZE) mod PAGE_SIZE = 0" by (simp add: word_unat_eq_iff unat_mod arch_consts)
  then show ?thesis using e s n(2) u by (simp add: range_valid_def end_of_def)
qed

lemma mm_reach_allocate:
  assumes "mm_reach info st F" and "0 < need"
  shows "\<exists>st' ok n a. AllocatePages st info begin0 need True = Some (st', ok, n, a) \<and>
    (if ok then n = need \<and> pages_of (a, need) \<subseteq> F \<and> range_valid (a, need) \<and> mm_reach info st' (F - pages_of (a, need))
     else st' = st \<and> \<not> (\<exists>k. {k..<k + unat need} \<subseteq> F))"
proof -
  obtain rs where rs: "mm_inv st info rs" "free_pages rs = F" using mm_reach_inv [OF assms(1)] by blast
  have sep: "separated rs" using rs(1) by (simp add: mm_inv_def)
  have pos: "0 < unat need" using assms(2) by (simp add: word_less_nat_alt)
  have "\<not> {k..<k + unat need} \<subseteq> F" if "\<forall>(c, q)\<in>set rs. q < need" for k
    using free_run_length [OF sep _ pos, of k] that rs(2) by (fastforce simp: word_less_nat_alt)
  moreover have "range_valid (b + (p - need) * PAGE_SIZE, need)" if "best_fit rs need b p" for b p
    using that sep assms(2) by (intro range_valid_part) (auto simp: best_fit_def separated_def)
  ultimately consider st' a where "AllocatePages st info begin0 need True = Some (st', True, need, a)" "pages_of (a, need) \<subseteq> F"
      "range_valid (a, need)"
    | "AllocatePages st info begin0 need True = Some (st, False, 0, begin0)" "\<not> (\<exists>k. {k..<k + unat need} \<subseteq> F)"
    using mm_inv_allocate [OF rs(1), where ?begin0.0 = begin0 and need = need] rs(2) by blast
  then show ?thesis
  proof cases
    case (1 st' a)
    with mm_alloc [OF assms(1) 1(1)] show ?thesis by (intro exI [of _ st'] exI [of _ True]) simp
  next
    case 2
    then show ?thesis by (intro exI [of _ st] exI [of _ False]) simp
  qed
qed

section \<open>Properties\<close>

text \<open>
  C2: \<open>InsertNewMemoryRange\<close> adds a region. On an allocator whose ranges are separated, inserting a
  page-aligned region that shares no page with the free ones, and whose first 288 bytes do not overlap
  \<open>MemoryInfo\<close> (\<open>fresh_begin\<close>), does not fault, and the new ranges are
  separated again (neighbours have been merged) and cover the old free pages and those of the region.
\<close>

theorem InsertNewMemoryRange_correct:
  assumes "mm_inv st info rs" and "range_valid (b, p)" and "fresh_begin info [] b"
    and "pages_of (b, p) \<inter> free_pages rs = {}"
  shows "\<exists>st' rs'. InsertNewMemoryRange st info b p = Some st' \<and> mm_inv st' info rs' \<and>
    free_pages rs' = free_pages rs \<union> pages_of (b, p)"
proof -
  have "separated rs" using assms(1) by (simp add: mm_inv_def)
  then have "fresh_begin info rs b" using fresh_begin_disjoint assms(2,3,4) by blast
  from mm_inv_insert [OF assms(1,2) this assms(4)] show ?thesis by blast
qed

theorem InsertNewMemoryRange_correct_witness:
  "\<exists>st' rs'. InsertNewMemoryRange ex_state 4096 65536 3 = Some st' \<and> mm_inv st' 4096 rs' \<and>
    free_pages rs' = {16..<19}"
  using InsertNewMemoryRange_correct [OF ex_state_inv range_valid_ex fresh_begin_ex]
  by (simp add: free_pages_def pages_of_def page_no_def)

text \<open>
  C3: An exact allocation does not fault on a state with the invariant. It succeeds when some range has
  enough pages; it then hands out exactly the requested number of pages, all of which were free and
  none of which is free afterwards, and the invariant holds again. Otherwise it reports failure
  with no pages and leaves the state unchanged.
\<close>

theorem AllocatePages_exact_correct:
  assumes "mm_inv st info rs"
  shows "if \<exists>(c, q)\<in>set rs. need \<le> q
    then \<exists>st' a rs'. AllocatePages st info begin0 need True = Some (st', True, need, a) \<and>
      mm_inv st' info rs' \<and> pages_of (a, need) \<subseteq> free_pages rs \<and>
      free_pages rs' = free_pages rs - pages_of (a, need)
    else AllocatePages st info begin0 need True = Some (st, False, 0, begin0)"
proof -
  have "\<exists>(c, q)\<in>set rs. need \<le> q" if "best_fit rs need b p" for b p
    using that by (auto simp: best_fit_def)
  moreover have "\<not> (\<exists>(c, q)\<in>set rs. need \<le> q)" if "\<forall>(c, q)\<in>set rs. q < need"
    using that by (auto simp: not_le)
  ultimately show ?thesis
    using mm_inv_allocate [OF assms, where ?begin0.0 = begin0 and need = need] by (auto 0 3)
qed

theorem AllocatePages_exact_correct_witness:
  "\<exists>st st' a rs'. mm_inv st 4096 [(65536, 3)] \<and> AllocatePages st 4096 0 2 True = Some (st', True, 2, a) \<and>
    mm_inv st' 4096 rs' \<and> pages_of (a, 2) \<subseteq> {16..<19} \<and> free_pages rs' = {16..<19} - pages_of (a, 2)"
proof -
  obtain st where st: "mm_inv st 4096 [(65536, 3)]" using ex_inserted by blast
  have f: "free_pages [(65536, 3)] = {16..<19}" by (simp add: free_pages_def pages_of_def page_no_def)
  have "\<exists>(c, q)\<in>set [(65536 :: u64, 3 :: u64)]. 2 \<le> q" by simp
  with AllocatePages_exact_correct [OF st, of 2 0] st show ?thesis unfolding f by auto
qed

text \<open>
  C22: An inexact allocation does not fault on a state with the invariant. It fails only without a range in the
  lists it asks, and then changes nothing. Otherwise it hands out the requested pages or, from a smaller range,
  all that are there, out of the free ones, and no other page stops being free; unless the range was smaller,
  the invariant holds again.
\<close>

theorem AllocatePages_inexact_correct:
  assumes "mm_inv st info rs"
  shows "if \<exists>(c, q)\<in>set rs. need < PAGES_PER_HUGEPAGE \<or> PAGES_PER_HUGEPAGE \<le> q
    then \<exists>st' a b p rs'. AllocatePages st info begin0 need False = Some (st', True, min p need, a) \<and>
      (b, p) \<in> set rs \<and> pages_of (a, min p need) \<subseteq> free_pages rs \<and> mm_rep st' info rs' \<and>
      free_pages rs' = free_pages rs - pages_of (a, min p need) \<and> (need \<le> p \<longrightarrow> mm_inv st' info rs')
    else AllocatePages st info begin0 need False = Some (st, False, 0, begin0)"
proof -
  have h: "PAGES_PER_HUGEPAGE = 512" by (simp add: arch_consts)
  from mm_inv_allocate_inexact [OF assms, where ?begin0.0 = begin0 and need = need]
  consider (served) b p st' where "(b, p) \<in> set rs" "need < 512 \<or> 512 \<le> p"
      "AllocatePages st info begin0 need False = Some (st', True, min p need, b + (p - min p need) * PAGE_SIZE)"
      "mm_rep st' info (take_range b p need rs)" "need \<le> p \<longrightarrow> mm_inv st' info (take_range b p need rs)"
      "pages_of (b + (p - min p need) * PAGE_SIZE, min p need) \<subseteq> free_pages rs"
      "free_pages (take_range b p need rs) = free_pages rs - pages_of (b + (p - min p need) * PAGE_SIZE, min p need)"
    | (none) "\<forall>(c, q)\<in>set rs. \<not> need < 512 \<and> q < 512" "AllocatePages st info begin0 need False = Some (st, False, 0, begin0)"
    by metis
  then show ?thesis
  proof cases
    case (served b p st')
    then show ?thesis unfolding h by auto
  next
    case none
    then show ?thesis unfolding h by (auto simp: not_le)
  qed
qed

theorem AllocatePages_inexact_correct_witness:
  "\<exists>st st' a rs'. mm_inv st 4096 [(65536, 3)] \<and> AllocatePages st 4096 0 2 False = Some (st', True, 2, a) \<and>
    pages_of (a, 2) \<subseteq> {16..<19} \<and> mm_inv st' 4096 rs' \<and> free_pages rs' = {16..<19} - pages_of (a, 2)"
proof -
  obtain st where st: "mm_inv st 4096 [(65536, 3)]" using ex_inserted by blast
  have f: "free_pages [(65536, 3)] = {16..<19}" by (simp add: free_pages_def pages_of_def page_no_def)
  have "\<exists>(c, q)\<in>set [(65536 :: u64, 3 :: u64)]. 2 < PAGES_PER_HUGEPAGE \<or> PAGES_PER_HUGEPAGE \<le> q" by (simp add: arch_consts)
  with AllocatePages_inexact_correct [OF st, of 2 0] st show ?thesis unfolding f by auto
qed

text \<open>
  C24: Well-formedness of every history. Each reachable state keeps the structure invariant: its size and
  address lists are well-formed skip lists over the same ranges, the ranges are page-aligned,
  non-empty, sorted by address, disjoint and not adjacent, and they cover exactly the pages the client
  accounts for as free.
\<close>

theorem mm_reach_wellformed:
  assumes "mm_reach info st F"
  shows "\<exists>rs. mm_inv st info rs \<and> separated rs \<and> free_pages rs = F"
  using mm_reach_inv [OF assms] by (auto simp: mm_inv_def)

theorem mm_reach_wellformed_witness:
  "\<exists>st rs. mm_reach 4096 st {16..<19} \<and> mm_inv st 4096 rs \<and> separated rs \<and> free_pages rs = {16..<19}"
  using ex_reach mm_reach_wellformed by blast

text \<open>
  C1: Safety and completeness over every history. In every state reached from a zeroed \<open>MemoryInfo\<close> by
  insertions of disjoint regions that do not begin on \<open>MemoryInfo\<close> (\<open>fresh_begin\<close>) and allocations (exact or not, served in full or failed), a further
  exact allocation does not fault; if it succeeds it returns the requested number of pages out of the free ones (so no page is
  handed out twice), and it fails only if no run of that many consecutive pages is free.
\<close>

theorem AllocatePages_reachable:
  assumes "mm_reach info st F" and "0 < need"
  shows "\<exists>st' ok n a. AllocatePages st info begin0 need True = Some (st', ok, n, a) \<and>
    (if ok then n = need \<and> pages_of (a, need) \<subseteq> F \<and> mm_reach info st' (F - pages_of (a, need))
     else st' = st \<and> \<not> (\<exists>k. {k..<k + unat need} \<subseteq> F))"
  using mm_reach_allocate [OF assms, of begin0] by (metis (full_types))

theorem AllocatePages_reachable_witness:
  "\<exists>st st' a. mm_reach 4096 st {16..<19} \<and> AllocatePages st 4096 0 3 True = Some (st', True, 3, a) \<and>
    pages_of (a, 3) \<subseteq> {16..<19}"
proof -
  obtain st where st: "mm_reach 4096 st {16..<19}" using ex_reach by blast
  have "(0 :: u64) < 3" by simp
  from AllocatePages_reachable [OF st this, of 0] have
    "\<exists>st' ok n a. AllocatePages st 4096 0 3 True = Some (st', ok, n, a) \<and>
      (if ok then n = 3 \<and> pages_of (a, 3) \<subseteq> {16..<19} else \<not> (\<exists>k. {k..<k + 3} \<subseteq> {16..<19 :: nat}))"
    by (auto split: if_splits)
  moreover have "{16..<16 + 3} \<subseteq> {16..<19 :: nat}" by simp
  ultimately show ?thesis using st by (metis (full_types))
qed

text \<open>
  C12: \<open>NewMemoryRange\<close> refines its specification on lists of ranges: the object and its two nodes
  are placed at the start of the region (where neither a range nor \<open>MemoryInfo\<close> is, \<open>fresh_begin\<close>), ordered insertion by address is followed by the merge of
  the successor and then of the new range itself, and the four skip lists describe the result.
\<close>

theorem NewMemoryRange_refines:
  assumes "mm_rep st info rs" and "fresh_begin info rs b"
  shows "\<exists>st'. NewMemoryRange st info b p = Some st' \<and> mm_rep st' info (new_range b p rs)"
  by (rule NewMemoryRange_rep [OF assms])

theorem NewMemoryRange_refines_witness:
  "\<exists>st st'. mm_rep st 4096 [(65536, 3)] \<and> NewMemoryRange st 4096 (65536 + 3 * 4096) 5 = Some st' \<and>
    mm_rep st' 4096 [(65536, 8)]"
proof -
  obtain st where "mm_rep st 4096 [(65536, 3)]" using ex_inserted by (auto simp: mm_inv_def)
  moreover have "fresh_begin 4096 [(65536, 3)] (65536 + 3 * 4096)"
    by (simp add: fresh_begin_def header_apart_behind arch_consts)
  moreover have "new_range (65536 + 3 * 4096) 5 [(65536, 3)] = [(65536, 8)]"
    by (simp add: new_range_def mergeable_def arch_consts mod_HUGEPAGE_SIZE_def)
  ultimately show ?thesis using NewMemoryRange_refines [of st 4096 "[(65536, 3)]" "65536 + 3 * 4096" 5] by auto
qed

text \<open>
  \<open>TryMergeMemoryRangesWithPrev\<close> refines the merge of a range with its predecessor in address
  order: it merges exactly if the predecessor ends where the range begins and the pair is not an
  unaligned range before an aligned one, the predecessor then has the pages of both and the range
  leaves all lists; otherwise nothing changes.
\<close>

theorem TryMergeMemoryRangesWithPrev_refines:
  assumes "mm_rep st info rs" and "b \<in> fst ` set rs"
  shows "\<exists>st'. TryMergeMemoryRangesWithPrev st info b = Some st' \<and> mm_rep st' info (try_merge b rs)"
  by (rule TryMerge_rep [OF assms])

theorem TryMergeMemoryRangesWithPrev_refines_witness:
  "\<exists>st st'. mm_rep st 4096 [(65536, 3)] \<and> TryMergeMemoryRangesWithPrev st 4096 65536 = Some st' \<and>
    mm_rep st' 4096 [(65536, 3)]"
proof -
  obtain st where "mm_rep st 4096 [(65536, 3)]" using ex_inserted by (auto simp: mm_inv_def)
  moreover from TryMergeMemoryRangesWithPrev_refines [OF this, of 65536]
  have "\<exists>st'. TryMergeMemoryRangesWithPrev st 4096 65536 = Some st' \<and> mm_rep st' 4096 [(65536, 3)]" by simp
  ultimately show ?thesis by blast
qed

text \<open>
  C39: The macro \<open>HUGEPAGE_SIZE\<close> is not parenthesised, so \<open>begin % HUGEPAGE_SIZE\<close> is 0 for every
  page-aligned address: a page-aligned region is never split at a 2M boundary, and in every
  represented state the list \<open>Unaligned2M\<close> is empty, so asking it for pages fails.
\<close>

theorem HUGEPAGE_SIZE_never_splits:
  assumes "b mod PAGE_SIZE = 0" and "mm_rep st info rs"
  shows "InsertNewMemoryRange st info b p = (if p = 0 then Some st else NewMemoryRange st info b p) \<and>
    AllocatePagesFromList st info (info_Unaligned2M info) begin0 need exact = Some (st, False, 0, begin0)"
  using InsertNewMemoryRange_aligned [OF assms(1)] AllocatePages_Unaligned2M [OF assms(2)] by blast

theorem HUGEPAGE_SIZE_never_splits_witness:
  "InsertNewMemoryRange ex_state 4096 65536 1000 = NewMemoryRange ex_state 4096 65536 1000"
proof -
  have "(65536 :: u64) mod PAGE_SIZE = 0" "mm_rep ex_state 4096 []"
    using ex_state_inv by (simp_all add: arch_consts mm_inv_def)
  from HUGEPAGE_SIZE_never_splits [OF this, of 1000] show ?thesis by simp
qed

lemma AllocatePages_inexact_takes_all:
  assumes rep: "mm_rep st info [(b, p)]" and p: "p < need" and need: "need < PAGES_PER_HUGEPAGE"
  shows "\<exists>st1. AllocatePages st info begin0 need False = Some (st1, True, p, b) \<and> mm_rep st1 info [(b, 0)]"
proof -
  have "size_sentinel info b p = info_Aligned2M info"
    using mm_rep_class [OF rep, of b p] p need by (auto simp: arch_consts)
  moreover have "take_range b p need [(b, p)] = [(b, 0)]" "min p need = p"
    using p by (auto simp: take_range_def set_pages_def)
  ultimately show ?thesis
    using AllocatePagesFromList_inexact [OF rep sentinel_classes(2), where ?begin0.0 = begin0 and need = need] need
    by (auto simp: AllocatePages_def AllocatePages_Unaligned2M [OF rep])
qed

text \<open>
  An inexact allocation from a range that is too small hands out the whole range, header included,
  but keeps the range in the lists with 0 pages, and the next inexact request then reports success
  with 0 pages.
\<close>

theorem AllocatePages_inexact_empty_range:
  assumes "mm_rep st info [(b, p)]" and "p < need" and "need < PAGES_PER_HUGEPAGE"
  shows "\<exists>st1 st2. AllocatePages st info begin0 need False = Some (st1, True, p, b) \<and>
    mm_rep st1 info [(b, 0)] \<and> AllocatePages st1 info begin1 need False = Some (st2, True, 0, b)"
proof -
  obtain st1 where st1: "AllocatePages st info begin0 need False = Some (st1, True, p, b)" "mm_rep st1 info [(b, 0)]"
    using AllocatePages_inexact_takes_all [OF assms] by blast
  moreover have "0 < need" using assms(2) by (auto simp: word_less_nat_alt)
  ultimately show ?thesis using AllocatePages_inexact_takes_all [OF st1(2) _ assms(3)] by blast
qed

theorem AllocatePages_inexact_empty_range_witness:
  "\<exists>st st1 st2. mm_rep st 4096 [(65536, 3)] \<and> AllocatePages st 4096 0 4 False = Some (st1, True, 3, 65536) \<and>
    AllocatePages st1 4096 0 4 False = Some (st2, True, 0, 65536)"
proof -
  obtain st where st: "mm_rep st 4096 [(65536, 3)]" using ex_inserted by (auto simp: mm_inv_def)
  have "(3 :: u64) < 4" "4 < PAGES_PER_HUGEPAGE" by (simp_all add: arch_consts)
  from AllocatePages_inexact_empty_range [OF st this, of 0 0] st show ?thesis by blast
qed

end
