(* ===== verification/Page_Pool.thy ===== *)
theory Page_Pool
  imports Memory_Space
begin

text \<open>
  The page allocator as its clients see it: a pool of free pages that regions are given to and taken
  from. The interface is a locale; a client that serves a list of requests and later gives the
  regions back is verified in it once, and the interpretation rests it on \<open>AllocatePages\<close> and
  \<open>InsertNewMemoryRange\<close> of \<open>kernel/memman/MemoryRange.c\<close>.
\<close>

section \<open>A client of the pool\<close>

text \<open>Requests one after the other; the regions of the granted ones.\<close>

fun take_all :: "('s \<Rightarrow> u64 \<Rightarrow> ('s \<times> bool \<times> u64 \<times> u64) option) \<Rightarrow> u64 list \<Rightarrow> 's \<Rightarrow> ('s \<times> (u64 \<times> u64) list) option" where
  "take_all draw [] s = Some (s, [])"
| "take_all draw (n # ns) s =
     (case draw s n of
        None \<Rightarrow> None
      | Some (s', ok, m, a) \<Rightarrow>
          map_option (\<lambda>(s'', rs). (s'', if ok then (a, m) # rs else rs)) (take_all draw ns s'))"

fun give_all :: "('s \<Rightarrow> u64 \<Rightarrow> u64 \<Rightarrow> 's option) \<Rightarrow> (u64 \<times> u64) list \<Rightarrow> 's \<Rightarrow> 's option" where
  "give_all give [] s = Some s"
| "give_all give (r # rs) s = (case give s (fst r) (snd r) of None \<Rightarrow> None | Some s' \<Rightarrow> give_all give rs s')"

text \<open>Regions that share no page.\<close>

abbreviation apart_regions :: "(u64 \<times> u64) list \<Rightarrow> bool" where
  "apart_regions \<equiv> sorted_wrt (\<lambda>r r'. pages_of r \<inter> pages_of r' = {})"

section \<open>The interface\<close>

locale page_pool =
  fixes pool :: "'s \<Rightarrow> nat set \<Rightarrow> bool" and home :: "u64 \<times> u64 \<Rightarrow> bool"
    and give :: "'s \<Rightarrow> u64 \<Rightarrow> u64 \<Rightarrow> 's option" and draw :: "'s \<Rightarrow> u64 \<Rightarrow> ('s \<times> bool \<times> u64 \<times> u64) option"
  assumes give_ok: "pool s F \<Longrightarrow> home r \<Longrightarrow> pages_of r \<inter> F = {} \<Longrightarrow>
      \<exists>s'. give s (fst r) (snd r) = Some s' \<and> pool s' (F \<union> pages_of r)"
    and take_ok: "pool s F \<Longrightarrow> 0 < n \<Longrightarrow> \<exists>s' ok m a. draw s n = Some (s', ok, m, a) \<and>
      (if ok then m = n \<and> home (a, n) \<and> pages_of (a, n) \<subseteq> F \<and> pool s' (F - pages_of (a, n))
       else s' = s \<and> \<not> (\<exists>k. {k..<k + unat n} \<subseteq> F))"
begin

lemma take_all_ok:
  assumes "pool s F" "\<forall>n\<in>set ns. 0 < n"
  shows "\<exists>s' rs. take_all draw ns s = Some (s', rs) \<and> apart_regions rs \<and> (\<forall>r\<in>set rs. home r) \<and>
    free_pages rs \<subseteq> F \<and> pool s' (F - free_pages rs)"
  using assms
proof (induction ns arbitrary: s F)
  case Nil
  then show ?case by (simp add: free_pages_def)
next
  case (Cons n ns)
  from take_ok [OF Cons.prems(1), of n] Cons.prems(2)
  obtain s1 ok m a where t: "draw s n = Some (s1, ok, m, a)"
    and r: "if ok then m = n \<and> home (a, n) \<and> pages_of (a, n) \<subseteq> F \<and> pool s1 (F - pages_of (a, n)) else s1 = s"
    by (auto split: if_splits)
  define F1 where "F1 = (if ok then F - pages_of (a, n) else F)"
  have "pool s1 F1" using r Cons.prems(1) by (simp add: F1_def split: if_splits)
  from Cons.IH [OF this] Cons.prems(2) obtain s' rs where u: "take_all draw ns s1 = Some (s', rs)"
    and rs: "apart_regions rs" "\<forall>r\<in>set rs. home r" "free_pages rs \<subseteq> F1" "pool s' (F1 - free_pages rs)" by auto
  have "F1 - free_pages rs = F - free_pages (if ok then (a, m) # rs else rs)"
    using r by (auto simp: F1_def free_pages_def split: if_splits)
  moreover have "apart_regions (if ok then (a, m) # rs else rs)" "free_pages (if ok then (a, m) # rs else rs) \<subseteq> F"
    using r rs by (auto simp: F1_def free_pages_def split: if_splits)
  ultimately show ?case using t u r rs(2,4) by (auto split: if_splits)
qed

lemma give_all_ok:
  assumes "pool s F" "apart_regions rs" "\<forall>r\<in>set rs. home r" "free_pages rs \<inter> F = {}"
  shows "\<exists>s'. give_all give rs s = Some s' \<and> pool s' (F \<union> free_pages rs)"
  using assms
proof (induction rs arbitrary: s F)
  case Nil
  then show ?case by (simp add: free_pages_def)
next
  case (Cons r rs)
  have "pages_of r \<inter> F = {}" using Cons.prems(4) by (auto simp: free_pages_def)
  with give_ok [OF Cons.prems(1), of r] Cons.prems(3)
  obtain s1 where s1: "give s (fst r) (snd r) = Some s1" "pool s1 (F \<union> pages_of r)" by auto
  have "free_pages rs \<inter> (F \<union> pages_of r) = {}" using Cons.prems(2,4) by (fastforce simp: free_pages_def)
  from Cons.IH [OF s1(2) _ _ this] Cons.prems(2,3) s1(1) show ?case by (auto simp: free_pages_def Un_assoc)
qed

text \<open>Giving back what was taken restores the free pages.\<close>

lemma take_give:
  assumes "pool s F" "\<forall>n\<in>set ns. 0 < n"
  shows "\<exists>s' rs s''. take_all draw ns s = Some (s', rs) \<and> apart_regions rs \<and> free_pages rs \<subseteq> F \<and>
    pool s' (F - free_pages rs) \<and> give_all give rs s' = Some s'' \<and> pool s'' F"
proof -
  obtain s' rs where t: "take_all draw ns s = Some (s', rs)" "apart_regions rs" "\<forall>r\<in>set rs. home r"
    "free_pages rs \<subseteq> F" "pool s' (F - free_pages rs)" using take_all_ok [OF assms] by blast
  have "free_pages rs \<inter> (F - free_pages rs) = {}" "F - free_pages rs \<union> free_pages rs = F" using t(4) by auto
  with give_all_ok [OF t(5,2,3)] t show ?thesis by auto
qed

end

section \<open>The allocator provides it\<close>

text \<open>The pages no region may contain: page 0 and those of the bytes of \<open>MemoryInfo\<close>.\<close>

definition reserved :: "ptr \<Rightarrow> nat set" where
  "reserved info = insert 0 (page_no ` (\<lambda>j. info + of_nat j) ` {..<528})"

definition mm_pool :: "ptr \<Rightarrow> mm_state \<Rightarrow> nat set \<Rightarrow> bool" where
  "mm_pool info st F \<longleftrightarrow> mm_reach info st F \<and> F \<inter> reserved info = {}"

definition mm_home :: "ptr \<Rightarrow> u64 \<times> u64 \<Rightarrow> bool" where
  "mm_home info r \<longleftrightarrow> range_valid r \<and> pages_of r \<inter> reserved info = {}"

lemma page_no_offset:
  assumes "b mod PAGE_SIZE = 0" "unat d < 4096"
  shows "page_no (b + d) = page_no b"
proof -
  have "unat b = page_no b * 4096" using assms(1) by (rule unat_aligned)
  moreover have "unat b < 2 ^ 64" using unsigned_less [of b, where ?'a = nat] by simp
  ultimately have "unat b + 4096 \<le> 2 ^ 64" by simp
  then have "unat (b + d) = unat b + unat d" using assms(2) by (simp add: unat_word_ariths)
  then have "unat (b + d) = page_no b * 4096 + unat d" using \<open>unat b = _\<close> by simp
  then show ?thesis unfolding page_no_def [of "b + d"] using assms(2) by simp
qed

lemma mm_home_fresh:
  assumes "mm_home info (b, p)"
  shows "fresh_begin info [] b"
proof -
  have v: "b mod PAGE_SIZE = 0" "0 < unat p" using assms by (auto simp: mm_home_def range_valid_def word_less_nat_alt)
  then have "page_no b \<in> pages_of (b, p)" by (simp add: pages_of_def)
  then have no: "page_no b \<notin> reserved info" using assms by (auto simp: mm_home_def)
  have "header_apart info b"
    unfolding header_apart_def
  proof (intro allI impI notI)
    fix i j :: nat assume ij: "i < 288" "j < 528" "b + of_nat i = info + of_nat j"
    have "page_no (b + of_nat i) = page_no b"
      using ij(1) by (intro page_no_offset [OF v(1)]) (simp add: unat_of_nat take_bit_nat_eq_self)
    with ij have "page_no b \<in> reserved info" unfolding reserved_def by (metis image_eqI insertCI lessThan_iff)
    with no show False by simp
  qed
  moreover have "b \<noteq> NULL" using no by (auto simp: reserved_def page_no_def)
  ultimately show ?thesis using v(1) by (simp add: fresh_begin_def)
qed

interpretation mm: page_pool "mm_pool info" "mm_home info" "\<lambda>st. InsertNewMemoryRange st info"
    "\<lambda>st n. AllocatePages st info begin0 n True"
  for info begin0
proof
  show "\<exists>s'. InsertNewMemoryRange s info (fst r) (snd r) = Some s' \<and> mm_pool info s' (F \<union> pages_of r)"
    if p: "mm_pool info s F" and h: "mm_home info r" and d: "pages_of r \<inter> F = {}" for s F r
  proof -
    obtain b q where r: "r = (b, q)" by (cases r)
    have reach: "mm_reach info s F" using p by (simp add: mm_pool_def)
    have v: "range_valid (b, q)" and f: "fresh_begin info [] b" using h mm_home_fresh r by (auto simp: mm_home_def)
    obtain rs where rs: "mm_inv s info rs" "free_pages rs = F" using mm_reach_inv [OF reach] by blast
    have "fresh_begin info rs b"
      using fresh_begin_disjoint [OF f v] d rs r by (simp add: mm_inv_def)
    from mm_inv_insert [OF rs(1) v this] d rs(2) r
    obtain s' where s': "InsertNewMemoryRange s info b q = Some s'" by auto
    from mm_insert [OF reach v f _ s'] d r have "mm_reach info s' (F \<union> pages_of r)" by simp
    with s' p h r show ?thesis by (auto simp: mm_pool_def mm_home_def)
  qed
  show "\<exists>s' ok m a. AllocatePages s info begin0 n True = Some (s', ok, m, a) \<and>
      (if ok then m = n \<and> mm_home info (a, n) \<and> pages_of (a, n) \<subseteq> F \<and> mm_pool info s' (F - pages_of (a, n))
       else s' = s \<and> \<not> (\<exists>k. {k..<k + unat n} \<subseteq> F))"
    if p: "mm_pool info s F" "0 < n" for s F n
    using mm_reach_allocate [of info s F n begin0] p by (fastforce simp: mm_pool_def mm_home_def split: if_splits)
qed

section \<open>Properties\<close>

text \<open>
  C4: Allocations and frees compose. From a reachable state whose free pages avoid page 0 and the
  allocator's own structure, any list of exact requests is served without a fault with regions that
  are free and pairwise disjoint, and inserting all of them again leads to a reachable state with
  exactly the original free pages.
\<close>

theorem AllocatePages_free_roundtrip:
  assumes "mm_reach info st F" "F \<inter> reserved info = {}" "\<forall>n\<in>set ns. 0 < n"
  shows "\<exists>st' rs st''. take_all (\<lambda>st n. AllocatePages st info begin0 n True) ns st = Some (st', rs) \<and>
    apart_regions rs \<and> free_pages rs \<subseteq> F \<and> mm_reach info st' (F - free_pages rs) \<and>
    give_all (\<lambda>st. InsertNewMemoryRange st info) rs st' = Some st'' \<and> mm_reach info st'' F"
  using mm.take_give [of info st F ns begin0] assms by (auto simp: mm_pool_def)

theorem AllocatePages_free_roundtrip_witness:
  "\<exists>st st' rs st''. mm_reach 4096 st {16..<19} \<and>
    take_all (\<lambda>st n. AllocatePages st 4096 0 n True) [1, 5, 2] st = Some (st', rs) \<and> apart_regions rs \<and>
    give_all (\<lambda>st. InsertNewMemoryRange st 4096) rs st' = Some st'' \<and> mm_reach 4096 st'' {16..<19}"
proof -
  obtain st where st: "mm_reach 4096 st {16..<19}" using ex_reach by blast
  have "page_no (4096 + of_nat j) = 1" if "j < 528" for j :: nat
    using that by (simp add: page_no_def unat_word_ariths unat_of_nat take_bit_nat_eq_self)
  then have "{16..<19} \<inter> reserved 4096 = {}" by (auto simp: reserved_def)
  from AllocatePages_free_roundtrip [OF st this, of "[1, 5, 2]" 0] st show ?thesis by auto
qed

end
