(* ===== verification/Best_Steps.thy ===== *)
theory Best_Steps
  imports Skip_List
begin

text \<open>
  \<open>SkipListBest\<close> as a machine that makes one test of its loops in a step. \<open>SkipListBest\<close> of \<open>Skip_List\<close> is
  \<open>None\<close> both for an access outside the heap and for a search that does not end; the machine tells
  the two apart: it reaches \<open>Fault\<close>, or it never stops. It returns exactly what the function does.
\<close>

section \<open>The steps\<close>

datatype best_state =
    Skipping nat ptr
  | Scanning ptr u64
  | Returned ptr
  | Fault

text \<open>The condition behind the loops.\<close>

definition best_end :: "sl_heap \<Rightarrow> ptr \<Rightarrow> u64 \<Rightarrow> bool \<Rightarrow> ptr \<Rightarrow> best_state" where
  "best_end h sentinel weight exact node = (case get_weight h node of
       None \<Rightarrow> Fault
     | Some w \<Rightarrow> Returned (if node = sentinel \<or> (exact \<and> weight > w) then NULL else node))"

text \<open>
  \<open>Skipping i node\<close> is the test of the inner loop on level \<open>i\<close>, and on level 0 the entry of the second
  loop, whose test is \<open>Scanning node weightDiff\<close>.
\<close>

fun best_step :: "sl_heap \<Rightarrow> ptr \<Rightarrow> u64 \<Rightarrow> bool \<Rightarrow> best_state \<Rightarrow> best_state" where
  "best_step h sentinel weight exact (Skipping 0 node) = Scanning node (- 1)"
| "best_step h sentinel weight exact (Skipping (Suc i) node) = (case get_next h node (Suc i) of
       None \<Rightarrow> Fault
     | Some next \<Rightarrow> if next = NULL then Skipping i node
         else (case get_weight h next of
             None \<Rightarrow> Fault
           | Some w \<Rightarrow> if w < weight then Skipping (Suc i) next else Skipping i node))"
| "best_step h sentinel weight exact (Scanning node weightDiff) = (case get_next h node 0 of
       None \<Rightarrow> Fault
     | Some next \<Rightarrow> if next = NULL then best_end h sentinel weight exact node
         else (case get_weight h next of
             None \<Rightarrow> Fault
           | Some w \<Rightarrow> let diff = weight_diff w weight
               in if \<not> exact \<and> diff > weightDiff then best_end h sentinel weight exact node
                  else if exact \<and> w \<ge> weight then best_end h sentinel weight exact next
                  else Scanning next diff))"
| "best_step h sentinel weight exact x = x"

definition best_start :: "ptr \<Rightarrow> best_state" where
  "best_start sentinel = (if sentinel = NULL then Returned NULL else Skipping (SKIPLIST_MAX_LEVELS - 1) sentinel)"

text \<open>The search after \<open>n\<close> steps, and a search that has neither returned nor faulted after any number.\<close>

definition best_after :: "sl_heap \<Rightarrow> ptr \<Rightarrow> u64 \<Rightarrow> bool \<Rightarrow> nat \<Rightarrow> best_state" where
  "best_after h sentinel weight exact n = (best_step h sentinel weight exact ^^ n) (best_start sentinel)"

fun best_stopped :: "best_state \<Rightarrow> bool" where
  "best_stopped (Returned p) = True"
| "best_stopped Fault = True"
| "best_stopped _ = False"

section \<open>The machine and the function\<close>

text \<open>What the function makes of a state; no step changes it.\<close>

definition best_finish :: "sl_heap \<Rightarrow> ptr \<Rightarrow> u64 \<Rightarrow> bool \<Rightarrow> ptr \<Rightarrow> ptr option" where
  "best_finish h sentinel weight exact node = do {
     w \<leftarrow> get_weight h node;
     if node = sentinel \<or> (exact \<and> weight > w) then Some NULL else Some node }"

fun best_meaning :: "sl_heap \<Rightarrow> ptr \<Rightarrow> u64 \<Rightarrow> bool \<Rightarrow> best_state \<Rightarrow> ptr option" where
  "best_meaning h s w e (Skipping i q) = do {
     r \<leftarrow> best_skip h w i q; r' \<leftarrow> best_scan h w e r (- 1); best_finish h s w e r' }"
| "best_meaning h s w e (Scanning q d) = do { r \<leftarrow> best_scan h w e q d; best_finish h s w e r }"
| "best_meaning h s w e (Returned p) = Some p"
| "best_meaning h s w e Fault = None"

lemma best_meaning_end: "best_meaning h s w e (best_end h s w e q) = best_finish h s w e q"
  by (auto simp: best_end_def best_finish_def split: option.splits)

lemma best_meaning_step: "best_meaning h s w e (best_step h s w e x) = best_meaning h s w e x"
proof (cases x)
  case (Skipping i q)
  then show ?thesis
  proof (cases i)
    case (Suc j)
    have "skip_lighter h (Suc j) w q = (case get_next h q (Suc j) of None \<Rightarrow> None | Some next \<Rightarrow>
        if next = NULL then Some q else (case get_weight h next of None \<Rightarrow> None | Some w' \<Rightarrow>
          if w' < w then skip_lighter h (Suc j) w next else Some q))"
      by (subst skip_lighter.simps) (auto split: option.splits)
    then show ?thesis using Skipping Suc by (auto split: option.splits)
  qed simp
next
  case (Scanning q d)
  have "best_scan h w e q d = (case get_next h q 0 of None \<Rightarrow> None | Some next \<Rightarrow>
      if next = NULL then Some q else (case get_weight h next of None \<Rightarrow> None | Some w' \<Rightarrow>
        if \<not> e \<and> weight_diff w' w > d then Some q else if e \<and> w' \<ge> w then Some next
        else best_scan h w e next (weight_diff w' w)))"
    by (subst best_scan.simps) (auto simp: Let_def split: option.splits)
  then show ?thesis using Scanning by (auto simp: Let_def best_meaning_end split: option.splits)
qed simp_all

lemma best_meaning_steps: "best_meaning h s w e ((best_step h s w e ^^ n) x) = best_meaning h s w e x"
  by (induction n) (simp_all add: best_meaning_step)

lemma best_meaning_start: "best_meaning h s w e (best_start s) = SkipListBest h s w e"
  by (simp add: best_start_def SkipListBest_def best_finish_def [abs_def])

text \<open>Where the function has a value, the machine comes to it.\<close>

definition leads :: "sl_heap \<Rightarrow> ptr \<Rightarrow> u64 \<Rightarrow> bool \<Rightarrow> best_state \<Rightarrow> best_state \<Rightarrow> bool" where
  "leads h s w e x y \<longleftrightarrow> (\<exists>n. (best_step h s w e ^^ n) x = y)"

lemma leads_refl: "leads h s w e x x"
  unfolding leads_def by (rule exI [of _ 0]) simp

lemma leads_step: "leads h s w e (best_step h s w e x) y \<Longrightarrow> leads h s w e x y"
  unfolding leads_def by (metis comp_apply funpow_Suc_right)

lemma leads_trans: "leads h s w e x y \<Longrightarrow> leads h s w e y z \<Longrightarrow> leads h s w e x z"
  unfolding leads_def by (metis comp_apply funpow_add)

lemma skip_lighter_leads:
  assumes "skip_lighter h i w q = Some r" "i = Suc j"
  shows "leads h s w e (Skipping (Suc j) q) (Skipping j r)"
proof -
  let ?P = "\<lambda>h i w q r. \<forall>j. i = Suc j \<longrightarrow> leads h s w e (Skipping (Suc j) q) (Skipping j r)"
  have "?P h i w q r"
  proof (rule skip_lighter.raw_induct [OF _ assms(1), of ?P], intro allI impI)
    fix f h i w q r j
    assume IH: "\<And>h i w q r. f h i w q = Some r \<Longrightarrow> ?P h i w q r" and j: "i = Suc j"
      and run: "get_next h q i \<bind> (\<lambda>next. if next = NULL then Some q
        else get_weight h next \<bind> (\<lambda>w'. if w' < w then f h i w next else Some q)) = Some r"
    obtain n where n: "get_next h q (Suc j) = Some n" using run j by (cases "get_next h q i") auto
    show "leads h s w e (Skipping (Suc j) q) (Skipping j r)"
    proof (cases "n = NULL")
      case True
      then have "best_step h s w e (Skipping (Suc j) q) = Skipping j r" using run n j by simp
      then show ?thesis using leads_step leads_refl by metis
    next
      case False
      obtain w' where w': "get_weight h n = Some w'" using run n j False by (cases "get_weight h n") auto
      show ?thesis
      proof (cases "w' < w")
        case True
        then have "f h (Suc j) w n = Some r" using run n w' False j by simp
        from IH [OF this] have "leads h s w e (Skipping (Suc j) n) (Skipping j r)" by blast
        then show ?thesis using n w' False True by (intro leads_step [of h s w e "Skipping (Suc j) q"]) simp
      next
        case False
        then have "best_step h s w e (Skipping (Suc j) q) = Skipping j r" using run n w' j \<open>n \<noteq> NULL\<close> by simp
        then show ?thesis using leads_step leads_refl by metis
      qed
    qed
  qed
  with assms(2) show ?thesis by blast
qed

lemma best_skip_leads: "best_skip h w i q = Some r \<Longrightarrow> leads h s w e (Skipping i q) (Scanning r (- 1))"
proof (induction i arbitrary: q)
  case 0
  then show ?case by (intro leads_step [of h s w e "Skipping 0 q"]) (simp add: leads_refl)
next
  case (Suc i)
  then obtain q' where q': "skip_lighter h (Suc i) w q = Some q'" "best_skip h w i q' = Some r"
    by (auto simp: bind_eq_Some_conv)
  from leads_trans [OF skip_lighter_leads [OF q'(1) refl] Suc.IH [OF q'(2)]] show ?case .
qed

lemma best_scan_leads:
  assumes "best_scan h w e q d = Some r"
  shows "leads h s w e (Scanning q d) (best_end h s w e r)"
proof (rule best_scan.raw_induct [OF _ assms, of "\<lambda>h w e q d r. leads h s w e (Scanning q d) (best_end h s w e r)"])
  fix f h w e q d r
  assume IH: "\<And>h w e q d r. f h w e q d = Some r \<Longrightarrow> leads h s w e (Scanning q d) (best_end h s w e r)"
    and run: "get_next h q 0 \<bind> (\<lambda>next. if next = NULL then Some q else get_weight h next \<bind>
      (\<lambda>w'. let diff = weight_diff w' w in if \<not> e \<and> d < diff then Some q else if e \<and> w \<le> w' then Some next
        else f h w e next diff)) = Some r"
  obtain n where n: "get_next h q 0 = Some n" using run by (cases "get_next h q 0") auto
  have stop: "leads h s w e (Scanning q d) (best_end h s w e r)"
    if "best_step h s w e (Scanning q d) = best_end h s w e r"
    using leads_step [of h s w e "Scanning q d"] leads_refl that by metis
  show "leads h s w e (Scanning q d) (best_end h s w e r)"
  proof (cases "n = NULL")
    case True
    then show ?thesis using run n by (intro stop) simp
  next
    case False
    obtain w' where w': "get_weight h n = Some w'" using run n False by (cases "get_weight h n") auto
    show ?thesis
    proof (cases "(\<not> e \<and> d < weight_diff w' w) \<or> e \<and> w \<le> w'")
      case True
      then show ?thesis using run n w' False by (intro stop) (auto simp: Let_def)
    next
      case go: False
      then have "f h w e n (weight_diff w' w) = Some r" using run n w' False by (auto simp: Let_def split: if_splits)
      from IH [OF this] show ?thesis
        using n w' False go by (intro leads_step [of h s w e "Scanning q d"]) (auto simp: Let_def)
    qed
  qed
qed

text \<open>The machine returns what the function returns.\<close>

theorem SkipListBest_steps:
  "SkipListBest h s w e = Some r \<longleftrightarrow> (\<exists>n. best_after h s w e n = Returned r)"
proof
  assume run: "SkipListBest h s w e = Some r"
  show "\<exists>n. best_after h s w e n = Returned r"
  proof (cases "s = NULL")
    case True
    then show ?thesis using run by (auto simp: best_after_def best_start_def SkipListBest_def intro: exI [of _ 0])
  next
    case False
    then obtain q r' where q: "best_skip h w (SKIPLIST_MAX_LEVELS - 1) s = Some q" "best_scan h w e q (- 1) = Some r'"
      and fin: "best_end h s w e r' = Returned r"
      using run by (auto simp: SkipListBest_def best_end_def bind_eq_Some_conv split: if_splits)
    have "leads h s w e (Skipping (SKIPLIST_MAX_LEVELS - 1) s) (best_end h s w e r')"
      by (rule leads_trans [OF best_skip_leads [OF q(1)] best_scan_leads [OF q(2)]])
    then have "leads h s w e (best_start s) (Returned r)" using False by (simp add: best_start_def fin)
    then show ?thesis by (auto simp: leads_def best_after_def)
  qed
next
  assume "\<exists>n. best_after h s w e n = Returned r"
  then obtain n where n: "(best_step h s w e ^^ n) (best_start s) = Returned r" by (auto simp: best_after_def)
  have "best_meaning h s w e (best_start s) = best_meaning h s w e (Returned r)"
    unfolding n [symmetric] by (rule best_meaning_steps [symmetric])
  then show "SkipListBest h s w e = Some r" by (simp add: best_meaning_start)
qed

text \<open>A search that never stops has no value.\<close>

lemma SkipListBest_never_stops:
  assumes "\<And>n. \<not> best_stopped (best_after h s w e n)"
  shows "SkipListBest h s w e = None"
proof (cases "SkipListBest h s w e")
  case (Some r)
  then obtain n where "best_after h s w e n = Returned r" using SkipListBest_steps by blast
  with assms [of n] show ?thesis by simp
qed

end
