(* ===== verification/Range_Reuse.thy ===== *)
theory Range_Reuse
  imports Memory_Space Best_Steps
begin

text \<open>
  What happens when the pages of an inexact allocation are given back. From a range with too few pages
  \<open>AllocatePages\<close> takes all and leaves the range in the lists, with 0 pages and its nodes inside the pages;
  \<open>InsertNewMemoryRange\<close> of the same pages initialises these nodes again while the lists still lead to
  them, and inserts each behind itself: the next search does not end.
\<close>

section \<open>A node inserted a second time\<close>

text \<open>The sentinel \<open>s\<close> leads to the node \<open>x\<close> and to no other, and \<open>x\<close> at most to itself.\<close>

definition pointing :: "sl_heap \<Rightarrow> ptr \<Rightarrow> ptr \<Rightarrow> bool" where
  "pointing h s x \<longleftrightarrow> node_at h s \<and> node_at h x \<and> s \<noteq> x \<and> (\<forall>i<7. nx h i s \<in> {NULL, x} \<and> nx h i x \<in> {NULL, x}) \<and>
     nx h 0 s = x"

lemma pointingD:
  assumes "pointing h s x"
  shows "node_at h s" "node_at h x" "s \<noteq> x" "i < 7 \<Longrightarrow> nx h i s = NULL \<or> nx h i s = x"
    "i < 7 \<Longrightarrow> nx h i x = NULL \<or> nx h i x = x" "nx h 0 s = x"
  using assms by (auto simp: pointing_def)

lemma linked_single_pointing:
  assumes "linked h s [x]" "\<And>i. i < 7 \<Longrightarrow> nx h' i s = nx h i s" "\<And>i. i < 7 \<Longrightarrow> nx h' i x = NULL"
    and "node_at h' s" "node_at h' x"
  shows "pointing h' s x"
proof -
  have "nx h i s = (if i < hgt h x then x else NULL)" if "i < 7" for i
    using linkedD(4) [OF assms(1) that] by (auto simp: lvl_def dll_Cons split: if_splits)
  moreover have "0 < hgt h x" "s \<noteq> x" using linkedD(1,5) [OF assms(1)] by auto
  ultimately show ?thesis using assms(2-5) by (auto simp: pointing_def)
qed

lemma skip_lighter_stops:
  assumes "pointing h s x" "\<not> wt h x < w" "i < 7"
  shows "skip_lighter h i w s = Some s"
proof -
  note p = pointingD [OF assms(1)]
  have "skip_lighter h i w s = Some s" if "nx h i s = n" "n = NULL \<or> n = x" for n
    using that p(1,2) assms(2,3) by (subst skip_lighter.simps) (auto simp: heap_simps)
  with p(4) [OF assms(3)] show ?thesis by blast
qed

lemma FindPrevs_loop_stops:
  assumes "pointing h s x" "\<not> wt h x < w"
  shows "n \<le> 7 \<Longrightarrow> length path = 7 \<Longrightarrow>
    SkipListFindPrevs_loop h w n s path = Some (replicate n s @ drop n path)"
proof (induction n arbitrary: path)
  case (Suc n)
  have "drop n (path[n := s]) = s # drop (Suc n) path"
    using Suc.prems by (simp add: Cons_nth_drop_Suc [symmetric])
  then show ?case
    using Suc skip_lighter_stops [OF assms, of n] by (simp add: replicate_app_Cons_same)
qed simp

lemma insert_levels_pointing:
  assumes "pointing h s x" "i + k \<le> 7"
  shows "\<exists>h'. insert_levels h (replicate 7 s) x i k = Some h' \<and> pointing h' s x \<and> same_data h h' \<and>
    (\<forall>p. p \<notin> {s, x} \<longrightarrow> h' p = h p) \<and> (\<forall>j. j < i \<or> i + k \<le> j \<longrightarrow> nx h' j x = nx h j x \<and> pv h' j x = pv h j x) \<and>
    (i = 0 \<and> 0 < k \<longrightarrow> nx h' 0 x = x \<and> pv h' 0 x = x)"
  using assms
proof (induction k arbitrary: h i)
  case 0
  then show ?case by simp
next
  case (Suc k)
  note p = pointingD [OF Suc.prems(1)]
  define n where "n = nx h i s"
  define h1 where "h1 = upd_prev (upd_next (upd_next h x i n) s i x) x i s"
  define h2 where "h2 = (if n \<noteq> NULL then upd_prev h1 x i x else h1)"
  have i: "i < 7" using Suc.prems(2) by simp
  have n: "n = NULL \<or> n = x" using p(4) [OF i] by (simp add: n_def)
  have run: "insert_level h (replicate 7 s) x i = Some h2"
    using insert_level_eq [OF p(2,1) _ i, of "replicate 7 s"] p(2) n i by (auto simp: h2_def h1_def n_def Let_def)
  have nx2: "nx h2 j q = (if j = i \<and> q = s then x else if j = i \<and> q = x then n else nx h j q)" for j q
    using p(1-3) by (auto simp: h2_def h1_def heap_simps)
  have pv2: "pv h2 j q = (if j = i \<and> q = x then (if n = NULL then s else x) else pv h j q)" for j q
    using p(1-3) n by (auto simp: h2_def h1_def heap_simps)
  have d2: "same_data h h2" by (auto simp: h2_def h1_def same_data_def heap_simps fun_eq_iff)
  have "pointing h2 s x" using p n d2 unfolding pointing_def by (auto simp: nx2 same_data_def)
  then obtain h' where h': "insert_levels h2 (replicate 7 s) x (Suc i) k = Some h'" "pointing h' s x" "same_data h2 h'"
    "\<forall>p. p \<notin> {s, x} \<longrightarrow> h' p = h2 p" "\<forall>j. j < Suc i \<or> Suc i + k \<le> j \<longrightarrow> nx h' j x = nx h2 j x \<and> pv h' j x = pv h2 j x"
    using Suc.IH [of h2 "Suc i"] Suc.prems(2) by auto
  have "nx h' 0 x = x \<and> pv h' 0 x = x" if "i = 0"
    using h'(5) that p(3,6) p(2) by (auto simp: nx2 pv2 n_def node_at_def)
  moreover have "h2 p = h p" if "p \<notin> {s, x}" for p
    using that by (auto simp: h2_def h1_def upd_next_simps upd_prev_simps)
  ultimately show ?case
    using h' run same_data_trans [OF d2 h'(3)] p(3) by (auto simp: nx2 pv2)
qed


lemma clear_top_pointing:
  assumes "pointing h s x"
  shows "pointing (clear_top h x k) s x"
  using pointingD [OF assms] assms
  by (auto simp: pointing_def clear_top_def heap_simps)

lemma SkipListInsert_pointing:
  assumes p: "pointing h s x" and k: "0 < k"
  shows "\<exists>h'. SkipListInsert h s x k = Some h' \<and> pointing h' s x \<and> nx h' 0 x = x \<and> pv h' 0 x = x \<and>
    same_data h h' \<and> (\<forall>q. q \<notin> {s, x} \<longrightarrow> h' q = h q)"
proof -
  define h0 where "h0 = clear_top h x k"
  note d = pointingD [OF p]
  have "SkipListFindPrevs h s (replicate 7 NULL) (wt h x) = Some (replicate 7 s)"
    using FindPrevs_loop_stops [OF p, of "wt h x" 7] by (simp add: SkipListFindPrevs_def SKIPLIST_MAX_LEVELS_def)
  then have "SkipListInsert h s x k = insert_levels h0 (replicate 7 s) x 0 (min k 7)"
    using d(1,2) clear_top_simps(1) [OF d(2)]
    by (simp add: SkipListInsert_def SKIPLIST_MAX_LEVELS_def heap_simps h0_def node_at_def)
  moreover obtain h' where h': "insert_levels h0 (replicate 7 s) x 0 (min k 7) = Some h'" "pointing h' s x" "same_data h0 h'"
    "\<forall>q. q \<notin> {s, x} \<longrightarrow> h' q = h0 q" "nx h' 0 x = x" "pv h' 0 x = x"
    using insert_levels_pointing [OF clear_top_pointing [OF p], of 0 "min k 7" k] k by (auto simp: h0_def)
  moreover have "h' q = h q" if "q \<notin> {s, x}" for q
    using h'(4) that clear_top_simps(5) by (simp add: h0_def)
  ultimately show ?thesis
    using same_data_trans [OF clear_top_simps(2) h'(3) [unfolded h0_def]] by auto
qed

text \<open>The three calls of \<open>SetMemoryRangeBegin\<close> and \<open>SetMemoryRangePages\<close>, on such a node of height 0.\<close>

lemma place_pointing:
  assumes p: "pointing h s x" and z: "hgt h x = 0" and k: "0 < k"
  shows "\<exists>h1 h'. SetSkipListWeight h x w = Some h1 \<and> SkipListRemove h1 x = Some h1 \<and> SkipListInsert h1 s x k = Some h' \<and>
    pointing h' s x \<and> nx h' 0 x = x \<and> pv h' 0 x = x \<and> wt h' = (wt h)(x := w) \<and> pl h' = pl h \<and>
    node_at h' = node_at h \<and> (\<forall>q. q \<notin> {s, x} \<longrightarrow> h' q = h q)"
proof -
  obtain h1 where h1: "SetSkipListWeight h x w = Some h1" "nx h1 = nx h" "hgt h1 = hgt h" "pl h1 = pl h"
    "wt h1 = (wt h)(x := w)" "node_at h1 = node_at h" "\<forall>q. q \<noteq> x \<longrightarrow> h1 q = h q"
    using SetSkipListWeight_eq [OF pointingD(2) [OF p], of w] by auto
  have "pointing h1 s x" using p h1 by (simp add: pointing_def)
  from SkipListInsert_pointing [OF this k] obtain h' where "SkipListInsert h1 s x k = Some h'" "pointing h' s x"
    "nx h' 0 x = x" "pv h' 0 x = x" "same_data h1 h'" "\<forall>q. q \<notin> {s, x} \<longrightarrow> h' q = h1 q" by blast
  moreover have "SkipListRemove h1 x = Some h1"
    using SkipListRemove_unlinked [of h1 x] pointingD(2) [OF p] z h1 by simp
  ultimately show ?thesis using h1 by (auto simp: same_data_def)
qed

text \<open>
  The exact search for more than the node has goes round in it: every step leads from one of these states to
  another.
\<close>

fun circling :: "ptr \<Rightarrow> ptr \<Rightarrow> best_state \<Rightarrow> bool" where
  "circling s x (Skipping i q) \<longleftrightarrow> i < 7 \<and> (q = s \<or> q = x)"
| "circling s x (Scanning q d) \<longleftrightarrow> q = s \<or> q = x"
| "circling s x _ \<longleftrightarrow> False"

lemma circling_step:
  assumes p: "pointing h s x" "nx h 0 x = x" "wt h x < w" and y: "circling s x y"
  shows "circling s x (best_step h s w True y)"
proof (cases y)
  case (Skipping i q)
  note d = pointingD [OF p(1)]
  have q: "q = s \<or> q = x" "node_at h q" "i < 7" using y Skipping d(1,2) by auto
  show ?thesis
  proof (cases i)
    case (Suc j)
    then have "nx h (Suc j) q = NULL \<or> nx h (Suc j) q = x" using q d(4,5) [of "Suc j"] by auto
    then show ?thesis using q Skipping Suc d(2) by (auto simp: heap_simps split: option.splits if_splits)
  qed (use q Skipping in simp)
next
  case (Scanning q d)
  note d = pointingD [OF p(1)]
  have "node_at h q" "nx h 0 q = x" using y Scanning d(1,2,6) p(2) by auto
  then show ?thesis using Scanning d(2) p(3) by (auto simp: heap_simps Let_def node_at_def)
qed (use y in simp_all)

lemma search_never_stops:
  assumes p: "pointing h s x" "nx h 0 x = x" "wt h x < w"
  shows "\<not> best_stopped (best_after h s w True n)"
proof -
  have "circling s x (best_after h s w True n)"
  proof (induction n)
    case 0
    have "s \<noteq> NULL" using pointingD(1) [OF p(1)] by (simp add: node_at_def)
    then show ?case by (simp add: best_after_def best_start_def SKIPLIST_MAX_LEVELS_def)
  next
    case (Suc n)
    then show ?case using circling_step [OF p] by (simp add: best_after_def)
  qed
  then show ?thesis by (cases "best_after h s w True n") simp_all
qed

section \<open>A range inserted a second time\<close>

lemma pointing_frame:
  assumes "pointing h s x" "h' s = h s" "h' x = h x"
  shows "pointing h' s x"
  using assms by (simp add: pointing_def node_at_def nx_def)

text \<open>The lists that hold a single small range.\<close>

lemma single_range_lists:
  assumes rep: "mm_rep st info [(b, q)]" and q: "q < 512"
  shows "linked (sls st) (info_Addr info) [addr_node b]" "linked (sls st) (info_Aligned2M info) [size_node b]"
    "skl (sls st) (info_Unaligned2M info) []"
    "distinct [info_Addr info, info_Aligned2M info, info_Unaligned2M info, addr_node b, size_node b]"
    "b \<noteq> NULL" "b mod PAGE_SIZE = 0"
proof -
  obtain L where L: "mm_lists st info L [b]" and pg: "pg st b = q" using rep by (auto simp: mm_rep_def)
  note cls = mm_rep_class [OF rep, of b q]
  have "set (L (info_Aligned2M info)) = {size_node b}" "set (L (info_Unaligned2M info)) = {}"
    using mm_listsD(3) [OF L] cls q pg by auto
  moreover have d: "skl (sls st) t (L t)" if "t \<in> sentinels info" for t using mm_listsD(5) [OF L that] .
  moreover have "distinct (L (info_Aligned2M info))"
    using d [of "info_Aligned2M info"] by (simp add: skl_def linked_def)
  moreover have "xs = [a]" if "set xs = {a}" "distinct xs" for xs :: "ptr list" and a
    using that by (cases xs rule: remdups_adj.cases) auto
  ultimately have LS: "L (info_Aligned2M info) = [size_node b]" "L (info_Unaligned2M info) = []" by auto
  have LA: "L (info_Addr info) = [addr_node b]" using mm_listsD(2) [OF L] by simp
  show "linked (sls st) (info_Addr info) [addr_node b]" "linked (sls st) (info_Aligned2M info) [size_node b]"
    "skl (sls st) (info_Unaligned2M info) []"
    using d [of "info_Addr info"] d [of "info_Aligned2M info"] d [of "info_Unaligned2M info"] LS LA
    by (auto simp: skl_def)
  have apart: "set (s # L s) \<inter> set (t # L t) = {}" if "s \<in> sentinels info" "t \<in> sentinels info" "s \<noteq> t" for s t
    using mm_listsD(1) [OF L] that by (auto simp: list_family_def)
  have head: "s \<notin> set (L s)" if "s \<in> sentinels info" for s
    using d [OF that] by (simp add: skl_def linked_def)
  have S: "info_Addr info \<in> sentinels info" "info_Aligned2M info \<in> sentinels info" "info_Unaligned2M info \<in> sentinels info"
    "info_Addr info \<noteq> info_Aligned2M info" "info_Addr info \<noteq> info_Unaligned2M info"
    by (simp_all, simp_all add: layout_defs)
  show "distinct [info_Addr info, info_Aligned2M info, info_Unaligned2M info, addr_node b, size_node b]"
    using apart [OF S(1,2,4)] apart [OF S(1,3,5)] apart [OF S(2,3)] head [OF S(1)] head [OF S(2)] LS LA by auto
  show "b \<noteq> NULL" "b mod PAGE_SIZE = 0" using range_okD(2,3) [OF mm_listsD(4) [OF L]] by simp_all
qed

lemma pages_not_adjacent_to_itself:
  assumes "p \<noteq> 0" "p < 512"
  shows "b + p * PAGE_SIZE \<noteq> (b :: u64)"
proof
  assume "b + p * PAGE_SIZE = b"
  then have "unat (p * 4096) = 0" by (simp add: arch_consts)
  moreover have "unat p < 512" using assms(2) by (simp add: word_less_nat_alt)
  ultimately have "unat p = 0" by (simp add: unat_word_ariths)
  with assms(1) show False by (simp add: unat_eq_zero)
qed

text \<open>Both nodes of the range, initialised again while a sentinel still leads to each.\<close>

lemma reinitialised_nodes:
  assumes rep: "mm_rep st info [(b, q)]" and q: "q < 512"
  shows "pointing (fresh_heap (sls st) b) (info_Addr info) (addr_node b)"
    "pointing (fresh_heap (sls st) b) (info_Aligned2M info) (size_node b)"
    "skl (fresh_heap (sls st) b) (info_Unaligned2M info) []"
proof -
  note l = single_range_lists [OF rep q]
  have links: "nx (fresh_heap (sls st) b) i p = (if p \<in> {addr_node b, size_node b} then NULL else nx (sls st) i p)" for i p
    by (simp add: fresh_heap_def nx_def zero_node_def)
  have old: "fresh_heap (sls st) b p = sls st p" if "p \<notin> {addr_node b, size_node b}" for p
    using that by (simp add: fresh_heap_def)
  have node: "node_at (fresh_heap (sls st) b) p" if "node_at (sls st) p" for p
    using that by (simp add: fresh_heap_def node_at_def)
  have n: "node_at (sls st) (info_Addr info)" "node_at (sls st) (addr_node b)"
    "node_at (sls st) (info_Aligned2M info)" "node_at (sls st) (size_node b)"
    using linkedD(2) [OF l(1)] linkedD(2) [OF l(2)] by auto
  show "pointing (fresh_heap (sls st) b) (info_Addr info) (addr_node b)"
    by (rule linked_single_pointing [OF l(1)]) (use l(4) node n in \<open>auto simp: links\<close>)
  show "pointing (fresh_heap (sls st) b) (info_Aligned2M info) (size_node b)"
    by (rule linked_single_pointing [OF l(2)]) (use l(4) node n in \<open>auto simp: links\<close>)
  show "skl (fresh_heap (sls st) b) (info_Unaligned2M info) []"
    using l(4) by (intro skl_frame [OF l(3)] old) auto
qed

lemma SetMemoryRangeBegin_again:
  assumes r: "get_range st b = Some r" "AddrNode r = x"
    and x: "pointing (sls st) (info_Addr info) x" "hgt (sls st) x = 0"
  shows "\<exists>st'. SetMemoryRangeBegin st info b a = Some st' \<and> nx (sls st') 0 x = x \<and> pv (sls st') 0 x = x \<and>
    pl (sls st') = pl (sls st) \<and> node_at (sls st') = node_at (sls st) \<and>
    (\<forall>p. p \<notin> {info_Addr info, x} \<longrightarrow> sls st' p = sls st p) \<and> mrs st' = (mrs st)(b \<mapsto> r\<lparr>Begin := a\<rparr>)"
  using place_pointing [OF x RandomMemoryRangeHeight_pos, of a MEMRANGE_ADDR_P SKIPLIST_MAX_LEVELS "rnd st"] r
  by (auto simp: SetMemoryRangeBegin_def Let_def split_beta)

lemma SetMemoryRangePages_again:
  assumes r: "get_range st b = Some r" "SizeNode r = x"
    and x: "pointing (sls st) t x" "hgt (sls st) x = 0" and t: "t = size_sentinel info (Begin r) p"
  shows "\<exists>st'. SetMemoryRangePages st info b p = Some st' \<and> pointing (sls st') t x \<and> nx (sls st') 0 x = x \<and>
    wt (sls st') x = p \<and> pl (sls st') = pl (sls st) \<and> node_at (sls st') = node_at (sls st) \<and>
    (\<forall>q. q \<notin> {t, x} \<longrightarrow> sls st' q = sls st q) \<and> mrs st' = (mrs st)(b \<mapsto> r\<lparr>Pages := p\<rparr>)"
proof -
  have "MemoryRangeToSentinel (st\<lparr>mrs := (mrs st)(b \<mapsto> r\<lparr>Pages := p\<rparr>)\<rparr>) info b = Some t"
    using MemoryRangeToSentinel_eq [of "st\<lparr>mrs := (mrs st)(b \<mapsto> r\<lparr>Pages := p\<rparr>)\<rparr>" b "r\<lparr>Pages := p\<rparr>" info] r(1) t
    by (auto simp: get_range_def split: if_splits)
  then show ?thesis
    using place_pointing [OF x RandomMemoryRangeHeight_pos, of p MEMRANGE_SIZE_P SKIPLIST_MAX_LEVELS "rnd st"] r
    by (auto simp: SetMemoryRangePages_def Let_def split_beta)
qed

text \<open>A range that is its own predecessor in the address list is not merged with itself.\<close>

lemma TryMerge_self:
  assumes "get_range st b = Some r" "node_at (sls st) (AddrNode r)"
    and "pv (sls st) 0 (AddrNode r) = AddrNode r" "pl (sls st) (AddrNode r) = b" "Begin r + Pages r * PAGE_SIZE \<noteq> Begin r"
  shows "TryMergeMemoryRangesWithPrev st info b = Some st"
  using assms by (auto simp: TryMergeMemoryRangesWithPrev_def SkipListPrev_def SkipListPayload_def access_simps node_at_def get_range_def split: if_splits)

lemma NewMemoryRange_again:
  assumes rep: "mm_rep st info [(b, q)]" and q: "q < 512" and p: "p \<noteq> 0" "p < 512"
  shows "\<exists>st'. NewMemoryRange st info b p = Some st' \<and> skl (sls st') (info_Unaligned2M info) [] \<and>
    pointing (sls st') (info_Aligned2M info) (size_node b) \<and> nx (sls st') 0 (size_node b) = size_node b \<and>
    wt (sls st') (size_node b) = p"
proof -
  note l = single_range_lists [OF rep q] and again = reinitialised_nodes [OF rep q]
  note new = fresh_heap_new [OF l(6), of "sls st"]
  define r where "r = \<lparr>SizeNode = size_node b, AddrNode = addr_node b, Pages = 0, Begin = 0\<rparr>"
  define st1 where "st1 = st\<lparr>sls := fresh_heap (sls st) b, mrs := (mrs st)(b \<mapsto> r)\<rparr>"
  have r1: "get_range st1 b = Some r" using l(5) by (simp add: st1_def get_range_def)
  obtain st2 where st2: "SetMemoryRangeBegin st1 info b b = Some st2" "nx (sls st2) 0 (addr_node b) = addr_node b"
    "pv (sls st2) 0 (addr_node b) = addr_node b" "pl (sls st2) = pl (sls st1)" "node_at (sls st2) = node_at (sls st1)"
    "\<forall>p. p \<notin> {info_Addr info, addr_node b} \<longrightarrow> sls st2 p = sls st1 p" "mrs st2 = (mrs st1)(b \<mapsto> r\<lparr>Begin := b\<rparr>)"
    using SetMemoryRangeBegin_again [OF r1, of "addr_node b" info b] again(1) new(3) by (auto simp: st1_def r_def)
  have r2: "get_range st2 b = Some (r\<lparr>Begin := b\<rparr>)" using l(5) st2(7) by (simp add: get_range_def)
  have "sls st2 (size_node b) = fresh_heap (sls st) b (size_node b)" using st2(6) l(4) by (auto simp: st1_def)
  then have h2: "hgt (sls st2) (size_node b) = 0" using new(4) by (simp add: hgt_def)
  have p2: "pointing (sls st2) (info_Aligned2M info) (size_node b)"
    by (rule pointing_frame [OF again(2)]) (use st2(6) l(4) in \<open>auto simp: st1_def\<close>)
  have f2: "SizeNode (r\<lparr>Begin := b\<rparr>) = size_node b"
    "info_Aligned2M info = size_sentinel info (Begin (r\<lparr>Begin := b\<rparr>)) p"
    using aligned_mod_HUGEPAGE_SIZE [OF l(6)] p(2) by (simp_all add: r_def size_sentinel_def arch_consts)
  obtain st3 where st3: "SetMemoryRangePages st2 info b p = Some st3"
    "pointing (sls st3) (info_Aligned2M info) (size_node b)" "nx (sls st3) 0 (size_node b) = size_node b"
    "wt (sls st3) (size_node b) = p" "pl (sls st3) = pl (sls st2)" "node_at (sls st3) = node_at (sls st2)"
    "\<forall>q. q \<notin> {info_Aligned2M info, size_node b} \<longrightarrow> sls st3 q = sls st2 q"
    "mrs st3 = (mrs st2)(b \<mapsto> r\<lparr>Begin := b, Pages := p\<rparr>)"
    using SetMemoryRangePages_again [OF r2 f2(1) p2 h2 f2(2)] by blast
  have r3: "get_range st3 b = Some (r\<lparr>Begin := b, Pages := p\<rparr>)" using l(5) st3(8) by (simp add: get_range_def)
  have a3: "sls st3 (addr_node b) = sls st2 (addr_node b)" using st3(7) l(4) by auto
  then have self: "nx (sls st3) 0 (addr_node b) = addr_node b" "pv (sls st3) 0 (addr_node b) = addr_node b"
    using st2(2,3) by (simp_all add: nx_def pv_def)
  have n3: "node_at (sls st3) (addr_node b)" "pl (sls st3) (addr_node b) = b"
    using st3(5,6) st2(4,5) new(1,5) by (simp_all add: st1_def)
  have merge: "TryMergeMemoryRangesWithPrev st3 info b = Some st3"
    by (rule TryMerge_self [OF r3]) (use n3 self pages_not_adjacent_to_itself [OF p] in \<open>simp_all add: r_def\<close>)
  have "skl (sls st3) (info_Unaligned2M info) []"
    using st3(7) st2(6) l(4) by (intro skl_frame [OF again(3)]) (auto simp: st1_def)
  moreover have "NewMemoryRange st info b p = Some st3"
    using st2(1) st3(1) r3 self(1) n3 merge l(5) node_not_null [OF l(6)]
    by (simp add: NewMemoryRange_def SkipListInitNode_ok(1) Let_def size_node_def [symmetric] addr_node_def [symmetric]
        st1_def r_def fresh_heap_def SkipListNext_def SkipListPayload_ok access_simps)
  ultimately show ?thesis using st3(2-4) by blast
qed

text \<open>
  C40: Giving back the pages of an inexact allocation breaks the allocator. When the only free range has
  fewer pages than requested, \<open>AllocatePages\<close> hands out all of them and leaves the range in its lists
  with 0 pages; \<open>InsertNewMemoryRange\<close> of these pages then returns, but it has inserted the size node
  behind itself. The next exact allocation of as many pages gets nothing from the unaligned list, and its search
  of the aligned list goes on for ever: after no number of steps has \<open>SkipListBest\<close> returned or touched
  memory outside the heap.
\<close>

theorem InsertNewMemoryRange_returned_pages:
  assumes "mm_rep st info [(b, p)]" and "p \<noteq> 0" and "p < need" and "need < PAGES_PER_HUGEPAGE"
  shows "\<exists>st1 st2. AllocatePages st info begin0 need False = Some (st1, True, p, b) \<and>
    InsertNewMemoryRange st1 info b p = Some st2 \<and>
    AllocatePagesFromList st2 info (info_Unaligned2M info) begin1 need True = Some (st2, False, 0, begin1) \<and>
    (\<forall>n. \<not> best_stopped (best_after (sls st2) (info_Aligned2M info) need True n)) \<and>
    AllocatePages st2 info begin1 need True = None"
proof -
  have lt: "need < 512" "p < 512" using assms(3,4) by (auto simp: arch_consts)
  obtain st1 where st1: "AllocatePages st info begin0 need False = Some (st1, True, p, b)" "mm_rep st1 info [(b, 0)]"
    using AllocatePages_inexact_takes_all [OF assms(1,3,4)] by blast
  obtain st2 where st2: "NewMemoryRange st1 info b p = Some st2" "skl (sls st2) (info_Unaligned2M info) []"
    "pointing (sls st2) (info_Aligned2M info) (size_node b)" "nx (sls st2) 0 (size_node b) = size_node b"
    "wt (sls st2) (size_node b) = p"
    using NewMemoryRange_again [OF st1(2) _ assms(2) lt(2)] by auto
  have insert: "InsertNewMemoryRange st1 info b p = Some st2"
    using InsertNewMemoryRange_aligned [OF single_range_lists(6) [OF st1(2)]] assms(2) st2(1) by simp
  have "SkipListBest (sls st2) (info_Unaligned2M info) need True = Some NULL"
    using SkipListBest_exact [OF st2(2)] by simp
  then have unaligned:
    "AllocatePagesFromList st2 info (info_Unaligned2M info) begin1 need True = Some (st2, False, 0, begin1)"
    by (simp add: AllocatePagesFromList_def)
  have "wt (sls st2) (size_node b) < need" using st2(5) assms(3) by simp
  note running = search_never_stops [OF st2(3,4) this]
  have "AllocatePages st2 info begin1 need True = None"
    using lt(1) unaligned SkipListBest_never_stops [OF running]
    by (auto simp: AllocatePages_def AllocatePagesFromList_def arch_consts)
  with st1(1) insert unaligned running show ?thesis by blast
qed

theorem InsertNewMemoryRange_returned_pages_witness:
  "\<exists>st st1 st2. mm_rep st 4096 [(65536, 3)] \<and> AllocatePages st 4096 0 4 False = Some (st1, True, 3, 65536) \<and>
    InsertNewMemoryRange st1 4096 65536 3 = Some st2 \<and>
    (\<forall>n. \<not> best_stopped (best_after (sls st2) (info_Aligned2M 4096) 4 True n))"
proof -
  obtain st where st: "mm_rep st 4096 [(65536, 3)]" using ex_inserted by (auto simp: mm_inv_def)
  have "(3 :: u64) \<noteq> 0" "(3 :: u64) < 4" "4 < PAGES_PER_HUGEPAGE" by (simp_all add: arch_consts)
  from InsertNewMemoryRange_returned_pages [OF st this, of 0 0] st show ?thesis by blast
qed

end
