(* ===== verification/Heap_Sort.thy ===== *)
theory Heap_Sort
  imports Kernel_Prelude "HOL-Library.Multiset" "HOL-Library.Monad_Syntax"
begin

text \<open>
  The heap sort of \<open>kernel/utils/Heapsort.c\<close>. The element comparison and exchange are function
  pointers of the caller, so they are parameters of the model, on a memory of any type; the
  predicate \<open>array_callbacks\<close> says what the sort relies on of them: they compare and exchange the
  elements of an array by address. The functions are related to a sort of lists. The children of
  element \<open>i\<close> are \<open>2i\<close> and \<open>2i + 1\<close> with indices from 0, a tree in which the parent of \<open>i\<close> is
  \<open>i div 2\<close> and the root has the single child 1.
\<close>

section \<open>Heapify and Heapsort\<close>

type_synonym 'm cmp_fn = "'m \<Rightarrow> ptr \<Rightarrow> ptr \<Rightarrow> ptr \<Rightarrow> bool"
type_synonym 'm swap_fn = "'m \<Rightarrow> ptr \<Rightarrow> ptr \<Rightarrow> 'm"

definition Element :: "ptr \<Rightarrow> u64 \<Rightarrow> u64 \<Rightarrow> ptr" where
  "Element begin' id' elementSize = begin' + id' * elementSize"

partial_function (option) Heapify ::
    "'m \<Rightarrow> ptr \<Rightarrow> u64 \<Rightarrow> u64 \<Rightarrow> u64 \<Rightarrow> 'm cmp_fn \<Rightarrow> 'm swap_fn \<Rightarrow> ptr \<Rightarrow> 'm option" where
  "Heapify m trg id' elementSize count' cmp swap par =
     (let left = id' * 2;
          right = id' * 2 + 1;
          largest0 = (if left < count' \<and> cmp m (Element trg id' elementSize) (Element trg left elementSize) par
                      then left else id');
          largest = (if right < count' \<and> cmp m (Element trg largest0 elementSize) (Element trg right elementSize) par
                     then right else largest0)
      in if largest \<noteq> id'
         then Heapify (swap m (Element trg id' elementSize) (Element trg largest elementSize))
                trg largest elementSize count' cmp swap par
         else Some m)"

declare Heapify.simps [code]

text \<open>\<open>for( size_t i = 0; i < count / 2; ++i )\<close>, with \<open>k\<close> iterations left.\<close>

fun Heapsort_build ::
    "nat \<Rightarrow> nat \<Rightarrow> 'm \<Rightarrow> ptr \<Rightarrow> u64 \<Rightarrow> u64 \<Rightarrow> 'm cmp_fn \<Rightarrow> 'm swap_fn \<Rightarrow> ptr \<Rightarrow> 'm option" where
  "Heapsort_build i 0 m trg elementSize count' cmp swap par = Some m"
| "Heapsort_build i (Suc k) m trg elementSize count' cmp swap par = do {
     m' \<leftarrow> Heapify m trg (of_nat i) elementSize count' cmp swap par;
     Heapsort_build (Suc i) k m' trg elementSize count' cmp swap par }"

text \<open>\<open>for( long long int i = count - 1; i >= 0; --i )\<close>, with \<open>i + 1\<close> iterations left.\<close>

fun Heapsort_extract ::
    "nat \<Rightarrow> 'm \<Rightarrow> ptr \<Rightarrow> u64 \<Rightarrow> 'm cmp_fn \<Rightarrow> 'm swap_fn \<Rightarrow> ptr \<Rightarrow> 'm option" where
  "Heapsort_extract 0 m trg elementSize cmp swap par = Some m"
| "Heapsort_extract (Suc i) m trg elementSize cmp swap par = do {
     let m1 = swap m trg (Element trg (of_nat i) elementSize);
     m2 \<leftarrow> Heapify m1 trg 0 elementSize (of_nat i) cmp swap par;
     Heapsort_extract i m2 trg elementSize cmp swap par }"

text \<open>A division by \<open>elementSize = 0\<close> traps.\<close>

definition Heapsort ::
    "'m \<Rightarrow> ptr \<Rightarrow> u64 \<Rightarrow> u64 \<Rightarrow> 'm cmp_fn \<Rightarrow> 'm swap_fn \<Rightarrow> ptr \<Rightarrow> 'm option" where
  "Heapsort m trg elementSize len cmp swap par =
     (if elementSize = 0 then None
      else do {
        let count' = len div elementSize;
        m' \<leftarrow> Heapsort_build 0 (unat (count' div 2)) m trg elementSize count' cmp swap par;
        Heapsort_extract (if sint (count' - 1) < 0 then 0 else unat count') m' trg elementSize cmp swap par })"

section \<open>The sort on lists\<close>

definition swap_nth :: "'a list \<Rightarrow> nat \<Rightarrow> nat \<Rightarrow> 'a list" where
  "swap_nth xs i j = xs[i := xs ! j, j := xs ! i]"

definition largest_of :: "('a \<Rightarrow> 'k::linorder) \<Rightarrow> nat \<Rightarrow> nat \<Rightarrow> 'a list \<Rightarrow> nat" where
  "largest_of key i n xs =
     (let l = (if 2 * i < n \<and> key (xs ! i) < key (xs ! (2 * i)) then 2 * i else i)
      in if 2 * i + 1 < n \<and> key (xs ! l) < key (xs ! (2 * i + 1)) then 2 * i + 1 else l)"

lemma largest_of_cases:
  "largest_of key i n xs = i \<or> i < largest_of key i n xs \<and> largest_of key i n xs < n \<and>
     largest_of key i n xs div 2 = i \<and> key (xs ! i) < key (xs ! largest_of key i n xs)"
  by (cases "i = 0") (auto simp: largest_of_def Let_def)

lemma largest_of_max:
  assumes "1 \<le> c" "c < n" "c div 2 = i"
  shows "key (xs ! c) \<le> key (xs ! largest_of key i n xs)"
proof -
  have "c = 2 * i \<or> c = 2 * i + 1" using assms(3) by linarith
  with assms(1,2) show ?thesis by (auto simp: largest_of_def Let_def not_less)
qed

function sift :: "('a \<Rightarrow> 'k::linorder) \<Rightarrow> nat \<Rightarrow> nat \<Rightarrow> 'a list \<Rightarrow> 'a list" where
  "sift key i n xs = (let l = largest_of key i n xs
     in if l \<noteq> i then sift key l n (swap_nth xs i l) else xs)"
  by pat_completeness auto
termination
proof (relation "measure (\<lambda>(key, i, n, xs). n - i)")
  fix key :: "'a \<Rightarrow> 'k::linorder" and i n l and xs :: "'a list"
  assume "l = largest_of key i n xs" "l \<noteq> i"
  then show "((key, l, n, swap_nth xs i l), key, i, n, xs) \<in> measure (\<lambda>(key, i, n, xs). n - i)"
    using largest_of_cases [of key i n xs] by auto
qed auto

declare sift.simps [simp del]

fun extract_max :: "('a \<Rightarrow> 'k::linorder) \<Rightarrow> nat \<Rightarrow> 'a list \<Rightarrow> 'a list" where
  "extract_max key 0 xs = xs"
| "extract_max key (Suc i) xs = extract_max key i (sift key 0 i (swap_nth xs 0 i))"

fun build :: "('a \<Rightarrow> 'k::linorder) \<Rightarrow> nat \<Rightarrow> nat \<Rightarrow> nat \<Rightarrow> 'a list \<Rightarrow> 'a list" where
  "build key n i 0 xs = xs"
| "build key n i (Suc k) xs = build key n (Suc i) k (sift key i n xs)"

text \<open>Heap order for the nodes from \<open>k\<close> on.\<close>

definition heap_from :: "('a \<Rightarrow> 'k::linorder) \<Rightarrow> nat \<Rightarrow> nat \<Rightarrow> 'a list \<Rightarrow> bool" where
  "heap_from key k n xs \<longleftrightarrow> (\<forall>i. 1 \<le> i \<and> i < n \<and> k \<le> i div 2 \<longrightarrow> key (xs ! i) \<le> key (xs ! (i div 2)))"

lemma heap_fromD:
  "heap_from key k n xs \<Longrightarrow> 1 \<le> i \<Longrightarrow> i < n \<Longrightarrow> k \<le> i div 2 \<Longrightarrow> key (xs ! i) \<le> key (xs ! (i div 2))"
  by (simp add: heap_from_def)

lemma length_swap_nth [simp]: "length (swap_nth xs i j) = length xs"
  by (simp add: swap_nth_def)

lemma nth_swap_nth:
  "i < length xs \<Longrightarrow> j < length xs \<Longrightarrow>
   swap_nth xs i j ! k = (if k = i then xs ! j else if k = j then xs ! i else xs ! k)"
  by (auto simp: swap_nth_def nth_list_update)

lemma mset_swap_nth: "i < length xs \<Longrightarrow> j < length xs \<Longrightarrow> mset (swap_nth xs i j) = mset xs"
  by (simp add: swap_nth_def mset_swap)

lemma mset_swap_root: "Suc n \<le> length xs \<Longrightarrow> mset (swap_nth xs 0 n) = mset xs"
  by (rule mset_swap_nth) auto

lemma sift_keeps:
  assumes "n \<le> length xs"
  shows "length (sift key i n xs) = length xs" "mset (sift key i n xs) = mset xs"
    "\<forall>k\<ge>n. sift key i n xs ! k = xs ! k"
  using assms
proof (induction key i n xs rule: sift.induct)
  case (1 key i n xs)
  define l where "l = largest_of key i n xs"
  {
    case 1 with "1.IH"(1) [OF refl] show ?case
      by (subst sift.simps) (auto simp: Let_def)
  next
    case 2
    have "i < length xs" "l < length xs" if "l \<noteq> i"
      using that largest_of_cases [of key i n xs] 2 by (auto simp: l_def)
    with 2 "1.IH"(2) [OF l_def] show ?case
      by (subst sift.simps) (auto simp: Let_def l_def mset_swap_nth)
  next
    case 3
    have "i < length xs" "l < length xs" "i < n" "l < n" if "l \<noteq> i"
      using that largest_of_cases [of key i n xs] 3 by (auto simp: l_def)
    with 3 "1.IH"(3) [OF l_def] show ?case
      by (subst sift.simps) (auto simp: Let_def l_def nth_swap_nth)
  }
qed

section \<open>Sifting restores heap order\<close>

text \<open>
  Heap order except below \<open>i\<close>: the children of \<open>i\<close> may be larger than \<open>i\<close>, but not larger than the
  parent of \<open>i\<close>.
\<close>

definition heap_hole :: "('a \<Rightarrow> 'k::linorder) \<Rightarrow> nat \<Rightarrow> nat \<Rightarrow> nat \<Rightarrow> 'a list \<Rightarrow> bool" where
  "heap_hole key k i n xs \<longleftrightarrow>
     (\<forall>c. 1 \<le> c \<and> c < n \<and> k \<le> c div 2 \<and> c div 2 \<noteq> i \<longrightarrow> key (xs ! c) \<le> key (xs ! (c div 2))) \<and>
     (\<forall>c. 1 \<le> c \<and> c < n \<and> c div 2 = i \<and> i \<noteq> 0 \<and> k \<le> i div 2 \<longrightarrow> key (xs ! c) \<le> key (xs ! (i div 2)))"

lemma heap_hole_start: "heap_from key (Suc k) n xs \<Longrightarrow> heap_hole key k k n xs"
  by (auto simp: heap_hole_def heap_from_def)

lemma heap_hole_stop:
  assumes "heap_hole key k i n xs" "largest_of key i n xs = i"
  shows "heap_from key k n xs"
  using assms largest_of_max [of _ n i key xs] by (force simp: heap_hole_def heap_from_def)

lemma heap_hole_step:
  assumes hole: "heap_hole key k i n xs" and l: "l = largest_of key i n xs" "l \<noteq> i"
    and k: "k \<le> i" and n: "n \<le> length xs"
  shows "heap_hole key k l n (swap_nth xs i l)"
proof -
  have lt: "i < l" "l < n" "l div 2 = i" "key (xs ! i) < key (xs ! l)"
    using largest_of_cases [of key i n xs] l by auto
  have sw: "swap_nth xs i l ! c = (if c = i then xs ! l else if c = l then xs ! i else xs ! c)" for c
    using lt n by (intro nth_swap_nth) auto
  have child: "key (xs ! c) \<le> key (xs ! l)" if "1 \<le> c" "c < n" "c div 2 = i" for c
    using largest_of_max [OF that] l(1) by simp
  show ?thesis
    unfolding heap_hole_def
  proof (intro conjI allI impI; elim conjE)
    fix c assume c: "1 \<le> c" "c < n" "k \<le> c div 2" "c div 2 \<noteq> l"
    consider "c div 2 = i" | "c = i" "c div 2 \<noteq> i" | "c \<noteq> i" "c \<noteq> l" "c div 2 \<noteq> i"
      using lt(3) by blast
    then show "key (swap_nth xs i l ! c) \<le> key (swap_nth xs i l ! (c div 2))"
    proof cases
      case 1
      then show ?thesis using child [OF c(1,2)] lt c(1) by (auto simp: sw)
    next
      case 2
      moreover from this have "key (xs ! l) \<le> key (xs ! (i div 2))"
        using hole lt c by (auto simp: heap_hole_def)
      ultimately show ?thesis using c lt by (auto simp: sw)
    next
      case 3
      then show ?thesis using hole c by (auto simp: sw heap_hole_def)
    qed
  next
    fix c assume c: "1 \<le> c" "c < n" "c div 2 = l" "l \<noteq> 0" "k \<le> l div 2"
    then have "key (xs ! c) \<le> key (xs ! l)"
      using hole lt by (auto simp: heap_hole_def)
    then show "key (swap_nth xs i l ! c) \<le> key (swap_nth xs i l ! (l div 2))"
      using c lt by (auto simp: sw)
  qed
qed

lemma sift_heap_hole:
  assumes "heap_hole key k i n xs" "k \<le> i" "n \<le> length xs"
  shows "heap_from key k n (sift key i n xs)"
  using assms
proof (induction key i n xs rule: sift.induct)
  case (1 key i n xs)
  define l where "l = largest_of key i n xs"
  show ?case
  proof (cases "l = i")
    case True
    then show ?thesis using heap_hole_stop [OF "1.prems"(1)] by (subst sift.simps) (simp add: l_def)
  next
    case False
    have "heap_hole key k l n (swap_nth xs i l)"
      by (rule heap_hole_step [OF "1.prems"(1) l_def False "1.prems"(2,3)])
    moreover have "k \<le> l" using largest_of_cases [of key i n xs] "1.prems"(2) by (auto simp: l_def)
    ultimately have "heap_from key k n (sift key l n (swap_nth xs i l))"
      using "1.IH" [OF l_def False] "1.prems"(3) by simp
    with False show ?thesis by (subst sift.simps) (simp add: l_def Let_def)
  qed
qed

lemma sift_heap:
  "heap_from key (Suc i) n xs \<Longrightarrow> n \<le> length xs \<Longrightarrow> heap_from key i n (sift key i n xs)"
  by (rule sift_heap_hole [OF heap_hole_start]) auto

text \<open>A node that is in order is left alone.\<close>

lemma sift_id:
  assumes "heap_from key i n xs"
  shows "sift key i n xs = xs"
proof -
  have "largest_of key i n xs = i"
  proof (rule ccontr)
    assume "largest_of key i n xs \<noteq> i"
    then have "i < largest_of key i n xs \<and> largest_of key i n xs < n \<and>
        largest_of key i n xs div 2 = i \<and> key (xs ! i) < key (xs ! largest_of key i n xs)"
      using largest_of_cases [of key i n xs] by auto
    moreover from this have "key (xs ! largest_of key i n xs) \<le> key (xs ! (largest_of key i n xs div 2))"
      by (intro heap_fromD [OF assms]) auto
    ultimately show False by (metis leD)
  qed
  then show ?thesis by (subst sift.simps) simp
qed

section \<open>Extraction sorts a heap\<close>

lemma heap_root_max:
  assumes "heap_from key 0 n xs" "i < n"
  shows "key (xs ! i) \<le> key (xs ! 0)"
  using assms(2)
proof (induction i rule: less_induct)
  case (less i)
  show ?case
  proof (cases "i = 0")
    case False
    then have "key (xs ! i) \<le> key (xs ! (i div 2))" using assms(1) less.prems by (auto simp: heap_from_def)
    also have "\<dots> \<le> key (xs ! 0)" using less.IH [of "i div 2"] less.prems False by simp
    finally show ?thesis .
  qed simp
qed

text \<open>The part behind \<open>n\<close> is sorted and not smaller than the part before.\<close>

definition sorted_tail :: "('a \<Rightarrow> 'k::linorder) \<Rightarrow> nat \<Rightarrow> 'a list \<Rightarrow> bool" where
  "sorted_tail key n xs \<longleftrightarrow>
     (\<forall>i j. i < j \<and> n \<le> j \<and> j < length xs \<longrightarrow> key (xs ! i) \<le> key (xs ! j))"

lemma nth_take_mset:
  assumes "mset xs = mset ys" "\<forall>k\<ge>n. xs ! k = ys ! k" "n \<le> length xs" "i < n"
  obtains j where "j < n" "xs ! i = ys ! j"
proof -
  have len: "length xs = length ys" using assms(1) by (rule mset_eq_length)
  have "drop n xs = drop n ys" using assms(2) len by (intro nth_equalityI) auto
  then have "mset (take n xs) = mset (take n ys)"
    using assms(1) by (metis add_right_cancel append_take_drop_id mset_append)
  then have "set (take n xs) = set (take n ys)" by (rule mset_eq_setD)
  moreover have "xs ! i \<in> set (take n xs)" using assms(3,4) by (auto simp: in_set_conv_nth intro!: exI [of _ i])
  ultimately obtain j where "j < length (take n ys)" "take n ys ! j = xs ! i" by (metis in_set_conv_nth)
  with that [of j] show ?thesis by auto
qed

text \<open>
  One round of the second loop: the root, a largest element of the heap, goes to the end of the heap, and
  the new root is sifted down.
\<close>

lemma nth_swap_root:
  "Suc n \<le> length xs \<Longrightarrow> swap_nth xs 0 n ! c = (if c = 0 then xs ! n else if c = n then xs ! 0 else xs ! c)"
  by (rule nth_swap_nth) auto

lemma swap_root_heap:
  assumes "heap_from key 0 (Suc n) xs" "Suc n \<le> length xs"
  shows "heap_from key (Suc 0) n (swap_nth xs 0 n)"
  unfolding heap_from_def
proof (intro allI impI)
  fix i assume i: "1 \<le> i \<and> i < n \<and> Suc 0 \<le> i div 2"
  then have "swap_nth xs 0 n ! i = xs ! i" "swap_nth xs 0 n ! (i div 2) = xs ! (i div 2)"
    by (auto simp: nth_swap_root [OF assms(2)])
  then show "key (swap_nth xs 0 n ! i) \<le> key (swap_nth xs 0 n ! (i div 2))" using assms(1) i by (auto simp: heap_from_def)
qed

text \<open>Before the sift every element in front of position \<open>j\<close> of the tail is at most the one there.\<close>

lemma swap_root_tail:
  assumes "heap_from key 0 (Suc n) xs" "sorted_tail key (Suc n) xs" "Suc n \<le> length xs" "i < j" "n \<le> j" "j < length xs"
  shows "key (swap_nth xs 0 n ! i) \<le> key (swap_nth xs 0 n ! j)"
proof (cases "j = n")
  case True
  then have "key (swap_nth xs 0 n ! i) \<le> key (xs ! 0)"
    using heap_root_max [OF assms(1), of n] heap_root_max [OF assms(1), of i] assms(4)
    by (auto simp: nth_swap_root [OF assms(3)])
  then show ?thesis using True assms(4) by (simp add: nth_swap_root [OF assms(3)])
next
  case False
  then show ?thesis using assms(2,4-6) by (auto simp: nth_swap_root [OF assms(3)] sorted_tail_def)
qed

lemma extract_step:
  assumes "heap_from key 0 (Suc n) xs" "sorted_tail key (Suc n) xs" "Suc n \<le> length xs"
    and ys: "ys = sift key 0 n (swap_nth xs 0 n)"
  shows "heap_from key 0 n ys" "sorted_tail key n ys" "length ys = length xs" "mset ys = mset xs"
proof -
  define zs where "zs = swap_nth xs 0 n"
  have len: "length zs = length xs" and n: "n \<le> length zs" using assms(3) by (simp_all add: zs_def)
  show "heap_from key 0 n ys" unfolding ys
    by (rule sift_heap [OF swap_root_heap [OF assms(1,3)]]) (use assms(3) in auto)
  note keep = sift_keeps [OF n, of key 0]
  show "length ys = length xs" using keep(1) len by (simp add: ys zs_def)
  show "mset ys = mset xs" using keep(2) assms(3) by (simp add: ys zs_def mset_swap_root)
  have "key (ys ! i) \<le> key (ys ! j)" if ij: "i < j" "n \<le> j" "j < length xs" for i j
  proof -
    have yj: "ys ! j = zs ! j" using keep(3) ij(2) by (simp add: ys zs_def)
    obtain i' where i': "i' < j" "ys ! i = zs ! i'"
    proof (cases "i < n")
      case True
      have "n \<le> length (sift key 0 n zs)" using keep(1) n by simp
      then obtain i' where "i' < n" "sift key 0 n zs ! i = zs ! i'"
        by (rule nth_take_mset [OF keep(2,3) _ True])
      then show ?thesis using that [of i'] ij(2) by (simp add: ys zs_def)
    next
      case False
      then show ?thesis using that [of i] keep(3) ij by (simp add: ys zs_def)
    qed
    with yj swap_root_tail [OF assms(1-3) i'(1) ij(2,3)] show ?thesis by (simp add: zs_def)
  qed
  then show "sorted_tail key n ys" by (auto simp: sorted_tail_def \<open>length ys = length xs\<close>)
qed

lemma extract_max_sorts:
  assumes "heap_from key 0 n xs" "sorted_tail key n xs" "n \<le> length xs"
  shows "sorted (map key (extract_max key n xs)) \<and> mset (extract_max key n xs) = mset xs"
  using assms
proof (induction n arbitrary: xs)
  case 0
  then show ?case by (auto simp: sorted_tail_def sorted_iff_nth_mono_less)
next
  case (Suc n)
  note st = extract_step [OF Suc.prems refl]
  show ?case using Suc.IH [OF st(1,2)] st(3,4) Suc.prems(3) by simp
qed

lemma extract_max_mset: "n \<le> length xs \<Longrightarrow> mset (extract_max key n xs) = mset xs"
proof (induction n arbitrary: xs)
  case (Suc n)
  then have "mset (sift key 0 n (swap_nth xs 0 n)) = mset xs"
    by (subst sift_keeps(2)) (auto simp: mset_swap_root)
  with Suc show ?case by (simp add: sift_keeps(1))
qed simp

lemma build_mset: "n \<le> length xs \<Longrightarrow> mset (build key n i k xs) = mset xs"
  by (induction k arbitrary: i xs) (simp_all add: sift_keeps)

lemma build_heap: "heap_from key 0 n xs \<Longrightarrow> build key n i k xs = xs"
proof (induction k arbitrary: i)
  case (Suc k)
  have "heap_from key i n xs" using Suc.prems by (auto simp: heap_from_def)
  with Suc show ?case by (simp add: sift_id)
qed simp

section \<open>The code implements the sort on lists\<close>

text \<open>
  What the sort relies on of its callbacks: \<open>view\<close> reads the array of \<open>n\<close> elements at \<open>trg\<close> out of
  the memory, \<open>cmp\<close> compares two elements by their keys and \<open>swap\<close> exchanges two elements.
\<close>

definition array_callbacks ::
    "'m cmp_fn \<Rightarrow> 'm swap_fn \<Rightarrow> ptr \<Rightarrow> ptr \<Rightarrow> u64 \<Rightarrow> nat \<Rightarrow> ('m \<Rightarrow> 'a list) \<Rightarrow> ('a \<Rightarrow> 'k::linorder) \<Rightarrow> bool" where
  "array_callbacks cmp swap par trg elementSize n view key \<longleftrightarrow> (\<forall>m. length (view m) = n) \<and>
     (\<forall>m i j. i < n \<and> j < n \<longrightarrow>
       cmp m (Element trg (of_nat i) elementSize) (Element trg (of_nat j) elementSize) par
         = (key (view m ! i) < key (view m ! j)) \<and>
       view (swap m (Element trg (of_nat i) elementSize) (Element trg (of_nat j) elementSize))
         = swap_nth (view m) i j)"

lemma array_callbacksD:
  assumes "array_callbacks cmp swap par trg es n view key"
  shows "length (view m) = n"
    "i < n \<Longrightarrow> j < n \<Longrightarrow> cmp m (Element trg (of_nat i) es) (Element trg (of_nat j) es) par
       = (key (view m ! i) < key (view m ! j))"
    "i < n \<Longrightarrow> j < n \<Longrightarrow> view (swap m (Element trg (of_nat i) es) (Element trg (of_nat j) es)) = swap_nth (view m) i j"
  using assms by (auto simp: array_callbacks_def)

lemma of_nat_less_u64: "i < 2 ^ 64 \<Longrightarrow> j < 2 ^ 64 \<Longrightarrow> (of_nat i :: u64) < of_nat j \<longleftrightarrow> i < j"
  by (simp add: word_less_nat_alt unat_of_nat take_bit_nat_eq_self)

lemma Heapify_sift:
  assumes cb: "array_callbacks cmp swap par trg es n view key" and n: "n \<le> 2 ^ 63" and c: "c \<le> n" and i: "i < 2 ^ 63"
  shows "\<exists>m'. Heapify m trg (of_nat i) es (of_nat c) cmp swap par = Some m' \<and> view m' = sift key i c (view m)"
  using i
proof (induction "c - i" arbitrary: i m rule: less_induct)
  case less
  let ?v = "view m"
  define l where "l = largest_of key i c ?v"
  have w: "of_nat i * 2 = (of_nat (2 * i) :: u64)" "of_nat (2 * i) + 1 = (of_nat (2 * i + 1) :: u64)"
    by (simp_all add: mult.commute)
  have lt: "(of_nat (2 * i) :: u64) < of_nat c \<longleftrightarrow> 2 * i < c" "(of_nat (2 * i + 1) :: u64) < of_nat c \<longleftrightarrow> 2 * i + 1 < c"
    using less.prems n c by (intro of_nat_less_u64; simp)+
  note cmp = array_callbacksD(2) [OF cb]
  define l0 where "l0 = (if 2 * i < c \<and> key (?v ! i) < key (?v ! (2 * i)) then 2 * i else i)"
  have l_eq: "l = (if 2 * i + 1 < c \<and> key (?v ! l0) < key (?v ! (2 * i + 1)) then 2 * i + 1 else l0)"
    by (simp only: l_def l0_def largest_of_def Let_def)
  have a0: "(if (of_nat (2 * i) :: u64) < of_nat c \<and>
      cmp m (Element trg (of_nat i) es) (Element trg (of_nat (2 * i)) es) par then of_nat (2 * i) else of_nat i) = (of_nat l0 :: u64)"
    unfolding lt l0_def using cmp [of i "2 * i" m] c by auto
  have a1: "(if (of_nat (2 * i + 1) :: u64) < of_nat c \<and>
      cmp m (Element trg (of_nat l0) es) (Element trg (of_nat (2 * i + 1)) es) par then of_nat (2 * i + 1) else of_nat l0) = (of_nat l :: u64)"
    unfolding lt l_eq using cmp [of l0 "2 * i + 1" m] c by (auto simp: l0_def)
  have run: "Heapify m trg (of_nat i) es (of_nat c) cmp swap par =
      (if (of_nat l :: u64) \<noteq> of_nat i
       then Heapify (swap m (Element trg (of_nat i) es) (Element trg (of_nat l) es)) trg (of_nat l) es (of_nat c) cmp swap par
       else Some m)"
    by (subst Heapify.simps) (simp only: Let_def w a0 a1)
  show ?case
  proof (cases "l = i")
    case True
    then have "sift key i c ?v = ?v" by (subst sift.simps) (simp add: l_def)
    with True run show ?thesis by simp
  next
    case False
    then have l: "i < l" "l < c" using largest_of_cases [of key i c ?v] by (auto simp: l_def)
    then have "(of_nat i :: u64) < of_nat l" using n c by (subst of_nat_less_u64) auto
    then have ne: "(of_nat l :: u64) \<noteq> of_nat i" by simp
    have "view (swap m (Element trg (of_nat i) es) (Element trg (of_nat l) es)) = swap_nth ?v i l"
      using array_callbacksD(3) [OF cb] l c by simp
    then show ?thesis
      using less.hyps [of l "swap m (Element trg (of_nat i) es) (Element trg (of_nat l) es)"] l c n run ne False
      by (subst sift.simps) (simp add: l_def Let_def)
  qed
qed

lemma Heapsort_build_build:
  assumes cb: "array_callbacks cmp swap par trg es n view key" and n: "n \<le> 2 ^ 63" and "i + k \<le> n"
  shows "\<exists>m'. Heapsort_build i k m trg es (of_nat n) cmp swap par = Some m' \<and> view m' = build key n i k (view m)"
  using assms(3)
proof (induction k arbitrary: i m)
  case (Suc k)
  have "i < 2 ^ 63" using Suc.prems n by simp
  from Heapify_sift [OF cb n order_refl this, of m] obtain m1 where
    "Heapify m trg (of_nat i) es (of_nat n) cmp swap par = Some m1" "view m1 = sift key i n (view m)" by blast
  with Suc.IH [of "Suc i" m1] Suc.prems show ?case by simp
qed simp

lemma Heapsort_extract_extract_max:
  assumes cb: "array_callbacks cmp swap par trg es n view key" and n: "n \<le> 2 ^ 63" and "i \<le> n"
  shows "\<exists>m'. Heapsort_extract i m trg es cmp swap par = Some m' \<and> view m' = extract_max key i (view m)"
  using assms(3)
proof (induction i arbitrary: m)
  case (Suc i)
  define m1 where "m1 = swap m trg (Element trg (of_nat i) es)"
  have "trg = Element trg (of_nat 0) es" by (simp add: Element_def)
  then have v1: "view m1 = swap_nth (view m) 0 i"
    unfolding m1_def using array_callbacksD(3) [OF cb, of 0 i m] Suc.prems by simp
  have "i \<le> n" "(0 :: nat) < 2 ^ 63" using Suc.prems by simp_all
  from Heapify_sift [OF cb n this, of m1] obtain m2 where
    "Heapify m1 trg 0 es (of_nat i) cmp swap par = Some m2" "view m2 = sift key 0 i (view m1)" by auto
  with Suc.IH [of m2] Suc.prems v1 show ?case by (simp add: m1_def [symmetric] Let_def)
qed simp

lemma Heapsort_lists:
  assumes cb: "array_callbacks cmp swap par trg es n view key" and es: "es \<noteq> 0" and n: "n = unat (len div es)" "n \<le> 2 ^ 63"
  shows "\<exists>m'. Heapsort m trg es len cmp swap par = Some m' \<and>
    view m' = extract_max key n (build key n 0 (n div 2) (view m))"
proof -
  define cnt where "cnt = len div es"
  have cnt: "cnt = of_nat n" "unat cnt = n" using n(1) by (simp_all add: cnt_def)
  have half: "unat (cnt div 2) = n div 2" using cnt(2) by (simp add: unat_div)
  have bound: "(if sint (cnt - 1) < 0 then 0 else unat cnt) = n"
  proof (cases "n = 0")
    case False
    then have "cnt \<noteq> 0" using cnt(2) by auto
    then have "unat (cnt - 1) = n - 1" unfolding cnt(2) [symmetric] by (rule unat_minus_one)
    then have "unat (cnt - 1) < 2 ^ 63" using n(2) False by linarith
    then have "int (unat (cnt - 1)) < int (2 ^ 63)" by (simp only: of_nat_less_iff)
    then have "uint (cnt - 1) < 2 ^ 63" by simp
    moreover have "- (2 ^ 63) \<le> uint (cnt - 1)" by (rule order_trans [OF _ uint_ge_0]) simp
    ultimately have "signed_take_bit 63 (uint (cnt - 1)) = uint (cnt - 1)"
      by (intro signed_take_bit_int_eq_self)
    then have "sint (cnt - 1) = uint (cnt - 1)" by (simp add: sint_uint)
    then have "\<not> sint (cnt - 1) < 0" by simp
    with cnt(2) show ?thesis by simp
  qed (use cnt in simp)
  obtain m1 where m1: "Heapsort_build 0 (n div 2) m trg es (of_nat n) cmp swap par = Some m1"
    "view m1 = build key n 0 (n div 2) (view m)"
    using Heapsort_build_build [OF cb n(2), of 0 "n div 2" m] by auto
  obtain m2 where "Heapsort_extract n m1 trg es cmp swap par = Some m2" "view m2 = extract_max key n (view m1)"
    using Heapsort_extract_extract_max [OF cb n(2) order_refl, of m1] by blast
  then show ?thesis
    using m1 es unfolding Heapsort_def cnt_def [symmetric] Let_def bound half cnt(1) [symmetric] by simp
qed

text \<open>Byte-sized elements of a list, addressed by their index, as a concrete array.\<close>

definition list_cmp :: "nat list cmp_fn" where
  "list_cmp m a b par \<longleftrightarrow> unat a < length m \<and> unat b < length m \<and> m ! unat a < m ! unat b"

definition list_swap :: "nat list swap_fn" where
  "list_swap m a b = swap_nth m (unat a) (unat b)"

text \<open>Memories of a fixed length: the others are padded or cut by the view.\<close>

definition list_view :: "nat \<Rightarrow> nat list \<Rightarrow> nat list" where
  "list_view n m = (if length m = n then m else replicate n 0)"

definition fixed_cmp :: "nat \<Rightarrow> nat list cmp_fn" where
  "fixed_cmp n m a b par \<longleftrightarrow> list_cmp (list_view n m) a b par"

definition fixed_swap :: "nat \<Rightarrow> nat list swap_fn" where
  "fixed_swap n m a b = list_swap (list_view n m) a b"

lemma fixed_callbacks:
  assumes "n < 2 ^ 64"
  shows "array_callbacks (fixed_cmp n) (fixed_swap n) par 0 1 n (list_view n) id"
proof -
  have u: "unat (of_nat i :: u64) = i" if "i < n" for i
    using that assms by (simp add: unat_of_nat take_bit_nat_eq_self)
  show ?thesis
    by (auto simp: array_callbacks_def fixed_cmp_def fixed_swap_def list_cmp_def list_swap_def Element_def u list_view_def)
qed

section \<open>Properties\<close>

text \<open>
  C20: \<open>Heapify\<close> is correct. If the nodes behind \<open>id\<close> are in heap order, it returns, the nodes from
  \<open>id\<close> on are then in heap order, the elements are permuted, and elements behind \<open>count\<close> are not
  moved.
\<close>

theorem Heapify_correct:
  assumes "array_callbacks cmp swap par trg es n view key" and "n \<le> 2 ^ 63" and "c \<le> n" and "i < c"
    and "heap_from key (Suc i) c (view m)"
  shows "\<exists>m'. Heapify m trg (of_nat i) es (of_nat c) cmp swap par = Some m' \<and>
    heap_from key i c (view m') \<and> mset (view m') = mset (view m) \<and> (\<forall>k\<ge>c. view m' ! k = view m ! k)"
proof -
  have "i < 2 ^ 63" using assms(2-4) by linarith
  from Heapify_sift [OF assms(1-3) this, of m] obtain m' where
    m': "Heapify m trg (of_nat i) es (of_nat c) cmp swap par = Some m'" "view m' = sift key i c (view m)" by blast
  have "c \<le> length (view m)" using array_callbacksD(1) [OF assms(1)] assms(3) by simp
  with m' sift_heap [OF assms(5) this] sift_keeps [OF this, of key i] show ?thesis by auto
qed

theorem Heapify_correct_witness:
  "\<exists>m'. Heapify [1, 5, 3] 0 (of_nat 0) 1 (of_nat 3) (fixed_cmp 3) (fixed_swap 3) 0 = Some m' \<and>
    heap_from id 0 3 (list_view 3 m')"
proof -
  have cb: "array_callbacks (fixed_cmp 3) (fixed_swap 3) 0 0 1 3 (list_view 3) id"
    by (rule fixed_callbacks) simp
  have "heap_from id (Suc 0) 3 (list_view 3 [1, 5, 3])"
    by (auto simp: heap_from_def list_view_def less_Suc_eq numeral_3_eq_3)
  from Heapify_correct [OF cb _ _ _ this] show ?thesis by (auto simp: id_def)
qed

text \<open>
  C33: \<open>Heapsort\<close> always returns and permutes the elements of the array, and it sorts every array that is
  in heap order when it is called: the loop that should build the heap leaves it unchanged and the second
  loop sorts it.
\<close>

theorem Heapsort_permutes_and_sorts_heaps:
  assumes "array_callbacks cmp swap par trg es n view key" and "es \<noteq> 0" and "n = unat (len div es)" and "n \<le> 2 ^ 63"
  shows "\<exists>m'. Heapsort m trg es len cmp swap par = Some m' \<and> mset (view m') = mset (view m) \<and>
    (heap_from key 0 n (view m) \<longrightarrow> sorted (map key (view m')))"
proof -
  have len: "length (view m) = n" by (rule array_callbacksD(1) [OF assms(1)])
  then have "mset (extract_max key n (build key n 0 (n div 2) (view m))) = mset (view m)"
    using extract_max_mset [of n "build key n 0 (n div 2) (view m)" key] build_mset [of n "view m" key 0 "n div 2"]
    by (metis mset_eq_length order_refl)
  moreover have "sorted_tail key n (view m)" using len by (auto simp: sorted_tail_def)
  then have "sorted (map key (extract_max key n (build key n 0 (n div 2) (view m))))" if "heap_from key 0 n (view m)"
    using extract_max_sorts [OF that] len build_heap [OF that] that by auto
  ultimately show ?thesis using Heapsort_lists [OF assms, of m] by auto
qed

theorem Heapsort_permutes_and_sorts_heaps_witness:
  "\<exists>m'. Heapsort [3, 2, 1] 0 1 3 (fixed_cmp 3) (fixed_swap 3) 0 = Some m' \<and> sorted (list_view 3 m')"
proof -
  have cb: "array_callbacks (fixed_cmp 3) (fixed_swap 3) 0 0 1 3 (list_view 3) id"
    by (rule fixed_callbacks) simp
  have "heap_from id 0 3 (list_view 3 [3, 2, 1])"
    by (auto simp: heap_from_def list_view_def less_Suc_eq numeral_3_eq_3)
  then show ?thesis using Heapsort_permutes_and_sorts_heaps [OF cb, of 3 "[3, 2, 1]"] by auto
qed

text \<open>
  \<open>Heapsort\<close> does not sort in general. The first loop visits the nodes from the root down, so a
  large element below is not brought to the root, and it stops before the last parent: the array
  1, 0, 2 is returned as 0, 2, 1.
\<close>

theorem Heapsort_not_sorted: "Heapsort [1, 0, 2] 0 1 3 list_cmp list_swap 0 = Some [0, 2, 1]"
  by code_simp

end
