(* ===== verification/MCS_Lock.thy ===== *)
theory MCS_Lock
  imports Kernel_Prelude
begin

text \<open>
  The middle layer of the refinement of the queue lock of \<open>kernel/utils/MCS.c\<close>: threads that interleave
  on tickets that are records, with a flag that is one bit. The code's steps are those of \<open>MCS_Memory\<close>,
  where a ticket is its bytes and the loop loads the whole word in which the flag lies; here a load sees
  the flag alone. On the bytes a load agrees with it as long as the word behind the flag stays clear,
  and the simulation of \<open>MCS_Memory\<close> proves that it does for fresh tickets whose flag word is clear. Here is
  the invariant of the queue, which the simulation carries to the bytes. The memory is sequentially
  consistent.
\<close>

section \<open>State and steps\<close>

record MCSLockTicket =
  Prev :: ptr
  Finished :: bool

datatype mcs_pc =
    Outside
  | Exchange ptr
  | Publish ptr ptr
  | Wait ptr
  | Load ptr
  | Critical ptr
  | Release ptr

record mcs_state =
  top_ticket :: ptr
  ticket :: "ptr \<Rightarrow> MCSLockTicket"
  pc :: "nat \<Rightarrow> mcs_pc"

definition goto :: "nat \<Rightarrow> mcs_pc \<Rightarrow> mcs_state \<Rightarrow> mcs_state" where
  "goto t l s = s\<lparr>pc := (pc s)(t := l)\<rparr>"

text \<open>The steps that \<open>MCSLock\<close> has on records, entered at \<open>Exchange\<close> and left at \<open>Critical\<close>.\<close>

fun record_lock_step :: "nat \<Rightarrow> mcs_pc \<Rightarrow> mcs_state \<Rightarrow> mcs_state option" where
  "record_lock_step t (Exchange newTop) s =
     Some (goto t (Publish newTop (top_ticket s)) (s\<lparr>top_ticket := newTop\<rparr>))"
| "record_lock_step t (Publish newTop prevTop) s =
     Some (goto t (Wait newTop)
       (s\<lparr>ticket := (ticket s)(newTop := \<lparr>Prev = prevTop, Finished = False\<rparr>)\<rparr>))"
| "record_lock_step t (Wait newTop) s =
     Some (if Prev (ticket s newTop) = NULL then goto t (Critical newTop) s else goto t (Load newTop) s)"
| "record_lock_step t (Load newTop) s =
     Some (if Finished (ticket s (Prev (ticket s newTop))) then goto t (Critical newTop) s
           else goto t (Wait newTop) s)"
| "record_lock_step t _ s = None"

text \<open>The steps that \<open>MCSUnlock\<close> has on records, entered at \<open>Critical\<close>.\<close>

fun record_unlock_step :: "nat \<Rightarrow> mcs_pc \<Rightarrow> mcs_state \<Rightarrow> mcs_state option" where
  "record_unlock_step t (Critical n) s =
     Some (goto t (Release n) (s\<lparr>ticket := (ticket s)(n := (ticket s n)\<lparr>Finished := True\<rparr>)\<rparr>))"
| "record_unlock_step t (Release n) s =
     Some (goto t Outside (s\<lparr>ticket := (ticket s)(n := (ticket s n)\<lparr>Prev := NULL\<rparr>)\<rparr>))"
| "record_unlock_step t _ s = None"

text \<open>A thread outside is idle until it calls \<open>MCSLock\<close> with a ticket of its choice.\<close>

definition mcs_call :: "nat \<Rightarrow> ptr \<Rightarrow> mcs_state \<Rightarrow> mcs_state" where
  "mcs_call t n s = goto t (Exchange n) s"

definition mcs_step :: "nat \<Rightarrow> mcs_state \<Rightarrow> mcs_state" where
  "mcs_step t s = (case record_lock_step t (pc s t) s of
       Some s' \<Rightarrow> s'
     | None \<Rightarrow> (case record_unlock_step t (pc s t) s of Some s' \<Rightarrow> s' | None \<Rightarrow> s))"

definition mcs_init :: "mcs_state \<Rightarrow> bool" where
  "mcs_init s \<longleftrightarrow> top_ticket s = NULL \<and> (\<forall>t. pc s t = Outside)"

section \<open>The invariant\<close>

text \<open>
  For runs in which every call uses a ticket that no call used before and whose flag is clear: \<open>q\<close> is
  the list of tickets in the order of their exchanges, \<open>C\<close> the set of tickets called with.
\<close>

fun pc_ticket :: "mcs_pc \<Rightarrow> ptr option" where
  "pc_ticket Outside = None"
| "pc_ticket (Exchange n) = Some n"
| "pc_ticket (Publish n p) = Some n"
| "pc_ticket (Wait n) = Some n"
| "pc_ticket (Load n) = Some n"
| "pc_ticket (Critical n) = Some n"
| "pc_ticket (Release n) = Some n"

definition pred_of :: "ptr list \<Rightarrow> ptr \<Rightarrow> ptr" where
  "pred_of q n = last (NULL # takeWhile (\<lambda>x. x \<noteq> n) q)"

text \<open>What a thread relies on at each point, for the queue \<open>q\<close>.\<close>

fun pc_ok :: "mcs_state \<Rightarrow> ptr list \<Rightarrow> mcs_pc \<Rightarrow> bool" where
  "pc_ok s q Outside \<longleftrightarrow> True"
| "pc_ok s q (Exchange n) \<longleftrightarrow> n \<notin> set q \<and> \<not> Finished (ticket s n)"
| "pc_ok s q (Publish n p) \<longleftrightarrow> n \<in> set q \<and> \<not> Finished (ticket s n) \<and> p = pred_of q n"
| "pc_ok s q (Wait n) \<longleftrightarrow> n \<in> set q \<and> \<not> Finished (ticket s n) \<and> Prev (ticket s n) = pred_of q n"
| "pc_ok s q (Load n) \<longleftrightarrow> n \<in> set q \<and> \<not> Finished (ticket s n) \<and> Prev (ticket s n) = pred_of q n \<and> pred_of q n \<noteq> NULL"
| "pc_ok s q (Critical n) \<longleftrightarrow> n \<in> set q \<and> \<not> Finished (ticket s n) \<and>
     (pred_of q n = NULL \<or> Finished (ticket s (pred_of q n)))"
| "pc_ok s q (Release n) \<longleftrightarrow> n \<in> set q \<and> Finished (ticket s n)"

text \<open>
  The tickets that are finished are a prefix of the queue: \<open>fin @ unf\<close> is the queue, and each
  unfinished one belongs to a thread.
\<close>

definition mcs_inv :: "mcs_state \<Rightarrow> ptr list \<Rightarrow> ptr set \<Rightarrow> bool" where
  "mcs_inv s q C \<longleftrightarrow> set q \<subseteq> C \<and> distinct q \<and> NULL \<notin> C \<and> top_ticket s = last (NULL # q) \<and>
     (\<forall>t n. pc_ticket (pc s t) = Some n \<longrightarrow> n \<in> C) \<and>
     (\<forall>t u n. pc_ticket (pc s t) = Some n \<and> pc_ticket (pc s u) = Some n \<longrightarrow> t = u) \<and>
     (\<forall>t. pc_ok s q (pc s t)) \<and>
     (\<exists>fin unf. q = fin @ unf \<and> (\<forall>x\<in>set fin. Finished (ticket s x)) \<and>
        (\<forall>x\<in>set unf. \<not> Finished (ticket s x) \<and> (\<exists>t. pc_ticket (pc s t) = Some x)))"

section \<open>Positions in the queue\<close>

lemma pred_of_split: "n \<notin> set as \<Longrightarrow> pred_of (as @ n # bs) n = last (NULL # as)"
proof -
  assume "n \<notin> set as"
  then have "takeWhile (\<lambda>x. x \<noteq> n) (as @ n # bs) = as" by (induction as) auto
  then show ?thesis by (simp add: pred_of_def)
qed

lemma pred_of_append: "n \<in> set q \<Longrightarrow> pred_of (q @ r) n = pred_of q n"
  by (auto simp: pred_of_def takeWhile_append1)

lemma pred_of_new: "n \<notin> set q \<Longrightarrow> pred_of (q @ [n]) n = last (NULL # q)"
  by (rule pred_of_split)

text \<open>A ticket that is not finished but whose predecessor is (or that has none) is the first one.\<close>

lemma first_unfinished:
  assumes q: "q = fin @ unf" and d: "distinct q" and null: "NULL \<notin> set q"
    and fin: "\<forall>x\<in>set fin. F x" and unf: "\<forall>x\<in>set unf. \<not> F x"
    and n: "n \<in> set q" "\<not> F n" "pred_of q n = NULL \<or> F (pred_of q n)"
  shows "unf \<noteq> [] \<and> n = hd unf"
proof -
  have "n \<in> set unf" using q n fin by auto
  then obtain as bs where u: "unf = as @ n # bs" by (meson split_list)
  have "n \<notin> set (fin @ as)" using d q u by auto
  then have p: "pred_of q n = last (NULL # fin @ as)" using q u pred_of_split [of n "fin @ as" bs] by simp
  have "as = []"
  proof (rule ccontr)
    assume "as \<noteq> []"
    then have "pred_of q n = last as" using p by simp
    moreover have "last as \<in> set unf" using \<open>as \<noteq> []\<close> u by simp
    ultimately show False using n(3) unf null q by auto
  qed
  with u show ?thesis by simp
qed

section \<open>The invariant is preserved\<close>

lemma goto_simps [simp]:
  "pc (goto t l s) = (pc s)(t := l)" "ticket (goto t l s) = ticket s" "top_ticket (goto t l s) = top_ticket s"
  by (simp_all add: goto_def)

lemma mcs_invD:
  assumes "mcs_inv s q C"
  shows "set q \<subseteq> C" "distinct q" "NULL \<notin> C" "top_ticket s = last (NULL # q)"
    "pc_ticket (pc s t) = Some n \<Longrightarrow> n \<in> C"
    "pc_ticket (pc s t) = Some n \<Longrightarrow> pc_ticket (pc s u) = Some n \<Longrightarrow> t = u"
    "pc_ok s q (pc s t)"
  using assms unfolding mcs_inv_def by blast+

lemma mcs_inv_queue:
  assumes "mcs_inv s q C"
  obtains fin unf where "q = fin @ unf" "\<forall>x\<in>set fin. Finished (ticket s x)"
    "\<forall>x\<in>set unf. \<not> Finished (ticket s x) \<and> (\<exists>t. pc_ticket (pc s t) = Some x)"
  using assms unfolding mcs_inv_def by blast

lemma mcs_invI:
  assumes "set q \<subseteq> C" "distinct q" "NULL \<notin> C" "top_ticket s = last (NULL # q)"
    "\<And>t n. pc_ticket (pc s t) = Some n \<Longrightarrow> n \<in> C"
    "\<And>t n u. pc_ticket (pc s t) = Some n \<Longrightarrow> pc_ticket (pc s u) = Some n \<Longrightarrow> t = u"
    "\<And>t. pc_ok s q (pc s t)" "q = fin @ unf" "\<And>x. x \<in> set fin \<Longrightarrow> Finished (ticket s x)"
    "\<And>x. x \<in> set unf \<Longrightarrow> \<not> Finished (ticket s x) \<and> (\<exists>t. pc_ticket (pc s t) = Some x)"
  shows "mcs_inv s q C"
proof -
  have "\<exists>fin unf. q = fin @ unf \<and> (\<forall>x\<in>set fin. Finished (ticket s x)) \<and>
      (\<forall>x\<in>set unf. \<not> Finished (ticket s x) \<and> (\<exists>t. pc_ticket (pc s t) = Some x))"
    using assms(8-10) by blast
  moreover have "\<forall>t u n. pc_ticket (pc s t) = Some n \<and> pc_ticket (pc s u) = Some n \<longrightarrow> t = u"
    using assms(6) by blast
  ultimately show ?thesis unfolding mcs_inv_def by (intro conjI allI impI assms(1-5,7)) (assumption | meson)+
qed

lemma mcs_inv_critical:
  assumes "mcs_inv s q C" "pc s t = Critical n" "q = fin @ unf" "\<forall>x\<in>set fin. Finished (ticket s x)"
    "\<forall>x\<in>set unf. \<not> Finished (ticket s x)"
  shows "unf \<noteq> [] \<and> n = hd unf"
  using first_unfinished [OF assms(3) mcs_invD(2) [OF assms(1)] _ assms(4,5), of n] mcs_invD(1,3) [OF assms(1)]
    mcs_invD(7) [OF assms(1), of t] assms(2) by auto

text \<open>Other threads do not notice that a ticket that is not theirs is finished or changes its \<open>Prev\<close>.\<close>

lemma pc_ok_other:
  assumes "pc_ok s q l" "pc_ticket l \<noteq> Some n" "Finished (ticket s n) \<Longrightarrow> Finished k"
    "ticket s' = (ticket s)(n := k)"
  shows "pc_ok s' q l"
  using assms by (cases l) auto

text \<open>
  A thread that owns a ticket rewrites it: the flag stays, or it is set on leaving the critical
  section. The finished tickets stay a prefix of the queue.
\<close>

lemma mcs_queue_update:
  assumes inv: "mcs_inv s q C" and own: "pc_ticket (pc s t) = Some n"
    and tk: "ticket s' = (ticket s)(n := k)" and pc: "pc s' = (pc s)(t := l)"
    and l: "pc_ticket l = Some n \<or> pc_ticket l = None \<and> Finished k"
    and flag: "Finished k = Finished (ticket s n) \<or> Finished k \<and> pc s t = Critical n"
  shows "\<exists>fin unf. q = fin @ unf \<and> (\<forall>x\<in>set fin. Finished (ticket s' x)) \<and>
      (\<forall>x\<in>set unf. \<not> Finished (ticket s' x) \<and> (\<exists>t. pc_ticket (pc s' t) = Some x))"
proof -
  obtain fin unf where q: "q = fin @ unf" and fin: "\<forall>x\<in>set fin. Finished (ticket s x)"
    and unf: "\<forall>x\<in>set unf. \<not> Finished (ticket s x) \<and> (\<exists>t. pc_ticket (pc s t) = Some x)"
    using mcs_inv_queue [OF inv] .
  have owner: "\<exists>u. pc_ticket (pc s' u) = Some x" if x: "x \<in> set unf" "\<not> Finished (ticket s' x)" for x
  proof -
    from unf x(1) obtain u where u: "pc_ticket (pc s u) = Some x" by blast
    then have "pc_ticket (pc s' u) = Some x" using own l x(2) by (cases "u = t") (auto simp: pc tk)
    then show ?thesis by blast
  qed
  show ?thesis
  proof (cases "Finished k = Finished (ticket s n)")
    case True
    then have "\<forall>x\<in>set fin. Finished (ticket s' x)" "\<forall>x\<in>set unf. \<not> Finished (ticket s' x)"
      using fin unf by (auto simp: tk)
    with q owner show ?thesis by blast
  next
    case False
    then have crit: "Finished k" "pc s t = Critical n" using flag by auto
    then have "unf \<noteq> []" "n = hd unf" using mcs_inv_critical [OF inv _ q fin] unf by auto
    then obtain rest where split: "unf = n # rest" by (cases unf) auto
    then have "n \<notin> set rest" using mcs_invD(2) [OF inv] q by simp
    then have "\<forall>x\<in>set rest. \<not> Finished (ticket s' x)" "\<forall>x\<in>set (fin @ [n]). Finished (ticket s' x)"
      using unf fin crit(1) split by (auto simp: tk)
    moreover have "q = (fin @ [n]) @ rest" "set rest \<subseteq> set unf" using q split by auto
    ultimately show ?thesis using owner by blast
  qed
qed

lemma mcs_inv_update:
  assumes inv: "mcs_inv s q C" and own: "pc_ticket (pc s t) = Some n"
    and s': "s' = goto t l (s\<lparr>ticket := (ticket s)(n := k)\<rparr>)"
    and l: "pc_ticket l = Some n \<or> pc_ticket l = None \<and> Finished k" and ok: "pc_ok s' q l"
    and flag: "Finished k = Finished (ticket s n) \<or> Finished k \<and> pc s t = Critical n"
  shows "mcs_inv s' q C"
proof -
  have tk: "ticket s' = (ticket s)(n := k)" and pc: "pc s' = (pc s)(t := l)" by (simp_all add: s')
  have "pc_ok s' q (pc s' u)" for u
  proof (cases "u = t")
    case False
    then have "pc_ticket (pc s u) \<noteq> Some n" using mcs_invD(6) [OF inv own] by blast
    with False flag show ?thesis using pc_ok_other [OF mcs_invD(7) [OF inv] _ _ tk, of u] by (auto simp: pc)
  qed (use ok in \<open>simp add: pc\<close>)
  moreover have old: "pc_ticket (pc s u) = Some m" if "pc_ticket (pc s' u) = Some m" for u m
    using that own l by (cases "u = t") (auto simp: pc)
  have "\<forall>u m. pc_ticket (pc s' u) = Some m \<longrightarrow> m \<in> C" using old mcs_invD(5) [OF inv] by blast
  moreover have "\<forall>u v m. pc_ticket (pc s' u) = Some m \<and> pc_ticket (pc s' v) = Some m \<longrightarrow> u = v"
    using old mcs_invD(6) [OF inv] by blast
  moreover have "top_ticket s' = top_ticket s" by (simp add: s')
  ultimately show ?thesis
    using mcs_invD(1-4) [OF inv] mcs_queue_update [OF inv own tk pc l flag] unfolding mcs_inv_def by simp
qed

lemma mcs_inv_call:
  assumes inv: "mcs_inv s q C" and t: "pc s t = Outside" and n: "n \<notin> C" "n \<noteq> NULL" "\<not> Finished (ticket s n)"
  shows "mcs_inv (mcs_call t n s) q (insert n C)"
proof -
  let ?s = "mcs_call t n s"
  obtain fin unf where q: "q = fin @ unf" "\<forall>x\<in>set fin. Finished (ticket s x)"
    "\<forall>x\<in>set unf. \<not> Finished (ticket s x) \<and> (\<exists>t. pc_ticket (pc s t) = Some x)"
    using mcs_inv_queue [OF inv] .
  have pc: "pc ?s = (pc s)(t := Exchange n)" and tk: "ticket ?s = ticket s" by (simp_all add: mcs_call_def)
  have "n \<notin> set q" using mcs_invD(1) [OF inv] n(1) by blast
  have ok: "pc_ok ?s q (pc ?s u)" for u
  proof (cases "u = t")
    case False
    have "pc_ok ?s q l = pc_ok s q l" for l by (cases l) (simp_all add: tk)
    with False mcs_invD(7) [OF inv, of u] show ?thesis by (simp add: pc)
  qed (use n \<open>n \<notin> set q\<close> in \<open>simp add: pc tk\<close>)
  have owner: "\<exists>u. pc_ticket (pc ?s u) = Some x" if ex: "\<exists>u. pc_ticket (pc s u) = Some x" for x
  proof -
    obtain u where "pc_ticket (pc s u) = Some x" using ex by blast
    then have "pc_ticket (pc ?s u) = Some x" using t by (auto simp: pc)
    then show ?thesis by blast
  qed
  have "\<forall>u v m. pc_ticket (pc ?s u) = Some m \<and> pc_ticket (pc ?s v) = Some m \<longrightarrow> u = v"
    using mcs_invD(5,6) [OF inv] n(1) by (auto simp: pc split: if_splits)
  moreover have "\<forall>u m. pc_ticket (pc ?s u) = Some m \<longrightarrow> m \<in> insert n C"
    using mcs_invD(5) [OF inv] by (auto simp: pc)
  moreover have "\<exists>fin unf. q = fin @ unf \<and> (\<forall>x\<in>set fin. Finished (ticket ?s x)) \<and>
      (\<forall>x\<in>set unf. \<not> Finished (ticket ?s x) \<and> (\<exists>t. pc_ticket (pc ?s t) = Some x))"
    using q owner unfolding tk by blast
  moreover have "top_ticket ?s = top_ticket s" by (simp add: mcs_call_def)
  ultimately show ?thesis using mcs_invD(1-4) [OF inv] n(2) ok unfolding mcs_inv_def by auto
qed

lemma mcs_inv_exchange:
  assumes inv: "mcs_inv s q C" and t: "pc s t = Exchange n"
  shows "mcs_inv (mcs_step t s) (q @ [n]) C"
proof -
  let ?s = "mcs_step t s"
  obtain fin unf where q: "q = fin @ unf" "\<forall>x\<in>set fin. Finished (ticket s x)"
    "\<forall>x\<in>set unf. \<not> Finished (ticket s x) \<and> (\<exists>t. pc_ticket (pc s t) = Some x)"
    using mcs_inv_queue [OF inv] .
  have pc: "pc ?s = (pc s)(t := Publish n (last (NULL # q)))" and tk: "ticket ?s = ticket s"
    using t mcs_invD(4) [OF inv] by (simp_all add: mcs_step_def)
  have n: "n \<notin> set q" "\<not> Finished (ticket s n)" "n \<in> C"
    using mcs_invD(7) [OF inv, of t] mcs_invD(5) [OF inv, of t n] t by auto
  have ok: "pc_ok ?s (q @ [n]) (pc ?s u)" for u
  proof (cases "u = t")
    case False
    then have "pc_ticket (pc s u) \<noteq> Some n" using mcs_invD(6) [OF inv, of t n u] t by auto
    then have "pc_ok ?s (q @ [n]) (pc s u)"
      using mcs_invD(7) [OF inv, of u] by (cases "pc s u") (auto simp: tk pred_of_append)
    with False show ?thesis by (simp add: pc)
  qed (use n pred_of_new [OF n(1)] in \<open>simp add: pc tk\<close>)
  have tick: "pc_ticket (pc ?s u) = pc_ticket (pc s u)" for u using t by (simp add: pc)
  have mine: "\<exists>u. pc_ticket (pc s u) = Some n" using t by (intro exI [of _ t]) simp
  have "\<forall>x\<in>set (unf @ [n]). \<not> Finished (ticket ?s x) \<and> (\<exists>u. pc_ticket (pc ?s u) = Some x)"
    unfolding tick tk using q(3) n(2) mine by auto
  moreover have "q @ [n] = fin @ (unf @ [n])" using q(1) by simp
  moreover have "\<forall>x\<in>set fin. Finished (ticket ?s x)" using q(2) tk by simp
  moreover have "top_ticket ?s = n" using t by (simp add: mcs_step_def)
  ultimately show ?thesis
    using mcs_invD(1-3) [OF inv] n ok by (intro mcs_invI [of "q @ [n]" C ?s fin "unf @ [n]"])
      (auto simp: tick dest: mcs_invD(5,6) [OF inv])
qed

lemma ticket_upd_triv: "s\<lparr>ticket := (ticket s)(n := ticket s n)\<rparr> = s"
  by simp

lemma mcs_inv_step:
  assumes inv: "mcs_inv s q C" and t: "\<forall>n. pc s t \<noteq> Exchange n"
  shows "mcs_inv (mcs_step t s) q C"
proof -
  note ok = mcs_invD(7) [OF inv, of t]
  note upd = mcs_inv_update [OF inv, where t = t]
  show ?thesis
  proof (cases "pc s t")
    case Outside
    then show ?thesis using inv by (simp add: mcs_step_def)
  next
    case (Publish n p)
    then show ?thesis
      using ok by (intro upd [of n _ "Wait n" "\<lparr>Prev = p, Finished = False\<rparr>"]) (auto simp: mcs_step_def)
  next
    case (Wait n)
    then show ?thesis
      using ok by (intro upd [of n _ "if Prev (ticket s n) = NULL then Critical n else Load n" "ticket s n"])
        (auto simp: mcs_step_def)
  next
    case (Load n)
    then show ?thesis
      using ok by (intro upd [of n _ "if Finished (ticket s (Prev (ticket s n))) then Critical n else Wait n" "ticket s n"])
        (auto simp: mcs_step_def)
  next
    case (Critical n)
    then show ?thesis
      using ok by (intro upd [of n _ "Release n" "(ticket s n)\<lparr>Finished := True\<rparr>"]) (auto simp: mcs_step_def)
  next
    case (Release n)
    then show ?thesis
      using ok by (intro upd [of n _ Outside "(ticket s n)\<lparr>Prev := NULL\<rparr>"]) (auto simp: mcs_step_def)
  qed (use t in blast)
qed

lemma mcs_inv_init: "mcs_init s \<Longrightarrow> mcs_inv s [] {}"
  by (auto simp: mcs_init_def mcs_inv_def)

lemma pred_of_first:
  assumes "q = fin @ n # rest" "distinct q"
  shows "pred_of q n = last (NULL # fin)"
  using assms pred_of_split [of n fin rest] by auto

end
