(* ===== verification/Exclusive_Lock.thy ===== *)
theory Exclusive_Lock
  imports Kernel_Prelude
begin

text \<open>
  What a lock promises to the code that uses it. A lock is a transition system of threads;
  \<open>inside s t\<close> says that thread \<open>t\<close> is between the return of its lock call and its unlock call. A
  lock excludes if a set of good states holds the initial ones, is closed under the steps and has at
  most one thread inside.
\<close>

locale exclusive_lock =
  fixes init :: "'s \<Rightarrow> bool" and step :: "'s \<Rightarrow> 's \<Rightarrow> bool" and inside :: "'s \<Rightarrow> nat \<Rightarrow> bool"
    and good :: "'s \<Rightarrow> bool"
  assumes good_init: "init s \<Longrightarrow> good s"
    and good_step: "good s \<Longrightarrow> step s s' \<Longrightarrow> good s'"
    and exclusive: "good s \<Longrightarrow> inside s t \<Longrightarrow> inside s u \<Longrightarrow> t = u"
begin

lemma good_reachable: "step\<^sup>*\<^sup>* s s' \<Longrightarrow> good s \<Longrightarrow> good s'"
  by (induction rule: rtranclp_induct) (auto intro: good_step)

text \<open>In no reachable state are two threads inside.\<close>

lemma reachable_exclusive:
  assumes "init s0" "step\<^sup>*\<^sup>* s0 s" "inside s t" "inside s u"
  shows "t = u"
  using exclusive [OF good_reachable [OF assms(2) good_init [OF assms(1)]] assms(3,4)] .

end

end
