(* ===== verification/MCS_Queue.thy ===== *)
theory MCS_Queue
  imports MCS_Lock Exclusive_Lock
begin

text \<open>
  The MCS lock against its specification. The specification is a queue of tickets and whether the
  owner of the first one is inside; it accepts or refuses the events of a run. The lock's interleaved
  steps emit the events, and every run is accepted. The order of entry follows on the side of the
  specification. The states are those on records (\<open>MCS_Lock\<close>), the middle layer of the refinement;
  \<open>MCS_Memory\<close> carries the results over to the bytes.
\<close>

section \<open>The queue lock\<close>

datatype mcs_event =
    Call ptr
  | Arrive ptr
  | Enter ptr
  | Leave ptr

fun queue_lock :: "mcs_event \<Rightarrow> ptr list \<times> bool \<Rightarrow> (ptr list \<times> bool) option" where
  "queue_lock (Call n) a = Some a"
| "queue_lock (Arrive n) (q, b) = (if n \<in> set q then None else Some (q @ [n], b))"
| "queue_lock (Enter n) (q, b) = (if q \<noteq> [] \<and> hd q = n \<and> \<not> b then Some (q, True) else None)"
| "queue_lock (Leave n) (q, b) = (if q \<noteq> [] \<and> hd q = n \<and> b then Some (tl q, False) else None)"

primrec queue_lock_run :: "mcs_event list \<Rightarrow> ptr list \<times> bool \<Rightarrow> (ptr list \<times> bool) option" where
  "queue_lock_run [] a = Some a"
| "queue_lock_run (e # es) a = Option.bind (queue_lock e a) (queue_lock_run es)"

lemma queue_lock_run_append:
  "queue_lock_run (es @ fs) a = Option.bind (queue_lock_run es a) (queue_lock_run fs)"
  by (induction es arbitrary: a) (auto split: bind_split)

text \<open>The tickets of the events of one kind, in their order.\<close>

definition arrivals :: "mcs_event list \<Rightarrow> ptr list" where
  "arrivals es = [n. Arrive n \<leftarrow> es]"

definition entries :: "mcs_event list \<Rightarrow> ptr list" where
  "entries es = [n. Enter n \<leftarrow> es]"

definition departures :: "mcs_event list \<Rightarrow> ptr list" where
  "departures es = [n. Leave n \<leftarrow> es]"

lemmas event_lists = arrivals_def entries_def departures_def

text \<open>
  In what the queue lock accepts, tickets enter and leave in the order of their arrival, one at a
  time; the queue holds the tickets that have arrived and not left.
\<close>

lemma queue_lock_fifo:
  assumes "queue_lock_run es ([], False) = Some (q, b)"
  shows "arrivals es = departures es @ q \<and> entries es = departures es @ (if b then [hd q] else []) \<and> (b \<longrightarrow> q \<noteq> [])"
  using assms
proof (induction es arbitrary: q b rule: rev_induct)
  case (snoc e es)
  obtain q0 b0 where run: "queue_lock_run es ([], False) = Some (q0, b0)" and e: "queue_lock e (q0, b0) = Some (q, b)"
    using snoc.prems by (auto simp: queue_lock_run_append bind_eq_Some_conv)
  show ?case using snoc.IH [OF run] e by (cases e) (auto simp: event_lists split: if_splits)
qed (simp add: event_lists)

text \<open>
  A lock that implements the queue lock: in the states it can reach, its events so far are accepted,
  and the queue lock is occupied exactly if a thread is inside.
\<close>

locale queue_lock_impl = exclusive_lock init step inside good
  for init :: "'s \<Rightarrow> bool" and step :: "'s \<Rightarrow> 's \<Rightarrow> bool" and inside :: "'s \<Rightarrow> nat \<Rightarrow> bool" and good :: "'s \<Rightarrow> bool" +
  fixes trace :: "'s \<Rightarrow> mcs_event list"
  assumes accepted: "good s \<Longrightarrow> \<exists>q. queue_lock_run (trace s) ([], False) = Some (q, \<exists>t. inside s t)"
begin

lemma entry_order:
  assumes "good s"
  shows "\<exists>waiting ins. arrivals (trace s) = entries (trace s) @ waiting \<and> entries (trace s) = departures (trace s) @ ins \<and>
    length ins \<le> 1 \<and> (ins \<noteq> [] \<longleftrightarrow> (\<exists>t. inside s t))"
proof -
  let ?b = "\<exists>t. inside s t"
  obtain q where "queue_lock_run (trace s) ([], False) = Some (q, ?b)" using accepted [OF assms] by blast
  from queue_lock_fifo [OF this] show ?thesis
    by (intro exI [of _ "if ?b then tl q else q"] exI [of _ "if ?b then [hd q] else []"]) auto
qed

lemma run_good: "init s \<Longrightarrow> step\<^sup>*\<^sup>* s s' \<Longrightarrow> good s'"
  by (rule good_reachable) (auto intro: good_init)

lemma run_entry_order:
  assumes "init s0" "step\<^sup>*\<^sup>* s0 s"
  shows "\<exists>waiting ins. arrivals (trace s) = entries (trace s) @ waiting \<and> entries (trace s) = departures (trace s) @ ins \<and>
    length ins \<le> 1 \<and> (ins \<noteq> [] \<longleftrightarrow> (\<exists>t. inside s t))"
  by (rule entry_order [OF run_good [OF assms]])

end

section \<open>Runs of the lock with their events\<close>

text \<open>What a step shows, from where the thread was before and is after it.\<close>

definition observe :: "mcs_pc \<Rightarrow> mcs_pc \<Rightarrow> mcs_event list" where
  "observe l l' = (case (l, l') of
       (Exchange n, _) \<Rightarrow> [Arrive n]
     | (Critical n, _) \<Rightarrow> [Leave n]
     | (_, Critical n) \<Rightarrow> [Enter n]
     | _ \<Rightarrow> [])"

definition mcs_observe :: "nat \<Rightarrow> mcs_state \<Rightarrow> mcs_event list" where
  "mcs_observe t s = observe (pc s t) (pc (mcs_step t s) t)"

text \<open>A call uses a ticket no call used before and whose flag is clear.\<close>

inductive mcs_trans :: "mcs_state \<times> mcs_event list \<Rightarrow> mcs_state \<times> mcs_event list \<Rightarrow> bool" where
  trans_call: "pc s t = Outside \<Longrightarrow> Call n \<notin> set es \<Longrightarrow> n \<noteq> NULL \<Longrightarrow> \<not> Finished (ticket s n) \<Longrightarrow>
    mcs_trans (s, es) (mcs_call t n s, es @ [Call n])"
| trans_step: "mcs_trans (s, es) (mcs_step t s, es @ mcs_observe t s)"

text \<open>The same with the thread that moves.\<close>

inductive mcs_move :: "nat \<Rightarrow> mcs_state \<times> mcs_event list \<Rightarrow> mcs_state \<times> mcs_event list \<Rightarrow> bool" where
  move_call: "pc s t = Outside \<Longrightarrow> Call n \<notin> set es \<Longrightarrow> n \<noteq> NULL \<Longrightarrow> \<not> Finished (ticket s n) \<Longrightarrow>
    mcs_move t (s, es) (mcs_call t n s, es @ [Call n])"
| move_step: "mcs_move t (s, es) (mcs_step t s, es @ mcs_observe t s)"

inductive_cases mcs_moveE: "mcs_move t (s, es) y"

lemma mcs_move_trans: "mcs_move t x y \<Longrightarrow> mcs_trans x y"
  by (induction rule: mcs_move.induct) (auto intro: mcs_trans.intros)

definition mcs_start :: "mcs_state \<times> mcs_event list \<Rightarrow> bool" where
  "mcs_start = (\<lambda>(s, es). mcs_init s \<and> es = [])"

definition unfinished :: "mcs_state \<Rightarrow> ptr list \<Rightarrow> ptr list" where
  "unfinished s q = filter (\<lambda>n. \<not> Finished (ticket s n)) q"

definition occupied :: "mcs_state \<Rightarrow> bool" where
  "occupied s \<longleftrightarrow> (\<exists>t n. pc s t = Critical n)"

section \<open>The simulation\<close>

text \<open>A ticket whose predecessor is finished, or that has none, is the first of the queue.\<close>

lemma unfinished_head:
  assumes inv: "mcs_inv s q C" and n: "n \<in> set q" "\<not> Finished (ticket s n)"
    "pred_of q n = NULL \<or> Finished (ticket s (pred_of q n))"
  shows "\<exists>rest. unfinished s q = n # rest \<and> n \<notin> set rest"
proof -
  obtain fin unf where q: "q = fin @ unf" "\<forall>x\<in>set fin. Finished (ticket s x)"
    "\<forall>x\<in>set unf. \<not> Finished (ticket s x) \<and> (\<exists>t. pc_ticket (pc s t) = Some x)"
    using mcs_inv_queue [OF inv] .
  have unf: "unfinished s q = unf" using q by (simp add: unfinished_def)
  have "unf \<noteq> [] \<and> n = hd unf"
    using first_unfinished [OF q(1) mcs_invD(2) [OF inv] _ q(2) _ n] mcs_invD(1,3) [OF inv] q(3) by blast
  then obtain rest where "unf = n # rest" by (cases unf) auto
  moreover have "distinct unf" using mcs_invD(2) [OF inv] q(1) by simp
  ultimately show ?thesis using unf by auto
qed

lemma critical_head:
  assumes "mcs_inv s q C" "pc s t = Critical n"
  shows "\<exists>rest. unfinished s q = n # rest \<and> n \<notin> set rest"
  using unfinished_head [OF assms(1), of n] mcs_invD(7) [OF assms(1), of t] assms(2) by simp

lemma critical_unique:
  assumes inv: "mcs_inv s q C" and "pc s t = Critical n" "pc s u = Critical m"
  shows "t = u"
  using critical_head [OF assms(1,2)] critical_head [OF assms(1,3)] mcs_invD(6) [OF inv, of t n u] assms(2,3) by auto

text \<open>A thread that is about to pass the loop finds its ticket first and nobody inside.\<close>

lemma enter_accepted:
  assumes inv: "mcs_inv s q C" and t: "pc_ticket (pc s t) = Some n" "\<And>m. pc s t \<noteq> Critical m"
    and n: "n \<in> set q" "\<not> Finished (ticket s n)" "pred_of q n = NULL \<or> Finished (ticket s (pred_of q n))"
  shows "queue_lock (Enter n) (unfinished s q, occupied s) = Some (unfinished s q, True)"
proof -
  obtain rest where head: "unfinished s q = n # rest" using unfinished_head [OF inv n] by blast
  have "\<not> occupied s"
  proof
    assume "occupied s"
    then obtain u m where u: "pc s u = Critical m" by (auto simp: occupied_def)
    then have "m = n" using critical_head [OF inv u] head by auto
    then have "t = u" using mcs_invD(6) [OF inv t(1), of u] u by simp
    with u t(2) show False by blast
  qed
  with head show ?thesis by simp
qed

lemma occupied_goto:
  assumes "pc s' = (pc s)(t := l)" "\<And>m. pc s t \<noteq> Critical m"
  shows "occupied s' \<longleftrightarrow> occupied s \<or> (\<exists>m. l = Critical m)"
  using assms by (auto simp: occupied_def) metis+

lemma unfinished_same:
  assumes "ticket s' = (ticket s)(n := k)" "Finished k = Finished (ticket s n)"
  shows "unfinished s' q = unfinished s q"
  using assms by (auto simp: unfinished_def intro: filter_cong)

lemma leave_accepted:
  assumes inv: "mcs_inv s q C" and t: "pc s t = Critical n"
  shows "queue_lock (Leave n) (unfinished s q, occupied s) =
    Some (unfinished (mcs_step t s) q, occupied (mcs_step t s))"
proof -
  let ?s = "mcs_step t s"
  obtain rest where head: "unfinished s q = n # rest" "n \<notin> set rest" using critical_head [OF inv t] by blast
  have "unfinished ?s q = filter (\<lambda>x. x \<noteq> n) (unfinished s q)"
    using t by (auto simp: unfinished_def mcs_step_def intro: filter_cong)
  also have "\<dots> = rest" using head by (auto simp: filter_id_conv)
  finally have "unfinished ?s q = rest" .
  moreover have "\<not> occupied ?s"
  proof
    assume "occupied ?s"
    then obtain u m where u: "pc ?s u = Critical m" by (auto simp: occupied_def)
    then have "u \<noteq> t" "pc s u = Critical m" using t by (auto simp: mcs_step_def split: if_splits)
    with critical_unique [OF inv t] show False by blast
  qed
  moreover have "occupied s" using t by (auto simp: occupied_def)
  ultimately show ?thesis using head(1) by simp
qed

lemma enter_or_stay:
  assumes inv: "mcs_inv s q C" and t: "pc s t = Wait n \<or> pc s t = Load n"
    and enters: "mcs_step t s = (if go then goto t (Critical n) s else goto t l s)" "\<And>m. l \<noteq> Critical m"
    and go: "go \<Longrightarrow> pred_of q n = NULL \<or> Finished (ticket s (pred_of q n))"
  shows "queue_lock_run (mcs_observe t s) (unfinished s q, occupied s) =
    Some (unfinished (mcs_step t s) (q @ arrivals (mcs_observe t s)), occupied (mcs_step t s))"
proof -
  have own: "pc_ticket (pc s t) = Some n" "n \<in> set q" "\<not> Finished (ticket s n)" "\<And>m. pc s t \<noteq> Critical m"
    using t mcs_invD(7) [OF inv, of t] by auto
  have unf: "unfinished (mcs_step t s) q = unfinished s q" using enters by (simp add: unfinished_def)
  have occ: "occupied (mcs_step t s) = (occupied s \<or> go)"
    using occupied_goto [of "mcs_step t s" s t "if go then Critical n else l"] enters own(4) by auto
  have "mcs_observe t s = (if go then [Enter n] else [])"
    using t enters by (auto simp: mcs_observe_def observe_def split: mcs_pc.splits)
  with enter_accepted [OF inv own(1,4,2,3) go] unf occ show ?thesis by (cases go) (simp_all add: event_lists)
qed

lemma mcs_simulation:
  assumes inv: "mcs_inv s q C"
  shows "queue_lock_run (mcs_observe t s) (unfinished s q, occupied s) =
    Some (unfinished (mcs_step t s) (q @ arrivals (mcs_observe t s)), occupied (mcs_step t s))"
proof -
  let ?s = "mcs_step t s"
  note ok = mcs_invD(7) [OF inv, of t]
  have silent: ?thesis if "mcs_observe t s = []" "unfinished ?s q = unfinished s q" "occupied ?s = occupied s"
    using that by (simp add: event_lists)
  show ?thesis
  proof (cases "pc s t")
    case Outside
    then have "?s = s" by (simp add: mcs_step_def)
    then show ?thesis using Outside by (intro silent) (auto simp: mcs_observe_def observe_def)
  next
    case (Exchange n)
    then have "n \<notin> set q" "\<not> Finished (ticket s n)" using ok by auto
    moreover have "occupied ?s = occupied s"
      using occupied_goto [of ?s s t "Publish n (top_ticket s)"] Exchange by (simp add: mcs_step_def)
    ultimately show ?thesis
      using Exchange by (auto simp: mcs_observe_def observe_def unfinished_def event_lists mcs_step_def)
  next
    case (Publish n p)
    then have "\<not> Finished (ticket s n)" using ok by simp
    then show ?thesis
      using Publish occupied_goto [of ?s s t "Wait n"] unfinished_same [of ?s s n "\<lparr>Prev = p, Finished = False\<rparr>"]
      by (intro silent) (simp_all add: mcs_observe_def observe_def mcs_step_def)
  next
    case (Wait n)
    then show ?thesis using ok
      by (intro enter_or_stay [OF inv, of t n "Prev (ticket s n) = NULL" "Load n"]) (auto simp: mcs_step_def)
  next
    case (Load n)
    then show ?thesis using ok
      by (intro enter_or_stay [OF inv, of t n "Finished (ticket s (Prev (ticket s n)))" "Wait n"])
        (auto simp: mcs_step_def)
  next
    case (Critical n)
    then have "mcs_observe t s = [Leave n]" by (simp add: mcs_observe_def observe_def)
    with leave_accepted [OF inv Critical] show ?thesis by (simp add: event_lists)
  next
    case (Release n)
    then show ?thesis
      using occupied_goto [of ?s s t Outside] unfinished_same [of ?s s n "(ticket s n)\<lparr>Prev := NULL\<rparr>"]
      by (intro silent) (simp_all add: mcs_observe_def observe_def mcs_step_def)
  qed
qed

section \<open>Runs are accepted\<close>

definition called :: "mcs_event list \<Rightarrow> ptr set" where
  "called es = {n. Call n \<in> set es}"

definition mcs_good :: "mcs_state \<times> mcs_event list \<Rightarrow> bool" where
  "mcs_good = (\<lambda>(s, es). mcs_inv s (arrivals es) (called es) \<and>
     queue_lock_run es ([], False) = Some (unfinished s (arrivals es), occupied s))"

lemma observe_called: "called (es @ mcs_observe t s) = called es"
  by (auto simp: called_def mcs_observe_def observe_def split: mcs_pc.splits)

lemma mcs_inv_observe:
  assumes "mcs_inv s q C"
  shows "mcs_inv (mcs_step t s) (q @ arrivals (mcs_observe t s)) C"
proof (cases "\<exists>n. pc s t = Exchange n")
  case True
  then obtain n where "pc s t = Exchange n" by blast
  with mcs_inv_exchange [OF assms this] show ?thesis by (simp add: mcs_observe_def observe_def event_lists)
next
  case False
  then have "arrivals (mcs_observe t s) = []" by (auto simp: mcs_observe_def observe_def event_lists split: mcs_pc.splits)
  with mcs_inv_step [OF assms, of t] False show ?thesis by simp
qed

lemma arrivals_append [simp]: "arrivals (es @ fs) = arrivals es @ arrivals fs"
  by (simp add: arrivals_def)

lemma mcs_good_step: "mcs_trans x y \<Longrightarrow> mcs_good x \<Longrightarrow> mcs_good y"
proof (induction rule: mcs_trans.induct)
  case (trans_call s t n es)
  then have "mcs_inv s (arrivals es) (called es)" and run: "queue_lock_run es ([], False) = Some (unfinished s (arrivals es), occupied s)"
    by (simp_all add: mcs_good_def)
  then have "mcs_inv (mcs_call t n s) (arrivals es) (insert n (called es))"
    using trans_call.hyps by (intro mcs_inv_call) (auto simp: called_def)
  moreover have "insert n (called es) = called (es @ [Call n])" by (auto simp: called_def)
  moreover have "arrivals [Call n] = []" by (simp add: arrivals_def)
  moreover have "occupied (mcs_call t n s) = occupied s"
    using occupied_goto [of "mcs_call t n s" s t "Exchange n"] trans_call.hyps(1) by (simp add: mcs_call_def)
  moreover have "unfinished (mcs_call t n s) q = unfinished s q" for q by (simp add: unfinished_def mcs_call_def)
  ultimately show ?case using run by (simp add: mcs_good_def queue_lock_run_append)
next
  case (trans_step s es t)
  then have inv: "mcs_inv s (arrivals es) (called es)" and run: "queue_lock_run es ([], False) = Some (unfinished s (arrivals es), occupied s)"
    by (simp_all add: mcs_good_def)
  show ?case using mcs_inv_observe [OF inv] mcs_simulation [OF inv] run
    by (simp add: mcs_good_def queue_lock_run_append observe_called)
qed

lemma mcs_good_start: "mcs_start x \<Longrightarrow> mcs_good x"
proof -
  assume "mcs_start x"
  then obtain s where x: "x = (s, [])" and s: "mcs_init s" by (auto simp: mcs_start_def)
  have "mcs_inv s [] {}" by (rule mcs_inv_init [OF s])
  with s show "mcs_good x" by (auto simp: x mcs_good_def called_def event_lists unfinished_def occupied_def mcs_init_def)
qed

definition mcs_inside :: "mcs_state \<times> mcs_event list \<Rightarrow> nat \<Rightarrow> bool" where
  "mcs_inside x t \<longleftrightarrow> (\<exists>n. pc (fst x) t = Critical n)"

interpretation mcs: queue_lock_impl mcs_start mcs_trans mcs_inside mcs_good snd
proof
  show "t = u" if "mcs_good x" "mcs_inside x t" "mcs_inside x u" for x t u
    using that critical_unique by (auto simp: mcs_good_def mcs_inside_def)
  show "\<exists>q. queue_lock_run (snd x) ([], False) = Some (q, \<exists>t. mcs_inside x t)" if "mcs_good x" for x
    using that by (auto simp: mcs_good_def mcs_inside_def occupied_def)
qed (use mcs_good_start mcs_good_step in auto)

end
