(* ===== verification/Byte_Memory.thy ===== *)
theory Byte_Memory
  imports Kernel_Prelude
begin

unbundle bit_operations_syntax

text \<open>
  Byte-addressed memory for the components that work on raw tables and bitmaps: a function from
  64-bit addresses to bytes, and little-endian access to multi-byte values as on x86.
\<close>

type_synonym mem = "u64 \<Rightarrow> u8"

fun read_le :: "nat \<Rightarrow> mem \<Rightarrow> ptr \<Rightarrow> nat" where
  "read_le 0 m p = 0"
| "read_le (Suc n) m p = unat (m p) + 256 * read_le n m (p + 1)"

fun write_le :: "nat \<Rightarrow> mem \<Rightarrow> ptr \<Rightarrow> nat \<Rightarrow> mem" where
  "write_le 0 m p v = m"
| "write_le (Suc n) m p v = (write_le n m (p + 1) (v div 256))(p := of_nat v)"

definition read16 :: "mem \<Rightarrow> ptr \<Rightarrow> u16" where
  "read16 m p = of_nat (read_le 2 m p)"

definition read32 :: "mem \<Rightarrow> ptr \<Rightarrow> u32" where
  "read32 m p = of_nat (read_le 4 m p)"

definition read64 :: "mem \<Rightarrow> ptr \<Rightarrow> u64" where
  "read64 m p = of_nat (read_le 8 m p)"

definition write32 :: "mem \<Rightarrow> ptr \<Rightarrow> u32 \<Rightarrow> mem" where
  "write32 m p v = write_le 4 m p (unat v)"

definition write64 :: "mem \<Rightarrow> ptr \<Rightarrow> u64 \<Rightarrow> mem" where
  "write64 m p v = write_le 8 m p (unat v)"

definition bytes_at :: "mem \<Rightarrow> ptr \<Rightarrow> nat \<Rightarrow> u8 list" where
  "bytes_at m p n = map (\<lambda>i. m (p + of_nat i)) [0..<n]"

lemma bytes_at_0 [simp]: "bytes_at m p 0 = []"
  by (simp add: bytes_at_def)

lemma bytes_at_Suc: "bytes_at m p (Suc n) = bytes_at m p n @ [m (p + of_nat n)]"
  by (simp add: bytes_at_def)

lemma length_bytes_at [simp]: "length (bytes_at m p n) = n"
  by (simp add: bytes_at_def)

lemma read_le_bound: "read_le n m p < 256 ^ n"
proof (induction n arbitrary: p)
  case (Suc n)
  have "unat (m p) < 256" using unsigned_less [of "m p"] by simp
  with Suc [of "p + 1"] show ?case by simp
qed simp

lemma write_le_other:
  assumes "\<And>i. i < n \<Longrightarrow> q \<noteq> p + of_nat i"
  shows "write_le n m p v q = m q"
  using assms
proof (induction n arbitrary: p v)
  case (Suc n)
  have "write_le n m (p + 1) (v div 256) q = m q"
    using Suc.prems [of "Suc _"] by (intro Suc.IH) (simp add: add.assoc)
  moreover have "q \<noteq> p" using Suc.prems [of 0] by simp
  ultimately show ?case by simp
qed simp

lemma read_le_cong:
  assumes "\<And>i. i < n \<Longrightarrow> m (p + of_nat i) = m' (p + of_nat i)"
  shows "read_le n m p = read_le n m' p"
  using assms
proof (induction n arbitrary: p)
  case (Suc n)
  have "read_le n m (p + 1) = read_le n m' (p + 1)"
    using Suc.prems [of "Suc _"] by (intro Suc.IH) (simp add: add.assoc)
  then show ?case using Suc.prems [of 0] by simp
qed simp

lemma offset_neq: "0 < i \<Longrightarrow> i < 2 ^ 64 \<Longrightarrow> p + of_nat i \<noteq> (p :: u64)"
proof
  assume "0 < i" "i < 2 ^ 64" "p + of_nat i = p"
  then have "unat (of_nat i :: u64) = 0" by simp
  with \<open>0 < i\<close> \<open>i < 2 ^ 64\<close> show False by (simp add: unat_of_nat take_bit_nat_eq_self)
qed

text \<open>What is written is read back, cut to the number of bytes.\<close>

lemma read_write_le:
  assumes "n < 2 ^ 64"
  shows "read_le n (write_le n m p v) p = v mod 256 ^ n"
  using assms
proof (induction n arbitrary: p v)
  case (Suc n)
  have "read_le n (write_le (Suc n) m p v) (p + 1) = read_le n (write_le n m (p + 1) (v div 256)) (p + 1)"
  proof (rule read_le_cong)
    fix i assume "i < n"
    then have "p + 1 + of_nat i \<noteq> p" using offset_neq [of "Suc i" p] Suc.prems by (simp add: add.assoc)
    then show "write_le (Suc n) m p v (p + 1 + of_nat i) = write_le n m (p + 1) (v div 256) (p + 1 + of_nat i)" by simp
  qed
  also have "\<dots> = v div 256 mod 256 ^ n" using Suc by simp
  finally have "read_le (Suc n) (write_le (Suc n) m p v) p = v mod 256 + 256 * (v div 256 mod 256 ^ n)"
    by (simp add: unat_of_nat take_bit_eq_mod)
  also have "\<dots> = v mod 256 ^ Suc n" by (simp add: mod_mult2_eq add.commute)
  finally show ?case .
qed simp

lemma read64_write64: "read64 (write64 m p v) p = v"
proof -
  have "unat v < 256 ^ 8" using unsigned_less [of v] by simp
  then show ?thesis by (simp add: read64_def write64_def read_write_le)
qed

lemma read32_write32: "read32 (write32 m p v) p = v"
proof -
  have "unat v < 256 ^ 4" using unsigned_less [of v] by simp
  then show ?thesis by (simp add: read32_def write32_def read_write_le)
qed

lemma write64_other: "(\<And>i. i < 8 \<Longrightarrow> q \<noteq> p + of_nat i) \<Longrightarrow> write64 m p v q = m q"
  unfolding write64_def by (rule write_le_other)

lemma read64_cong: "(\<And>i. i < 8 \<Longrightarrow> m (p + of_nat i) = m' (p + of_nat i)) \<Longrightarrow> read64 m p = read64 m' p"
  unfolding read64_def by (subst read_le_cong [of 8 m p m']) auto

lemma unat_ucast_u32: "unat (ucast (x :: u32) :: u64) = unat x"
proof -
  have "unat x < 2 ^ 32" using unsigned_less [of x] by simp
  then show ?thesis by (simp add: unsigned_ucast_eq take_bit_nat_eq_self)
qed

lemma read16_bytes: "read16 m p = of_nat (unat (m p) + 256 * unat (m (p + 1)))"
proof -
  have "(2 :: nat) = Suc (Suc 0)" by simp
  then have "read_le 2 m p = unat (m p) + 256 * (unat (m (p + 1)) + 256 * 0)" by (simp only: read_le.simps)
  then show ?thesis by (simp add: read16_def)
qed

lemma read32_bytes:
  "read32 m p = of_nat (unat (m p) + 256 * (unat (m (p + 1)) + 256 * (unat (m (p + 2)) + 256 * unat (m (p + 3)))))"
proof -
  have "(4 :: nat) = Suc (Suc (Suc (Suc 0)))" by simp
  then have "read_le 4 m p = unat (m p) + 256 * (unat (m (p + 1)) + 256 * (unat (m (p + 1 + 1)) +
      256 * (unat (m (p + 1 + 1 + 1)) + 256 * 0)))"
    by (simp only: read_le.simps)
  then show ?thesis by (simp add: read32_def add.assoc)
qed

lemma read_le_8:
  "read_le 8 m p = read_le 4 m p + 4294967296 * read_le 4 m (p + 4)"
proof -
  have split: "read_le (k + n) m p = read_le k m p + 256 ^ k * read_le n m (p + of_nat k)" for k n
    by (induction k arbitrary: p) (simp_all add: add.assoc algebra_simps)
  show ?thesis using split [of 4 4] by simp
qed

lemma read64_halves: "read64 m p = ucast (read32 m p) + 4294967296 * ucast (read32 m (p + 4))"
proof -
  have "ucast (of_nat (read_le 4 m q) :: u32) = (of_nat (read_le 4 m q) :: u64)" for q
    using read_le_bound [of 4 m q] by (simp add: word_unat_eq_iff unat_ucast_u32 unat_of_nat take_bit_nat_eq_self)
  then show ?thesis by (simp add: read64_def read32_def read_le_8)
qed

text \<open>Two 8-byte words that do not overlap.\<close>

definition apart64 :: "ptr \<Rightarrow> ptr \<Rightarrow> bool" where
  "apart64 p q \<longleftrightarrow> (\<forall>i<8. \<forall>j<8. p + of_nat i \<noteq> q + of_nat (j :: nat))"

lemma read64_write64_apart: "apart64 p q \<Longrightarrow> read64 (write64 m q v) p = read64 m p"
  by (rule read64_cong) (auto simp: apart64_def intro: write64_other)

text \<open>The bytes of a word; memories that agree on them read the same.\<close>

definition word_bytes :: "ptr \<Rightarrow> ptr set" where
  "word_bytes p = (\<lambda>i. p + of_nat i) ` {..<8}"

lemma read64_agree: "(\<And>q. q \<in> word_bytes p \<Longrightarrow> m q = m' q) \<Longrightarrow> read64 m p = read64 m' p"
  by (rule read64_cong) (auto simp: word_bytes_def)

lemma apart64_iff: "apart64 p q \<longleftrightarrow> word_bytes p \<inter> word_bytes q = {}"
  by (auto simp: apart64_def word_bytes_def)

lemma apart64_sym: "apart64 p q \<longleftrightarrow> apart64 q p"
  by (auto simp: apart64_iff)

lemma apart64_offsets:
  assumes "i + 8 \<le> j" "j + 8 \<le> 2 ^ 64"
  shows "apart64 (p + of_nat i) (p + of_nat j)"
proof -
  have "p + of_nat i + of_nat a \<noteq> p + of_nat j + of_nat b" if "a < 8" "b < 8" for a b
  proof
    assume "p + of_nat i + of_nat a = p + of_nat j + of_nat b"
    then have "(of_nat (i + a) :: u64) = of_nat (j + b)" by (simp add: add.assoc)
    then have "unat (of_nat (i + a) :: u64) = unat (of_nat (j + b) :: u64)" by simp
    then show False using that assms by (simp add: unat_of_nat take_bit_nat_eq_self del: of_nat_add)
  qed
  then show ?thesis by (auto simp: apart64_def)
qed

text \<open>Offsets from one base that do not overlap; the bytes of a block.\<close>

lemma offsets_disjoint:
  assumes "b \<le> c \<or> d \<le> a" "b \<le> 2 ^ 64" "d \<le> 2 ^ 64"
  shows "(\<lambda>x. (p :: u64) + of_nat x) ` {a..<b} \<inter> (\<lambda>x. p + of_nat x) ` {c..<d} = {}"
proof -
  have "of_nat x \<noteq> (of_nat y :: u64)" if "x \<in> {a..<b}" "y \<in> {c..<d}" for x y
  proof
    assume "of_nat x = (of_nat y :: u64)"
    then have "unat (of_nat x :: u64) = unat (of_nat y :: u64)" by simp
    with that assms show False by (auto simp: unat_of_nat take_bit_nat_eq_self)
  qed
  then show ?thesis by auto
qed

definition block :: "ptr \<Rightarrow> nat \<Rightarrow> ptr set" where
  "block p n = (\<lambda>x. p + of_nat x) ` {..<n}"

lemma word_bytes_offset: "word_bytes (p + a) \<subseteq> (\<lambda>x. p + of_nat x) ` {unat a..<unat a + 8}"
proof
  fix q assume "q \<in> word_bytes (p + a)"
  then obtain x where "x < 8" "q = p + of_nat (unat a + x)" by (auto simp: word_bytes_def add.assoc)
  then show "q \<in> (\<lambda>x. p + of_nat x) ` {unat a..<unat a + 8}" by (intro image_eqI [of _ _ "unat a + x"]) auto
qed

lemma notin_word_bytes:
  assumes "unat p + 8 \<le> unat q"
  shows "q \<notin> word_bytes p"
proof
  assume "q \<in> word_bytes p"
  then obtain x where "x < 8" "q = p + of_nat x" by (auto simp: word_bytes_def)
  moreover have "unat q < 2 ^ 64" using unsigned_less [of q, where ?'a = nat] by simp
  ultimately show False using assms by (auto simp: unat_word_ariths unat_of_nat)
qed

lemma word_bytes_block: "unat a + 8 \<le> n \<Longrightarrow> word_bytes (p + a) \<subseteq> block p n"
  using word_bytes_offset [of p a] unfolding block_def by fastforce

lemma apart64_plus:
  assumes "unat a + 8 \<le> unat b \<or> unat b + 8 \<le> unat a" "unat a + 8 \<le> 2 ^ 64" "unat b + 8 \<le> 2 ^ 64"
  shows "apart64 (p + a) (p + b)"
  using offsets_disjoint [OF assms, of p] word_bytes_offset [of p a] word_bytes_offset [of p b]
  by (auto simp: apart64_iff)

lemmas apart64_base = apart64_plus [where a = 0, simplified] apart64_plus [where b = 0, simplified]

lemma write64_notin: "q \<notin> word_bytes p \<Longrightarrow> write64 m p v q = m q"
  by (rule write64_other) (auto simp: word_bytes_def)

lemma read64_upd_other: "q \<notin> word_bytes p \<Longrightarrow> read64 (m(q := v)) p = read64 m p"
  by (rule read64_agree) auto

lemma byte_notin_word:
  assumes "unat a + 8 \<le> unat b"
  shows "p + b \<notin> word_bytes (p + a)"
proof -
  have "p + b \<in> (\<lambda>x. p + of_nat x) ` {unat b..<Suc (unat b)}" by (rule image_eqI [of _ _ "unat b"]) auto
  moreover have "Suc (unat b) \<le> 2 ^ 64" using unsigned_less [of b, where ?'a = nat] by simp
  ultimately show ?thesis
    using offsets_disjoint [of "unat a + 8" "unat b" "Suc (unat b)" "unat a" p] word_bytes_offset [of p a] assms by auto
qed

lemma byte_before_word:
  assumes "unat b < unat a" "unat a + 8 \<le> 2 ^ 64"
  shows "p + b \<notin> word_bytes (p + a)"
proof -
  have "p + b \<in> (\<lambda>x. p + of_nat x) ` {unat b..<Suc (unat b)}" by (rule image_eqI [of _ _ "unat b"]) auto
  then show ?thesis
    using offsets_disjoint [of "unat a + 8" "unat b" "Suc (unat b)" "unat a" p] word_bytes_offset [of p a] assms by auto
qed

section \<open>Alignment\<close>

text \<open>Words at different multiples of 8 are apart; objects at multiples of 16 have two words.\<close>

lemma aligned_apart:
  assumes "8 dvd unat p" "8 dvd unat q" "p \<noteq> q"
  shows "apart64 p q"
proof -
  obtain i j where ij: "unat p = 8 * i" "unat q = 8 * j" using assms(1,2) by (auto elim!: dvdE)
  then have "i \<noteq> j" using assms(3) by (auto simp: word_unat_eq_iff)
  moreover have "i + 1 \<le> 2 ^ 61" "j + 1 \<le> 2 ^ 61"
    using ij unsigned_less [of p, where ?'a = nat] unsigned_less [of q, where ?'a = nat] by simp_all
  moreover from \<open>i \<noteq> j\<close> have "8 * i + 8 \<le> 8 * j \<or> 8 * j + 8 \<le> 8 * i" by linarith
  ultimately show ?thesis using ij apart64_plus [of p q 0] by simp
qed

lemma aligned_second_word:
  assumes "16 dvd unat (x :: u64)"
  shows "unat (x + 8) = unat x + 8"
proof -
  obtain i where i: "unat x = 16 * i" using assms by (auto elim: dvdE)
  then have "i < 2 ^ 60" using unsigned_less [of x, where ?'a = nat] by simp
  then show ?thesis using i by (simp add: unat_word_ariths)
qed

lemma object_words_apart:
  assumes "16 dvd unat x" "16 dvd unat y"
  shows "apart64 x (y + 8)" "x \<noteq> y \<Longrightarrow> apart64 x y" "x \<noteq> y \<Longrightarrow> apart64 (x + 8) (y + 8)"
proof -
  have d: "8 dvd unat x" "8 dvd unat y" "8 dvd unat (x + 8)" "8 dvd unat (y + 8)"
    using assms by (auto simp: aligned_second_word intro: dvd_trans [of 8 16] dvd_add)
  have "\<not> 16 dvd unat (y + 8)"
    using assms(2) dvd_add_right_iff [of 16 "unat y" 8] by (simp add: aligned_second_word)
  then have "x \<noteq> y + 8" using assms(1) by auto
  then show "apart64 x (y + 8)" using d by (intro aligned_apart)
  show "apart64 x y" "apart64 (x + 8) (y + 8)" if "x \<noteq> y"
    using d that by (auto intro!: aligned_apart)
qed

text \<open>A word is 0 only if its first byte is.\<close>

lemma unat_read64: "unat (read64 m p) = read_le 8 m p"
proof -
  have "read_le 8 m p < 2 ^ 64" using read_le_bound [of 8 m p] by simp
  then show ?thesis unfolding read64_def unat_of_nat by simp
qed

lemma read64_zero_byte: "read64 m p = 0 \<Longrightarrow> m p = 0"
proof -
  assume "read64 m p = 0"
  then have "read_le 8 m p = 0" using unat_read64 [of m p] by simp
  moreover have "(8 :: nat) = Suc 7" by simp
  ultimately have "unat (m p) + 256 * read_le 7 m (p + 1) = 0" by (simp only: read_le.simps)
  then show "m p = 0" by (simp only: add_is_0 unat_eq_zero)
qed

end
