(* ===== verification/Atomic_Ops.thy ===== *)
theory Atomic_Ops
  imports Byte_Memory "HOL-Library.Monad_Syntax"
begin

unbundle bit_operations_syntax

text \<open>
  The atomic read-modify-write operations of \<open>kernel/utils/Atomic.c\<close>, \<open>Atomic.h\<close> and the release of
  the spinlock of \<open>kernel/utils/Spinlock.c\<close>, on byte memory. Each inline assembly block is the effect
  of its instruction. \<open>cmpxchg\<close> compares with the register \<open>al\<close>, which the code does not set: its
  content on entry is a parameter.
\<close>

section \<open>Operations\<close>

definition AtomicAnd64 :: "mem \<Rightarrow> ptr \<Rightarrow> u64 \<Rightarrow> mem" where
  "AtomicAnd64 m trg mask' = write64 m trg (read64 m trg AND mask')"

definition AtomicAnd8 :: "mem \<Rightarrow> ptr \<Rightarrow> u8 \<Rightarrow> mem" where
  "AtomicAnd8 m trg mask' = m(trg := m trg AND mask')"

definition AtomicOr64 :: "mem \<Rightarrow> ptr \<Rightarrow> u64 \<Rightarrow> mem" where
  "AtomicOr64 m trg mask' = write64 m trg (read64 m trg OR mask')"

definition AtomicOr8 :: "mem \<Rightarrow> ptr \<Rightarrow> u8 \<Rightarrow> mem" where
  "AtomicOr8 m trg mask' = m(trg := m trg OR mask')"

definition AtomicExchange64 :: "mem \<Rightarrow> ptr \<Rightarrow> u64 \<Rightarrow> mem \<times> u64" where
  "AtomicExchange64 m trg set' = (write64 m trg set', read64 m trg)"

definition AtomicExchange8 :: "mem \<Rightarrow> ptr \<Rightarrow> u8 \<Rightarrow> mem \<times> u8" where
  "AtomicExchange8 m trg set' = (m(trg := set'), m trg)"

definition AtomicLoad :: "mem \<Rightarrow> ptr \<Rightarrow> u64" where
  "AtomicLoad m from' = read64 m from'"

text \<open>
  \<open>cmpxchgb\<close> stands without the \<open>lock\<close> prefix that the operations above have (and that \<open>xchg\<close> does not
  need): its load and its store are two accesses, between which another CPU may write. The store comes in any
  case: when the comparison of \<open>al\<close> with the loaded byte \<open>dest\<close> fails, \<open>dest\<close> is written back. The
  result is the memory, \<open>al\<close> and the zero flag.
\<close>

definition cmpxchgb_store :: "mem \<Rightarrow> ptr \<Rightarrow> u8 \<Rightarrow> u8 \<Rightarrow> u8 \<Rightarrow> mem \<times> u8 \<times> bool" where
  "cmpxchgb_store m val set' al dest =
     (if al = dest then (m(val := set'), al, True) else (m(val := dest), dest, False))"

text \<open>
  \<open>while( !(flags & ZF) )\<close> around it, on a CPU that is alone: the store directly follows the load of
  \<open>m val\<close>. \<open>Spin_Lock\<close> has the same loop with other CPUs between the accesses.
\<close>

partial_function (option) AtomicCompareAndExchange8 :: "mem \<Rightarrow> ptr \<Rightarrow> u8 \<Rightarrow> u8 \<Rightarrow> mem option" where
  "AtomicCompareAndExchange8 m val set' al =
     (let (m', al', zf) = cmpxchgb_store m val set' al (m val)
      in if zf then Some m' else AtomicCompareAndExchange8 m' val set' al')"

definition SpinlockRelease :: "mem \<Rightarrow> ptr \<Rightarrow> u8 \<Rightarrow> mem option" where
  "SpinlockRelease m lock al = AtomicCompareAndExchange8 m lock 0 al"

section \<open>Properties\<close>

text \<open>An exchange returns what a load before it returns, and a load after it returns what was set.\<close>

lemma AtomicExchange64_load:
  "snd (AtomicExchange64 m trg set') = AtomicLoad m trg" "AtomicLoad (fst (AtomicExchange64 m trg set')) trg = set'"
  by (simp_all add: AtomicExchange64_def AtomicLoad_def read64_write64)

lemma AtomicCompareAndExchange8_stores: "AtomicCompareAndExchange8 m val set' al = Some (m(val := set'))"
proof (cases "al = m val")
  case True
  then show ?thesis by (subst AtomicCompareAndExchange8.simps) (simp add: cmpxchgb_store_def)
next
  case False
  then have "AtomicCompareAndExchange8 m val set' al = AtomicCompareAndExchange8 m val set' (m val)"
    by (subst AtomicCompareAndExchange8.simps) (simp add: cmpxchgb_store_def)
  also have "\<dots> = Some (m(val := set'))"
    by (subst AtomicCompareAndExchange8.simps) (simp add: cmpxchgb_store_def)
  finally show ?thesis .
qed

text \<open>
  \<open>AtomicOr64\<close> sets and \<open>AtomicAnd64\<close> with the complement clears exactly the bits of the mask in
  the word at the target, and neither touches a byte outside it.
\<close>

theorem Atomic64_bits:
  "(\<forall>k. bit (read64 (AtomicOr64 m trg mask') trg) k \<longleftrightarrow> bit (read64 m trg) k \<or> bit mask' k) \<and>
   (\<forall>k. bit (read64 (AtomicAnd64 m trg (NOT mask')) trg) k \<longleftrightarrow> bit (read64 m trg) k \<and> \<not> bit mask' k) \<and>
   (\<forall>q. (\<forall>i<8. q \<noteq> trg + of_nat i) \<longrightarrow> AtomicOr64 m trg mask' q = m q \<and> AtomicAnd64 m trg mask' q = m q)"
  using bit_imp_le_length [of "read64 m trg"]
  by (auto simp: AtomicOr64_def AtomicAnd64_def read64_write64 bit_simps write64_other)

theorem Atomic64_bits_witness: "AtomicOr64 (\<lambda>_. 0) 64 1 72 = 0"
proof -
  have "\<forall>i\<in>set [0..<8]. (72 :: ptr) \<noteq> 64 + of_nat i" by code_simp
  then have "\<forall>i<8. (72 :: ptr) \<noteq> 64 + of_nat i" by simp
  then show ?thesis using Atomic64_bits [of "\<lambda>_. 0" 64 1] by blast
qed

text \<open>
  \<open>AtomicCompareAndExchange8\<close> retries until its store succeeds, so without interference it returns
  and has stored the value whatever was there, also over a lock that is held: it compares with
  what it has just read. \<open>SpinlockRelease\<close> therefore releases in every state.
\<close>

theorem AtomicCompareAndExchange8_unconditional:
  "AtomicCompareAndExchange8 m val set' al = Some (m(val := set')) \<and> SpinlockRelease m val al = Some (m(val := 0))"
  by (simp add: AtomicCompareAndExchange8_stores SpinlockRelease_def)

end
