(* ===== verification/MCS_Memory.thy ===== *)
theory MCS_Memory
  imports MCS_Queue Atomic_Ops
begin

text \<open>
  The MCS lock of \<open>kernel/utils/MCS.c\<close> on byte memory. A ticket is a structure of \<open>kernel/utils/MCS.h\<close>: \<open>Prev\<close> in
  the first word, \<open>Finished\<close> in the byte behind it. The exchange is \<open>AtomicExchange64\<close> on the word \<open>top\<close>, and
  \<open>AtomicLoad\<close> loads a whole word where the flag is, padding included. Every run on bytes is a run of
  the lock on records (\<open>MCS_Lock\<close>), so it is accepted by the queue lock (\<open>MCS_Queue\<close>).
\<close>

section \<open>Steps on bytes\<close>

text \<open>
  Each step of a thread is one access to shared memory: the exchange of \<open>top\<close>, the initialisation of the
  ticket (two stores that are one step: other threads read only the flag, the owner only \<open>Prev\<close>), the read of
  \<open>newTop->Prev\<close>, the load of the flag's word and the two stores of \<open>MCSUnlock\<close>. \<open>Pause\<close> has no
  effect on the state.
\<close>

record mcs_mem =
  bytes :: mem
  bpc :: "nat \<Rightarrow> mcs_pc"

definition bgoto :: "nat \<Rightarrow> mcs_pc \<Rightarrow> mem \<Rightarrow> mcs_mem \<Rightarrow> mcs_mem" where
  "bgoto t l m b = \<lparr>bytes = m, bpc = (bpc b)(t := l)\<rparr>"

fun MCSLock_bytes :: "ptr \<Rightarrow> nat \<Rightarrow> mcs_pc \<Rightarrow> mcs_mem \<Rightarrow> mcs_mem option" where
  "MCSLock_bytes top' t (Exchange newTop) b =
     (let (m, prevTop) = AtomicExchange64 (bytes b) top' newTop in Some (bgoto t (Publish newTop prevTop) m b))"
| "MCSLock_bytes top' t (Publish newTop prevTop) b =
     Some (bgoto t (Wait newTop) ((write64 (bytes b) newTop prevTop)(newTop + 8 := 0)) b)"
| "MCSLock_bytes top' t (Wait newTop) b =
     Some (bgoto t (if read64 (bytes b) newTop = NULL then Critical newTop else Load newTop) (bytes b) b)"
| "MCSLock_bytes top' t (Load newTop) b =
     Some (bgoto t (if AtomicLoad (bytes b) (read64 (bytes b) newTop + 8) \<noteq> 0 then Critical newTop else Wait newTop)
       (bytes b) b)"
| "MCSLock_bytes top' t _ b = None"

fun MCSUnlock_bytes :: "nat \<Rightarrow> mcs_pc \<Rightarrow> mcs_mem \<Rightarrow> mcs_mem option" where
  "MCSUnlock_bytes t (Critical n) b = Some (bgoto t (Release n) ((bytes b)(n + 8 := 1)) b)"
| "MCSUnlock_bytes t (Release n) b = Some (bgoto t Outside (write64 (bytes b) n NULL) b)"
| "MCSUnlock_bytes t _ b = None"

definition byte_step :: "ptr \<Rightarrow> nat \<Rightarrow> mcs_mem \<Rightarrow> mcs_mem" where
  "byte_step top' t b = (case MCSLock_bytes top' t (bpc b t) b of
       Some b' \<Rightarrow> b'
     | None \<Rightarrow> (case MCSUnlock_bytes t (bpc b t) b of Some b' \<Rightarrow> b' | None \<Rightarrow> b))"

text \<open>Calls use a ticket of \<open>T\<close> that no call used before and whose flag word is clear.\<close>

inductive byte_trans :: "ptr \<Rightarrow> ptr set \<Rightarrow> mcs_mem \<times> mcs_event list \<Rightarrow> mcs_mem \<times> mcs_event list \<Rightarrow> bool"
  for top' T where
  byte_call: "bpc b t = Outside \<Longrightarrow> Call n \<notin> set es \<Longrightarrow> n \<in> T \<Longrightarrow> AtomicLoad (bytes b) (n + 8) = 0 \<Longrightarrow>
    byte_trans top' T (b, es) (bgoto t (Exchange n) (bytes b) b, es @ [Call n])"
| byte_step: "byte_trans top' T (b, es) (byte_step top' t b, es @ observe (bpc b t) (bpc (byte_step top' t b) t))"

text \<open>The same with the thread that moves.\<close>

inductive byte_move :: "ptr \<Rightarrow> ptr set \<Rightarrow> nat \<Rightarrow> mcs_mem \<times> mcs_event list \<Rightarrow> mcs_mem \<times> mcs_event list \<Rightarrow> bool"
  for top' T where
  move_byte_call: "bpc b t = Outside \<Longrightarrow> Call n \<notin> set es \<Longrightarrow> n \<in> T \<Longrightarrow> AtomicLoad (bytes b) (n + 8) = 0 \<Longrightarrow>
    byte_move top' T t (b, es) (bgoto t (Exchange n) (bytes b) b, es @ [Call n])"
| move_byte_step: "byte_move top' T t (b, es)
    (byte_step top' t b, es @ observe (bpc b t) (bpc (byte_step top' t b) t))"

lemma byte_trans_move: "byte_trans top' T x y \<Longrightarrow> \<exists>t. byte_move top' T t x y"
  by (induction rule: byte_trans.induct) (auto intro: byte_move.intros)

lemma byte_move_trans: "byte_move top' T t x y \<Longrightarrow> byte_trans top' T x y"
  by (induction rule: byte_move.induct) (auto intro: byte_trans.intros)

definition byte_init :: "ptr \<Rightarrow> mcs_mem \<Rightarrow> bool" where
  "byte_init top' b \<longleftrightarrow> read64 (bytes b) top' = NULL \<and> (\<forall>t. bpc b t = Outside)"

text \<open>Tickets are aligned, none is NULL or overlaps the word \<open>top\<close>.\<close>

definition mcs_layout :: "ptr \<Rightarrow> ptr set \<Rightarrow> bool" where
  "mcs_layout top' T \<longleftrightarrow> 8 dvd unat top' \<and> (\<forall>p\<in>T. 16 dvd unat p \<and> p \<noteq> NULL \<and> top' \<noteq> p \<and> top' \<noteq> p + 8)"

section \<open>The relation to the records\<close>

definition mcs_rel :: "ptr \<Rightarrow> ptr set \<Rightarrow> mcs_mem \<Rightarrow> mcs_state \<Rightarrow> bool" where
  "mcs_rel top' T b s \<longleftrightarrow> pc s = bpc b \<and> top_ticket s = read64 (bytes b) top' \<and>
     (\<forall>p\<in>T. Prev (ticket s p) = read64 (bytes b) p \<and> Finished (ticket s p) = (AtomicLoad (bytes b) (p + 8) \<noteq> 0))"

lemma layout_apart:
  assumes "mcs_layout top' T" "p \<in> T"
  shows "apart64 top' p" "apart64 top' (p + 8)" "apart64 p top'" "apart64 (p + 8) top'"
    "q \<in> T \<Longrightarrow> apart64 p (q + 8)" "q \<in> T \<Longrightarrow> apart64 (p + 8) q"
    "q \<in> T \<Longrightarrow> p \<noteq> q \<Longrightarrow> apart64 p q" "q \<in> T \<Longrightarrow> p \<noteq> q \<Longrightarrow> apart64 (p + 8) (q + 8)"
proof -
  have al: "16 dvd unat z" if "z \<in> T" for z using assms(1) that by (auto simp: mcs_layout_def)
  have "8 dvd unat p" "8 dvd unat (p + 8)"
    using al [OF assms(2)] by (auto simp: aligned_second_word intro: dvd_trans [of 8 16] dvd_add)
  then have "apart64 top' p" "apart64 top' (p + 8)" using assms by (auto simp: mcs_layout_def intro!: aligned_apart)
  then show "apart64 top' p" "apart64 top' (p + 8)" "apart64 p top'" "apart64 (p + 8) top'" by (simp_all add: apart64_sym)
  assume q: "q \<in> T"
  note n = object_words_apart [OF al [OF assms(2)] al [OF q]] object_words_apart(1) [OF al [OF q] al [OF assms(2)]]
  show "apart64 p (q + 8)" "apart64 (p + 8) q" using n(1,4) by (simp_all add: apart64_sym)
  show "apart64 p q" "apart64 (p + 8) (q + 8)" if "p \<noteq> q" using n(2,3) that by auto
qed

text \<open>Storing to the flag byte of a ticket.\<close>

lemma self_in_word: "p \<in> word_bytes p"
  unfolding word_bytes_def by (rule image_eqI [of _ _ 0]) auto

lemma byte_store_apart: "apart64 p q \<Longrightarrow> read64 (m(q := v)) p = read64 m p"
  using self_in_word [of q] by (intro read64_upd_other) (auto simp: apart64_iff)

lemma flag_store:
  assumes "mcs_layout top' T" "n \<in> T"
  shows "read64 (m(n + 8 := v)) top' = read64 m top'" "p \<in> T \<Longrightarrow> read64 (m(n + 8 := v)) p = read64 m p"
    "p \<in> T \<Longrightarrow> p \<noteq> n \<Longrightarrow> read64 (m(n + 8 := v)) (p + 8) = read64 m (p + 8)"
  using layout_apart(2) [OF assms] layout_apart(5,8) [OF assms(1), of p n] assms(2)
  by (simp_all add: byte_store_apart)

lemma read64_flag: "v \<noteq> 0 \<Longrightarrow> read64 (m(p := v)) p \<noteq> 0"
  using read64_zero_byte [of "m(p := v)" p] by auto

lemma read64_clear_flag: "read64 m p = 0 \<Longrightarrow> m(p := 0) = m"
  using read64_zero_byte [of m p] by (auto simp: fun_eq_iff)

section \<open>The simulation\<close>

text \<open>What the simulation needs of a state of the lock on records.\<close>

definition tickets_in :: "ptr set \<Rightarrow> mcs_state \<times> mcs_event list \<Rightarrow> bool" where
  "tickets_in T x \<longleftrightarrow> mcs_good x \<and> called (snd x) \<subseteq> T"

lemma pred_of_in: "pred_of q n \<noteq> NULL \<Longrightarrow> pred_of q n \<in> set q"
  unfolding pred_of_def by (auto dest: set_takeWhileD split: if_splits) (metis last_in_set set_takeWhileD)

lemma tickets_inD:
  assumes "tickets_in T (s, es)"
  shows "pc_ticket (pc s t) = Some n \<Longrightarrow> n \<in> T" "pc s t = Load n \<Longrightarrow> Prev (ticket s n) \<in> T"
    "pc s t = Publish n p \<Longrightarrow> \<not> Finished (ticket s n)"
proof -
  have inv: "mcs_inv s (arrivals es) (called es)" and T: "called es \<subseteq> T"
    using assms by (auto simp: tickets_in_def mcs_good_def)
  show "n \<in> T" if "pc_ticket (pc s t) = Some n" using mcs_invD(5) [OF inv that] T by blast
  show "Prev (ticket s n) \<in> T" if "pc s t = Load n"
    using mcs_invD(7) [OF inv, of t] that pred_of_in [of "arrivals es" n] mcs_invD(1) [OF inv] T by auto
  show "\<not> Finished (ticket s n)" if "pc s t = Publish n p" using mcs_invD(7) [OF inv, of t] that by simp
qed

lemma Prev_store:
  assumes "mcs_layout top' T" "n \<in> T"
  shows "read64 (write64 m n v) top' = read64 m top'" "p \<in> T \<Longrightarrow> read64 (write64 m n v) p = (if p = n then v else read64 m p)"
    "p \<in> T \<Longrightarrow> read64 (write64 m n v) (p + 8) = read64 m (p + 8)"
  using layout_apart(1) [OF assms] layout_apart(6,7) [OF assms(1), of p n] assms(2)
  by (auto simp: read64_write64_apart read64_write64)

lemma mcs_relD:
  assumes "mcs_rel top' T b s"
  shows "pc s = bpc b" "top_ticket s = read64 (bytes b) top'"
    "p \<in> T \<Longrightarrow> Prev (ticket s p) = read64 (bytes b) p"
    "p \<in> T \<Longrightarrow> Finished (ticket s p) = (read64 (bytes b) (p + 8) \<noteq> 0)"
  using assms by (auto simp: mcs_rel_def AtomicLoad_def)

lemma byte_simulation:
  assumes lay: "mcs_layout top' T" and rel: "mcs_rel top' T b s" and inv: "tickets_in T (s, es)"
  shows "mcs_rel top' T (byte_step top' t b) (mcs_step t s)"
proof -
  note r = mcs_relD [OF rel]
  have own: "n \<in> T" if "pc_ticket (pc s t) = Some n" for n by (rule tickets_inD(1) [OF inv that])
  note defs = mcs_rel_def byte_step_def bgoto_def mcs_step_def AtomicLoad_def r
  show ?thesis
  proof (cases "pc s t")
    case Outside
    then show ?thesis using rel by (simp add: byte_step_def mcs_step_def r(1) [symmetric])
  next
    case (Exchange n)
    then show ?thesis using layout_apart [OF lay] r(1)
      by (auto simp: defs AtomicExchange64_def read64_write64 read64_write64_apart)
  next
    case (Publish n p)
    then have n: "n \<in> T" "read64 (bytes b) (n + 8) = 0" using own tickets_inD(3) [OF inv] r(4) by auto
    then have "read64 (write64 (bytes b) n p) (n + 8) = 0" using Prev_store(3) [OF lay n(1) n(1)] by simp
    then have "(write64 (bytes b) n p)(n + 8 := 0) = write64 (bytes b) n p" by (rule read64_clear_flag)
    then show ?thesis using Publish r(1) n Prev_store [OF lay n(1)] by (auto simp: defs)
  next
    case (Wait n)
    then show ?thesis using r(1) own by (auto simp: defs)
  next
    case (Load n)
    then have "n \<in> T" "Prev (ticket s n) \<in> T" using own tickets_inD(2) [OF inv] by auto
    then show ?thesis using Load r(1) by (auto simp: defs)
  next
    case (Critical n)
    then have "n \<in> T" using own by simp
    then show ?thesis using Critical r(1) flag_store [OF lay \<open>n \<in> T\<close>] by (auto simp: defs read64_flag)
  next
    case (Release n)
    then have "n \<in> T" using own by simp
    then show ?thesis using Release r(1) Prev_store [OF lay \<open>n \<in> T\<close>] by (auto simp: defs)
  qed
qed

section \<open>Runs\<close>

definition record_view :: "mcs_mem \<Rightarrow> mcs_state" where
  "record_view b = \<lparr>top_ticket = NULL,
     ticket = (\<lambda>p. \<lparr>Prev = read64 (bytes b) p, Finished = (AtomicLoad (bytes b) (p + 8) \<noteq> 0)\<rparr>), pc = bpc b\<rparr>"

lemma byte_move_simulated:
  assumes lay: "mcs_layout top' T" and step: "byte_move top' T t (b, es) (b', es')"
    and rel: "mcs_rel top' T b s" and inv: "tickets_in T (s, es)"
  shows "\<exists>s'. mcs_move t (s, es) (s', es') \<and> mcs_rel top' T b' s' \<and> tickets_in T (s', es')"
  using step
proof cases
  case (move_byte_call n)
  have n: "n \<noteq> NULL" using lay move_byte_call(5) by (auto simp: mcs_layout_def)
  have "mcs_move t (s, es) (mcs_call t n s, es @ [Call n])"
    using move_byte_call rel n by (intro move_call) (auto simp: mcs_rel_def)
  moreover have "mcs_rel top' T b' (mcs_call t n s)"
    using rel move_byte_call(1) by (simp add: mcs_rel_def mcs_call_def bgoto_def)
  ultimately show ?thesis
    using move_byte_call inv mcs_good_step [OF mcs_move_trans] by (auto simp: tickets_in_def called_def)
next
  case move_byte_step
  have r: "mcs_rel top' T b' (mcs_step t s)" unfolding move_byte_step(1) by (rule byte_simulation [OF lay rel inv])
  then have obs: "observe (bpc b t) (bpc b' t) = mcs_observe t s"
    using rel by (simp add: mcs_rel_def mcs_observe_def)
  then have tr: "mcs_move t (s, es) (mcs_step t s, es')" using move_step [of t s es] move_byte_step by simp
  moreover have "called es' = called es" using move_byte_step(1,2) obs observe_called by simp
  ultimately show ?thesis using r inv mcs_good_step [OF mcs_move_trans [OF tr]] by (auto simp: tickets_in_def)
qed

text \<open>The lock on bytes as a queue lock: the contract's consequences hold for it as for the one on records.\<close>

definition byte_start :: "ptr \<Rightarrow> ptr set \<Rightarrow> mcs_mem \<times> mcs_event list \<Rightarrow> bool" where
  "byte_start top' T = (\<lambda>(b, es). mcs_layout top' T \<and> byte_init top' b \<and> es = [])"

definition byte_good :: "ptr \<Rightarrow> ptr set \<Rightarrow> mcs_mem \<times> mcs_event list \<Rightarrow> bool" where
  "byte_good top' T = (\<lambda>(b, es). mcs_layout top' T \<and> (\<exists>s. mcs_rel top' T b s \<and> tickets_in T (s, es)))"

definition byte_inside :: "mcs_mem \<times> mcs_event list \<Rightarrow> nat \<Rightarrow> bool" where
  "byte_inside x t \<longleftrightarrow> (\<exists>n. bpc (fst x) t = Critical n)"

lemma byte_start_record:
  assumes "byte_start top' T x"
  shows "\<exists>s. mcs_start (s, snd x) \<and> mcs_rel top' T (fst x) s \<and> tickets_in T (s, snd x)"
proof -
  obtain b where x: "x = (b, [])" and init: "byte_init top' b" using assms by (auto simp: byte_start_def)
  have start: "mcs_start (record_view b, [])"
    using init by (simp add: mcs_start_def mcs_init_def byte_init_def record_view_def)
  moreover have "tickets_in T (record_view b, [])" using mcs_good_start [OF start] by (simp add: tickets_in_def called_def)
  moreover have "mcs_rel top' T b (record_view b)" using init by (simp add: mcs_rel_def record_view_def byte_init_def)
  ultimately show ?thesis by (auto simp: x)
qed

lemma byte_good_start: "byte_start top' T x \<Longrightarrow> byte_good top' T x"
  using byte_start_record [of top' T x] by (cases x) (auto simp: byte_good_def byte_start_def)

lemma byte_good_step: "byte_good top' T x \<Longrightarrow> byte_trans top' T x y \<Longrightarrow> byte_good top' T y"
  using byte_trans_move byte_move_simulated unfolding byte_good_def by (cases x; cases y) fastforce

lemma byte_good_record:
  assumes "byte_good top' T x"
  obtains s where "mcs_good (s, snd x)" "pc s = bpc (fst x)" "\<And>t. mcs_inside (s, snd x) t = byte_inside x t"
  using assms by (auto simp: byte_good_def tickets_in_def mcs_rel_def byte_inside_def mcs_inside_def)

interpretation mcs_bytes: queue_lock_impl "byte_start top' T" "byte_trans top' T" byte_inside "byte_good top' T" snd
  for top' T
proof
  fix x assume good: "byte_good top' T x"
  obtain s where s: "mcs_good (s, snd x)" "\<And>t. mcs_inside (s, snd x) t = byte_inside x t"
    using byte_good_record [OF good] by blast
  show "t = u" if "byte_inside x t" "byte_inside x u" for t u using mcs.exclusive [OF s(1)] s(2) that by blast
  show "\<exists>q. queue_lock_run (snd x) ([], False) = Some (q, \<exists>t. byte_inside x t)" using mcs.accepted [OF s(1)] s(2) by simp
qed (use byte_good_start byte_good_step in auto)

text \<open>The queue of a good state is the list of arrived tickets whose flag word is clear.\<close>

lemma byte_queue:
  assumes "byte_good top' T (b, es)"
  shows "queue_lock_run es ([], False) =
    Some (filter (\<lambda>n. AtomicLoad (bytes b) (n + 8) = 0) (arrivals es), \<exists>t n. bpc b t = Critical n)"
proof -
  obtain s where rel: "mcs_rel top' T b s" and inv: "tickets_in T (s, es)" using assms by (auto simp: byte_good_def)
  have good: "mcs_inv s (arrivals es) (called es)" "called es \<subseteq> T"
    and run: "queue_lock_run es ([], False) = Some (unfinished s (arrivals es), occupied s)"
    using inv by (auto simp: tickets_in_def mcs_good_def)
  have "n \<in> T" if "n \<in> set (arrivals es)" for n using that mcs_invD(1) [OF good(1)] good(2) by blast
  then have "unfinished s (arrivals es) = filter (\<lambda>n. AtomicLoad (bytes b) (n + 8) = 0) (arrivals es)"
    using mcs_relD(4) [OF rel] by (auto simp: unfinished_def AtomicLoad_def intro: filter_cong)
  with run mcs_relD(1) [OF rel] show ?thesis by (simp add: occupied_def)
qed

section \<open>An example run\<close>

definition ex_bytes :: "u8 \<Rightarrow> mcs_mem" where
  "ex_bytes v = \<lparr>bytes = (\<lambda>_. 0)(73 := v), bpc = (\<lambda>_. Outside)\<rparr>"

definition ex_stale :: mcs_mem where
  "ex_stale = \<lparr>bytes = (\<lambda>_. 0)(72 := 1), bpc = (\<lambda>_. Outside)\<rparr>"

text \<open>Thread 0 has called with ticket 64 and entered.\<close>

definition ex_entered :: mcs_mem where
  "ex_entered = (byte_step 0x1000 0 ^^ 3) (bgoto 0 (Exchange 64) (bytes (ex_bytes 0)) (ex_bytes 0))"

primrec step_events :: "ptr \<Rightarrow> nat \<Rightarrow> nat \<Rightarrow> mcs_mem \<Rightarrow> mcs_event list" where
  "step_events top' t 0 b = []"
| "step_events top' t (Suc k) b =
    observe (bpc b t) (bpc (byte_step top' t b) t) @ step_events top' t k (byte_step top' t b)"

lemma byte_run_steps: "(byte_trans top' T)\<^sup>*\<^sup>* (b, es) ((byte_step top' t ^^ k) b, es @ step_events top' t k b)"
proof (induction k arbitrary: b es)
  case (Suc k)
  from converse_rtranclp_into_rtranclp [of "byte_trans top' T", OF byte_trans.byte_step [where t = t] Suc.IH]
  show ?case by (simp add: funpow_swap1)
qed simp

lemma ex_start: "byte_start 0x1000 {64, 128} (ex_bytes 0, [])"
  by (simp add: byte_start_def mcs_layout_def byte_init_def ex_bytes_def read64_halves read32_bytes)

lemma ex_entered_run: "(byte_trans 0x1000 {64, 128})\<^sup>*\<^sup>* (ex_bytes 0, []) (ex_entered, [Call 64, Arrive 64, Enter 64])"
proof -
  let ?b = "bgoto 0 (Exchange 64) (bytes (ex_bytes 0)) (ex_bytes 0)"
  have "byte_trans 0x1000 {64, 128} (ex_bytes 0, []) (?b, [] @ [Call 64])"
    by (rule byte_call) (simp_all add: ex_bytes_def AtomicLoad_def read64_halves read32_bytes)
  moreover have "(byte_trans 0x1000 {64, 128})\<^sup>*\<^sup>* (?b, [] @ [Call 64])
      (ex_entered, ([] @ [Call 64]) @ step_events 0x1000 0 3 ?b)"
    unfolding ex_entered_def by (rule byte_run_steps)
  moreover have "step_events 0x1000 0 3 ?b = [Arrive 64, Enter 64]" by code_simp
  ultimately show ?thesis by (auto intro: converse_rtranclp_into_rtranclp)
qed

text \<open>Then thread 1 has called with ticket 128 and exchanged it.\<close>

definition ex_queued :: mcs_mem where
  "ex_queued = byte_step 0x1000 1 (bgoto 1 (Exchange 128) (bytes ex_entered) ex_entered)"

lemma ex_queued_run:
  "(byte_trans 0x1000 {64, 128})\<^sup>*\<^sup>* (ex_bytes 0, []) (ex_queued, [Call 64, Arrive 64, Enter 64, Call 128, Arrive 128])"
proof -
  let ?b = "bgoto 1 (Exchange 128) (bytes ex_entered) ex_entered" and ?es = "[Call 64, Arrive 64, Enter 64]"
  have out: "bpc ex_entered 1 = Outside" "AtomicLoad (bytes ex_entered) (128 + 8) = 0" by code_simp+
  have "byte_trans 0x1000 {64, 128} (ex_entered, ?es) (?b, ?es @ [Call 128])"
    using out by (intro byte_call) simp_all
  moreover have "observe (bpc ?b 1) (bpc ex_queued 1) = [Arrive 128]"
    by (simp add: ex_queued_def observe_def bgoto_def byte_step_def AtomicExchange64_def)
  then have "byte_trans 0x1000 {64, 128} (?b, ?es @ [Call 128]) (ex_queued, ?es @ [Call 128, Arrive 128])"
    using byte_trans.byte_step [of "0x1000" "{64, 128}" ?b "?es @ [Call 128]" 1] by (simp add: ex_queued_def)
  ultimately show ?thesis
    using rtranclp.rtrancl_into_rtrancl [OF rtranclp.rtrancl_into_rtrancl [OF ex_entered_run]] by simp
qed

lemma ex_entered_critical: "bpc ex_entered 0 = Critical 64"
  by code_simp

section \<open>Properties\<close>

text \<open>
  C8: The MCS lock on the bytes of its tickets. In every interleaving of threads that lock with aligned
  tickets that were not used before and whose flag word is clear, at most one thread is in the critical
  section, and the events of the run are accepted by the queue lock.
\<close>

theorem MCS_memory_refines:
  assumes "byte_start top' T x0" and "(byte_trans top' T)\<^sup>*\<^sup>* x0 (b, es)"
  shows "(\<forall>t u n m. bpc b t = Critical n \<and> bpc b u = Critical m \<longrightarrow> t = u) \<and>
    (\<exists>q. queue_lock_run es ([], False) = Some (q, \<exists>t n. bpc b t = Critical n))"
proof -
  note good = mcs_bytes.run_good [OF assms]
  show ?thesis using mcs_bytes.exclusive [OF good] mcs_bytes.accepted [OF good] by (auto simp: byte_inside_def)
qed

theorem MCS_memory_refines_witness:
  "bpc ex_entered 0 = Critical 64 \<and> {t. \<exists>m. bpc ex_entered t = Critical m} = {0}"
proof -
  from MCS_memory_refines [OF ex_start ex_entered_run] ex_entered_critical show ?thesis by blast
qed

text \<open>
  C17: The lock is fair. Tickets enter the critical section exactly in the order of their exchanges,
  and each one leaves before the next enters.
\<close>

theorem MCS_entry_order:
  assumes "byte_start top' T x0" and "(byte_trans top' T)\<^sup>*\<^sup>* x0 (b, es)"
  shows "\<exists>waiting ins. arrivals es = entries es @ waiting \<and> entries es = departures es @ ins \<and>
    length ins \<le> 1 \<and> (ins \<noteq> [] \<longleftrightarrow> (\<exists>t n. bpc b t = Critical n))"
  using mcs_bytes.run_entry_order [OF assms] by (simp add: byte_inside_def)

theorem MCS_entry_order_witness:
  "\<exists>es ins. (byte_trans 0x1000 {64, 128})\<^sup>*\<^sup>* (ex_bytes 0, []) (ex_entered, es) \<and> entries es = departures es @ ins \<and>
    length ins = 1"
proof -
  obtain es where run: "(byte_trans 0x1000 {64, 128})\<^sup>*\<^sup>* (ex_bytes 0, []) (ex_entered, es)" using ex_entered_run by blast
  from MCS_entry_order [OF ex_start run] obtain ins where
    ins: "entries es = departures es @ ins" "length ins \<le> 1" "ins \<noteq> []" using ex_entered_critical by blast
  then have "length ins = 1" by (cases ins) auto
  with run ins(1) show ?thesis by blast
qed

text \<open>
  C9: The queue that the lock implements can be read off the memory. In every interleaving of threads that lock
  with aligned tickets that were not used before and whose flag word is clear, the queue lock accepts the
  events, its queue is the list of tickets in the order of their exchanges whose flag word
  \<open>AtomicLoad\<close> still reads as 0, and it is occupied exactly if a thread is in the critical section.
\<close>

theorem MCS_queue_in_memory:
  assumes "byte_start top' T x0" and "(byte_trans top' T)\<^sup>*\<^sup>* x0 (b, es)"
  shows "queue_lock_run es ([], False) =
    Some (filter (\<lambda>n. AtomicLoad (bytes b) (n + 8) = 0) (arrivals es), \<exists>t n. bpc b t = Critical n)"
  using byte_queue [OF mcs_bytes.run_good [OF assms]] .

theorem MCS_queue_in_memory_witness:
  "filter (\<lambda>n. AtomicLoad (bytes ex_queued) (n + 8) = 0) [64, 128] = [64, 128] \<and> (\<exists>t n. bpc ex_queued t = Critical n)"
proof -
  have "queue_lock_run [Call 64, Arrive 64, Enter 64, Call 128, Arrive 128] ([], False) = Some ([64, 128], True)" by simp
  moreover have "arrivals [Call 64, Arrive 64, Enter 64, Call 128, Arrive 128] = [64, 128]" by (simp add: arrivals_def)
  ultimately show ?thesis
    using MCS_queue_in_memory [OF ex_start ex_queued_run] by (simp only: option.inject prod.inject)
qed

text \<open>
  A ticket whose flag is still set from an earlier use breaks mutual exclusion: \<open>MCSLock\<close> publishes
  the ticket before it clears the flag, so the next thread may see it as finished. Threads 0 and
  1 are then both in the critical section.
\<close>

theorem MCS_stale_ticket_unsafe:
  "let b0 = byte_step 0x1000 0 (bgoto 0 (Exchange 64) (bytes ex_stale) ex_stale);
       b1 = (byte_step 0x1000 1 ^^ 4) (bgoto 1 (Exchange 128) (bytes b0) b0);
       b2 = (byte_step 0x1000 0 ^^ 2) b1
   in bpc b2 0 = Critical 64 \<and> bpc b2 1 = Critical 128"
  by code_simp

text \<open>
  A thread that locks, unlocks and locks again with the same ticket waits for itself: the exchange
  returns the ticket as its own predecessor, and the thread never enters however many steps it
  takes.
\<close>

definition self_waiting :: "mcs_mem \<Rightarrow> bool" where
  "self_waiting b \<longleftrightarrow> (case bpc b 0 of
       Exchange n \<Rightarrow> n = 64 \<and> read64 (bytes b) 0x1000 = 64 \<and> read64 ((bytes b)(72 := 0)) 72 = 0
     | Publish n p \<Rightarrow> n = 64 \<and> p = 64 \<and> read64 ((bytes b)(72 := 0)) 72 = 0
     | Wait n \<Rightarrow> n = 64 \<and> read64 (bytes b) 64 = 64 \<and> read64 (bytes b) 72 = 0
     | Load n \<Rightarrow> n = 64 \<and> read64 (bytes b) 64 = 64 \<and> read64 (bytes b) 72 = 0
     | _ \<Rightarrow> False)"

lemma padding_apart: "apart64 p 72 \<Longrightarrow> read64 ((write64 m p v)(72 := 0)) 72 = read64 (m(72 := 0)) 72"
  by (rule read64_agree) (auto simp: apart64_iff intro: write64_notin)

lemma zero_memory: "(\<lambda>_. 0 :: u8)(q := 0) = (\<lambda>_. 0)" "read64 (\<lambda>_. 0) p = 0"
  by (auto simp: read64_halves read32_bytes)

lemma reuse_words:
  "apart64 0x1000 72" "apart64 64 72" "read64 (m(72 := v)) 64 = read64 m 64"
  "read64 (m(72 := v)) 0x1000 = read64 m 0x1000" "read64 (write64 m 64 w) 0x1000 = read64 m 0x1000"
proof -
  have lay: "mcs_layout 0x1000 {64}" and T: "64 \<in> {64 :: ptr}" by (simp_all add: mcs_layout_def)
  show "apart64 0x1000 72" "apart64 64 72" "read64 (m(72 := v)) 64 = read64 m 64"
    "read64 (m(72 := v)) 0x1000 = read64 m 0x1000" "read64 (write64 m 64 w) 0x1000 = read64 m 0x1000"
    using layout_apart(2) [OF lay T] layout_apart(5) [OF lay T T] flag_store(1,2) [OF lay T] Prev_store(1) [OF lay T]
    by simp_all
qed

lemma self_waiting_step:
  assumes "self_waiting b"
  shows "self_waiting (byte_step 0x1000 0 b)"
  using assms reuse_words by (cases "bpc b 0")
    (auto simp: self_waiting_def byte_step_def bgoto_def AtomicExchange64_def AtomicLoad_def padding_apart read64_write64)

theorem MCS_reused_ticket_deadlocks:
  "let b = (byte_step 0x1000 0 ^^ 5) (bgoto 0 (Exchange 64) (bytes (ex_bytes 0)) (ex_bytes 0)) in
     bpc b 0 = Outside \<and>
     (\<forall>k m. bpc ((byte_step 0x1000 0 ^^ k) (bgoto 0 (Exchange 64) (bytes b) b)) 0 \<noteq> Critical m)"
proof -
  define b where "b = (byte_step 0x1000 0 ^^ 5) (bgoto 0 (Exchange 64) (bytes (ex_bytes 0)) (ex_bytes 0))"
  have b: "bpc b 0 = Outside" "read64 (bytes b) 0x1000 = 64" "read64 ((bytes b)(72 := 0)) 72 = 0"
      using reuse_words
    by (simp_all add: b_def eval_nat_numeral byte_step_def bgoto_def ex_bytes_def AtomicExchange64_def
      read64_write64 padding_apart zero_memory)
  have "self_waiting ((byte_step 0x1000 0 ^^ k) (bgoto 0 (Exchange 64) (bytes b) b))" for k
  proof (induction k)
    case 0
    show ?case using b by (simp add: self_waiting_def bgoto_def)
  qed (simp add: self_waiting_step)
  moreover have "bpc b' 0 \<noteq> Critical m" if "self_waiting b'" for b' m using that by (auto simp: self_waiting_def)
  ultimately have "\<forall>k m. bpc ((byte_step 0x1000 0 ^^ k) (bgoto 0 (Exchange 64) (bytes b) b)) 0 \<noteq> Critical m" by blast
  with b(1) show ?thesis by (simp add: b_def [symmetric] Let_def)
qed

text \<open>
  \<open>AtomicLoad\<close> loads eight bytes where the flag has one, and the assignment to the ticket need not clear
  the seven behind it: a byte left there counts as \<open>Finished\<close>. Here byte 73, behind the flag of ticket 64,
  is not 0, and threads 0 and 1 are both in the critical section.
\<close>

theorem MCS_padding_unsafe:
  "let b1 = (byte_step 0x1000 0 ^^ 3) (bgoto 0 (Exchange 64) (bytes (ex_bytes 1)) (ex_bytes 1));
       b2 = (byte_step 0x1000 1 ^^ 4) (bgoto 1 (Exchange 128) (bytes b1) b1)
   in bpc b2 0 = Critical 64 \<and> bpc b2 1 = Critical 128"
  by code_simp

end
