(* ===== verification/MCS_Liveness.thy ===== *)
theory MCS_Liveness
  imports MCS_Memory "HOL-Library.Countable"
begin

text \<open>
  Every thread that asks for the MCS lock gets it, on the bytes of the tickets. The argument is on the runs
  of the middle layer (\<open>MCS_Lock\<close>), which simulate those on bytes (\<open>MCS_Memory\<close>). A run is an infinite sequence of moves of threads,
  each a call of \<open>MCSLock\<close> or a step; the schedule is fair if every thread moves again and again. The
  tickets ahead of a waiting one only become fewer, and the owner of the first ticket gets out of the way
  within its next moves.
\<close>

section \<open>Waiting for helpful moves\<close>

text \<open>
  If a condition holds until a goal, a measure never grows, every move of the helper of the moment
  makes it smaller, and the helper changes only when it does, then the goal is reached.
\<close>

lemma leads_to_helpful:
  fixes M :: "nat \<Rightarrow> nat"
  assumes fair: "\<And>t i. \<exists>j\<ge>i. sched j = t"
    and other: "\<And>i. pend i \<Longrightarrow> sched i \<noteq> helper i \<Longrightarrow>
      goal (Suc i) \<or> pend (Suc i) \<and> M (Suc i) = M i \<and> helper (Suc i) = helper i"
    and helps: "\<And>i. pend i \<Longrightarrow> sched i = helper i \<Longrightarrow> goal (Suc i) \<or> pend (Suc i) \<and> M (Suc i) < M i"
  shows "pend i \<Longrightarrow> \<exists>j\<ge>i. goal j"
proof (induction "M i" arbitrary: i rule: less_induct)
  case less
  obtain j where j: "i \<le> j" "sched j = helper i" using fair by blast
  have "\<exists>k\<ge>i. goal k \<or> pend k \<and> M k < M i"
    if "pend i'" "M i' = M i" "helper i' = helper i" "i \<le> i'" "i' \<le> j" for i'
    using that
  proof (induction "j - i'" arbitrary: i')
    case 0
    then have "i' = j" by simp
    with 0 j helps [of j] have "goal (Suc j) \<or> pend (Suc j) \<and> M (Suc j) < M i" by simp
    with j(1) show ?case by (intro exI [of _ "Suc j"]) simp
  next
    case (Suc d)
    show ?case
    proof (cases "sched i' = helper i'")
      case True
      then have "goal (Suc i') \<or> pend (Suc i') \<and> M (Suc i') < M i" using helps [OF Suc.prems(1)] Suc.prems(2) by simp
      with Suc.prems(4) show ?thesis by (intro exI [of _ "Suc i'"]) simp
    next
      case False
      from other [OF Suc.prems(1) this] show ?thesis
      proof
        assume "pend (Suc i') \<and> M (Suc i') = M i' \<and> helper (Suc i') = helper i'"
        then show ?thesis using Suc.hyps(1) [of "Suc i'"] Suc.hyps(2) Suc.prems by auto
      next
        assume "goal (Suc i')"
        with Suc.prems(4) show ?thesis by (intro exI [of _ "Suc i'"]) simp
      qed
    qed
  qed
  from this [of i] less.prems j(1) obtain k where "k \<ge> i" "goal k \<or> pend k \<and> M k < M i" by auto
  then show ?case using less.hyps [of k] by (meson order_trans)
qed

section \<open>Moves\<close>

lemma mcs_good_move: "mcs_move t x y \<Longrightarrow> mcs_good x \<Longrightarrow> mcs_good y"
  using mcs_move_trans mcs_good_step by blast

text \<open>The queue of a state, and how many moves a thread is from the end of its critical section.\<close>

definition queue :: "mcs_state \<times> mcs_event list \<Rightarrow> ptr list" where
  "queue x = unfinished (fst x) (arrivals (snd x))"

fun stage :: "mcs_pc \<Rightarrow> nat" where
  "stage (Publish n p) = 4"
| "stage (Wait n) = 3"
| "stage (Load n) = 2"
| "stage (Critical n) = 1"
| "stage _ = 0"

definition owns_ticket :: "mcs_state \<times> mcs_event list \<Rightarrow> nat \<Rightarrow> ptr \<Rightarrow> bool" where
  "owns_ticket x t n \<longleftrightarrow> pc_ticket (pc (fst x) t) = Some n"

lemma good_inv: "mcs_good x \<Longrightarrow> mcs_inv (fst x) (arrivals (snd x)) (called (snd x))"
  by (auto simp: mcs_good_def)

lemma owner_unique: "mcs_good x \<Longrightarrow> owns_ticket x t n \<Longrightarrow> owns_ticket x u n \<Longrightarrow> t = u"
  using mcs_invD(6) [OF good_inv] by (auto simp: owns_ticket_def)

lemma queue_split:
  assumes "mcs_good x"
  obtains fin where "arrivals (snd x) = fin @ queue x" "\<forall>y\<in>set fin. Finished (ticket (fst x) y)"
    "\<forall>y\<in>set (queue x). \<not> Finished (ticket (fst x) y) \<and> (\<exists>t. owns_ticket x t y)" "distinct (queue x)"
proof -
  note inv = good_inv [OF assms]
  obtain fin unf where q: "arrivals (snd x) = fin @ unf" "\<forall>y\<in>set fin. Finished (ticket (fst x) y)"
    "\<forall>y\<in>set unf. \<not> Finished (ticket (fst x) y) \<and> (\<exists>t. pc_ticket (pc (fst x) t) = Some y)"
    using mcs_inv_queue [OF inv] .
  have "queue x = unf" using q by (simp add: queue_def unfinished_def)
  with that [of fin] q mcs_invD(2) [OF inv] show ?thesis by (simp add: owns_ticket_def)
qed

section \<open>What a move does to the queue\<close>

lemma mcs_step_pc_other: "u \<noteq> t \<Longrightarrow> pc (mcs_step t s) u = pc s u"
  by (cases "pc s t") (auto simp: mcs_step_def)

lemma move_pc_other: "mcs_move t x y \<Longrightarrow> u \<noteq> t \<Longrightarrow> pc (fst y) u = pc (fst x) u"
  by (induction rule: mcs_move.induct) (simp_all add: mcs_step_pc_other mcs_call_def)

text \<open>A thread with a ticket moves by a step, whose events the queue lock accepts.\<close>

lemma move_is_step:
  assumes "mcs_move t (s, es) y" "owns_ticket (s, es) t n"
  shows "y = (mcs_step t s, es @ mcs_observe t s)"
  using assms by (auto simp: owns_ticket_def elim: mcs_moveE)

lemma step_queue:
  assumes "mcs_good (s, es)"
  shows "queue_lock_run (mcs_observe t s) (queue (s, es), occupied s) =
    Some (queue (mcs_step t s, es @ mcs_observe t s), occupied (mcs_step t s))"
  using mcs_simulation [OF good_inv [OF assms], of t] by (simp add: queue_def)

lemma observe_cases:
  "observe l l' = [] \<or> (\<exists>m. observe l l' = [Arrive m]) \<or> (\<exists>m. observe l l' = [Enter m]) \<or>
    (\<exists>m. observe l l' = [Leave m] \<and> l = Critical m)"
  by (cases l; cases l') (simp_all add: observe_def)

text \<open>Threads other than the owner of the first ticket only add to the queue.\<close>

lemma other_move_queue:
  assumes move: "mcs_move v x y" and good: "mcs_good x" and head: "queue x = h # rest" "owns_ticket x u h" and v: "v \<noteq> u"
  shows "\<exists>ys. queue y = queue x @ ys"
  using move
proof cases
  case (move_call s n es)
  then show ?thesis by (simp add: queue_def unfinished_def mcs_call_def arrivals_def)
next
  case (move_step s es)
  note q = step_queue [OF good [unfolded move_step(1)], of v]
  consider "mcs_observe v s = []" | m where "mcs_observe v s = [Arrive m]" | m where "mcs_observe v s = [Enter m]"
    | m where "mcs_observe v s = [Leave m]" "pc s v = Critical m"
    using observe_cases [of "pc s v" "pc (mcs_step v s) v"] unfolding mcs_observe_def by blast
  then show ?thesis
  proof cases
    case 2
    then have "queue y = queue x @ [m]" using q move_step(1,2) by (simp split: if_splits)
    then show ?thesis by blast
  next
    case 4
    then have "m = h" using q head(1) move_step(1) by (auto split: if_splits)
    then have "owns_ticket x v h" using 4 move_step(1) by (simp add: owns_ticket_def)
    then show ?thesis using owner_unique [OF good _ head(2)] v by blast
  qed (use q move_step in \<open>auto split: if_splits\<close>)
qed

text \<open>The predecessor of the first ticket is finished.\<close>

lemma head_pred_finished:
  assumes good: "mcs_good x" and head: "queue x = h # rest"
  shows "pred_of (arrivals (snd x)) h = NULL \<or> Finished (ticket (fst x) (pred_of (arrivals (snd x)) h))"
proof -
  obtain fin where fin: "arrivals (snd x) = fin @ queue x" "\<forall>y\<in>set fin. Finished (ticket (fst x) y)"
    by (rule queue_split [OF good])
  have "pred_of (arrivals (snd x)) h = last (NULL # fin)"
    using pred_of_first [of "arrivals (snd x)" fin h rest] mcs_invD(2) [OF good_inv [OF good]] fin(1) head by simp
  then show ?thesis using fin(2) by auto
qed

lemma in_queue_pc:
  assumes "mcs_good x" "n \<in> set (queue x)" "owns_ticket x t n"
  shows "(\<exists>p. pc (fst x) t = Publish n p) \<or> pc (fst x) t = Wait n \<or> pc (fst x) t = Load n \<or> pc (fst x) t = Critical n"
proof -
  have "n \<in> set (arrivals (snd x))" "\<not> Finished (ticket (fst x) n)" using assms(2) by (auto simp: queue_def unfinished_def)
  then show ?thesis
    using mcs_invD(7) [OF good_inv [OF assms(1)], of t] assms(3) by (cases "pc (fst x) t") (auto simp: owns_ticket_def)
qed

text \<open>A move of the owner of the first ticket brings it closer to the end of its critical section.\<close>

lemma owner_move:
  assumes move: "mcs_move u x y" and good: "mcs_good x" and head: "queue x = h # rest" "owns_ticket x u h"
  shows "pc (fst x) u = Critical h \<and> queue y = rest \<or>
    queue y = queue x \<and> owns_ticket y u h \<and> stage (pc (fst y) u) < stage (pc (fst x) u)"
proof -
  obtain s es where x: "x = (s, es)" by (cases x)
  have y: "y = (mcs_step u s, es @ mcs_observe u s)" using move_is_step move head(2) unfolding x by blast
  note q = step_queue [OF good [unfolded x], of u, folded y]
  have pred: "pred_of (arrivals es) h = NULL \<or> Finished (ticket s (pred_of (arrivals es) h))"
    using head_pred_finished [OF good head(1)] by (simp add: x)
  have ok: "pc_ok s (arrivals es) (pc s u)" using mcs_invD(7) [OF good_inv [OF good]] by (simp add: x)
  have "h \<in> set (queue x)" using head(1) by simp
  from in_queue_pc [OF good this head(2)] show ?thesis
    using q head(1) ok pred
    by (auto simp: x y owns_ticket_def mcs_observe_def observe_def mcs_step_def split: if_splits)
qed

text \<open>A waiting thread keeps its ticket, and the ticket its place, until it enters.\<close>

lemma waiting_keeps_ticket:
  assumes move: "mcs_move v x y" and good: "mcs_good x" and n: "n \<in> set (queue x)" "owns_ticket x t n"
    and wait: "pc (fst x) t \<noteq> Critical n"
  shows "owns_ticket y t n"
proof (cases "v = t")
  case True
  obtain s es where x: "x = (s, es)" by (cases x)
  have y: "y = (mcs_step t s, es @ mcs_observe t s)" using move_is_step move n(2) True unfolding x by blast
  show ?thesis using in_queue_pc [OF good n] wait by (auto simp: x y owns_ticket_def mcs_step_def)
next
  case False
  then show ?thesis using move_pc_other [OF move, of t] n(2) by (simp add: owns_ticket_def)
qed

definition head_owner :: "mcs_state \<times> mcs_event list \<Rightarrow> nat" where
  "head_owner x = (THE t. owns_ticket x t (hd (queue x)))"

lemma head_owner_eq: "mcs_good x \<Longrightarrow> owns_ticket x t (hd (queue x)) \<Longrightarrow> head_owner x = t"
  unfolding head_owner_def using owner_unique by blast

lemma head_owner_owns:
  assumes good: "mcs_good x" and "queue x \<noteq> []"
  shows "owns_ticket x (head_owner x) (hd (queue x))"
proof -
  obtain t where "owns_ticket x t (hd (queue x))" using queue_split [OF good] assms(2) by (metis hd_in_set)
  then show ?thesis using head_owner_eq [OF good] by simp
qed

text \<open>The measure: five for each ticket ahead, and the stage of the first one's owner.\<close>

definition ahead :: "mcs_state \<times> mcs_event list \<Rightarrow> ptr \<Rightarrow> nat" where
  "ahead x n = 5 * length (takeWhile (\<lambda>m. m \<noteq> n) (queue x)) + stage (pc (fst x) (head_owner x))"

definition pending :: "mcs_state \<times> mcs_event list \<Rightarrow> nat \<Rightarrow> ptr \<Rightarrow> bool" where
  "pending x t n \<longleftrightarrow> n \<in> set (queue x) \<and> owns_ticket x t n \<and> pc (fst x) t \<noteq> Critical n"

lemma stage_le: "stage l \<le> 4"
  by (cases l) auto

lemma pending_other_move:
  assumes move: "mcs_move v x y" and good: "mcs_good x" and pend: "pending x t n" and v: "v \<noteq> head_owner x"
  shows "pc (fst y) t = Critical n \<or> pending y t n \<and> ahead y n = ahead x n \<and> head_owner y = head_owner x"
proof -
  obtain h rest where q: "queue x = h # rest" using pend by (cases "queue x") (auto simp: pending_def)
  have own: "owns_ticket x (head_owner x) h" using head_owner_owns [OF good] q by simp
  obtain ys where ys: "queue y = queue x @ ys" using other_move_queue [OF move good q own v] by blast
  have pcu: "pc (fst y) (head_owner x) = pc (fst x) (head_owner x)" using move_pc_other [OF move, of "head_owner x"] v by auto
  then have "owns_ticket y (head_owner x) (hd (queue y))" using own q ys by (simp add: owns_ticket_def)
  then have u: "head_owner y = head_owner x" by (rule head_owner_eq [OF mcs_good_move [OF move good]])
  have "n \<in> set (queue x)" using pend by (simp add: pending_def)
  then have "takeWhile (\<lambda>m. m \<noteq> n) (queue y) = takeWhile (\<lambda>m. m \<noteq> n) (queue x)"
    unfolding ys by (intro takeWhile_append1) auto
  then have "ahead y n = ahead x n" by (simp add: ahead_def u pcu)
  then show ?thesis using waiting_keeps_ticket [OF move good] pend ys u by (auto simp: pending_def)
qed

lemma pending_helpful_move:
  assumes move: "mcs_move v x y" and good: "mcs_good x" and pend: "pending x t n" and v: "v = head_owner x"
  shows "pc (fst y) t = Critical n \<or> pending y t n \<and> ahead y n < ahead x n"
proof -
  obtain h rest where q: "queue x = h # rest" using pend by (cases "queue x") (auto simp: pending_def)
  have own: "owns_ticket x v h" using head_owner_owns [OF good] q v by simp
  have keep: "owns_ticket y t n" using waiting_keeps_ticket [OF move good] pend by (auto simp: pending_def)
  from owner_move [OF move good q own] show ?thesis
  proof
    assume leave: "pc (fst x) v = Critical h \<and> queue y = rest"
    then have "h \<noteq> n" using pend owner_unique [OF good own] by (auto simp: pending_def)
    then have "ahead y n \<le> 5 * length (takeWhile (\<lambda>m. m \<noteq> n) rest) + 4" using leave stage_le by (simp add: ahead_def)
    moreover have "ahead x n = 5 * Suc (length (takeWhile (\<lambda>m. m \<noteq> n) rest)) + 1"
      using leave \<open>h \<noteq> n\<close> by (simp add: ahead_def q v [symmetric])
    ultimately have "ahead y n < ahead x n" by simp
    moreover have "n \<in> set (queue y)" using pend \<open>h \<noteq> n\<close> leave by (simp add: pending_def q)
    ultimately show ?thesis using keep by (auto simp: pending_def)
  next
    assume stay: "queue y = queue x \<and> owns_ticket y v h \<and> stage (pc (fst y) v) < stage (pc (fst x) v)"
    then have "head_owner y = v" using head_owner_eq [OF mcs_good_move [OF move good]] q by simp
    then have "ahead y n < ahead x n" using stay by (simp add: ahead_def v [symmetric])
    then show ?thesis using keep pend stay by (auto simp: pending_def)
  qed
qed

section \<open>Fair runs\<close>

definition mcs_fair_run :: "(nat \<Rightarrow> nat) \<Rightarrow> (nat \<Rightarrow> mcs_state \<times> mcs_event list) \<Rightarrow> bool" where
  "mcs_fair_run sched \<sigma> \<longleftrightarrow> mcs_start (\<sigma> 0) \<and> (\<forall>i. mcs_move (sched i) (\<sigma> i) (\<sigma> (Suc i))) \<and> (\<forall>t i. \<exists>j\<ge>i. sched j = t)"

lemma fair_run_good: "mcs_fair_run sched \<sigma> \<Longrightarrow> mcs_good (\<sigma> i)"
  by (induction i) (auto simp: mcs_fair_run_def mcs_good_start intro: mcs_good_move)

lemma pending_enters:
  assumes run: "mcs_fair_run sched \<sigma>" and "pending (\<sigma> i) t n"
  shows "\<exists>j\<ge>i. pc (fst (\<sigma> j)) t = Critical n"
proof (rule leads_to_helpful [where M = "\<lambda>i. ahead (\<sigma> i) n" and helper = "\<lambda>i. head_owner (\<sigma> i)" and sched = sched
      and pend = "\<lambda>i. pending (\<sigma> i) t n"])
  have move: "mcs_move (sched i) (\<sigma> i) (\<sigma> (Suc i))" for i using run by (simp add: mcs_fair_run_def)
  show "\<exists>j\<ge>i. sched j = t" for t i using run by (simp add: mcs_fair_run_def)
  show "pc (fst (\<sigma> (Suc i))) t = Critical n \<or> pending (\<sigma> (Suc i)) t n \<and>
      ahead (\<sigma> (Suc i)) n = ahead (\<sigma> i) n \<and> head_owner (\<sigma> (Suc i)) = head_owner (\<sigma> i)"
    if "pending (\<sigma> i) t n" "sched i \<noteq> head_owner (\<sigma> i)" for i
    using pending_other_move [OF move fair_run_good [OF run] that] .
  show "pc (fst (\<sigma> (Suc i))) t = Critical n \<or> pending (\<sigma> (Suc i)) t n \<and> ahead (\<sigma> (Suc i)) n < ahead (\<sigma> i) n"
    if "pending (\<sigma> i) t n" "sched i = head_owner (\<sigma> i)" for i
    using pending_helpful_move [OF move fair_run_good [OF run] that] .
qed (rule assms(2))

text \<open>A thread before its exchange comes to it and is then in the queue.\<close>

lemma exchange_queues:
  assumes "mcs_good x" "mcs_move t x y" "pc (fst x) t = Exchange n"
  shows "pending y t n"
proof -
  obtain s es where x: "x = (s, es)" by (cases x)
  have y: "y = (mcs_step t s, es @ mcs_observe t s)"
    using move_is_step [of t s es y n] assms(2,3) by (simp add: x owns_ticket_def)
  have "\<not> Finished (ticket s n)" using mcs_invD(7) [OF good_inv [OF assms(1)], of t] assms(3) by (simp add: x)
  then show ?thesis using assms(3)
    by (simp add: x y pending_def queue_def unfinished_def owns_ticket_def mcs_observe_def observe_def mcs_step_def arrivals_def)
qed

lemma exchange_enters:
  assumes run: "mcs_fair_run sched \<sigma>" and "pc (fst (\<sigma> i)) t = Exchange n"
  shows "\<exists>j\<ge>i. pending (\<sigma> j) t n"
proof (rule leads_to_helpful [where M = "\<lambda>_. 0" and helper = "\<lambda>_. t" and sched = sched
      and pend = "\<lambda>i. pc (fst (\<sigma> i)) t = Exchange n"])
  have move: "mcs_move (sched i) (\<sigma> i) (\<sigma> (Suc i))" for i using run by (simp add: mcs_fair_run_def)
  show "\<exists>j\<ge>i. sched j = t" for t i using run by (simp add: mcs_fair_run_def)
  show "pending (\<sigma> (Suc i)) t n \<or> pc (fst (\<sigma> (Suc i))) t = Exchange n \<and> (0 :: nat) = 0 \<and> t = t"
    if "pc (fst (\<sigma> i)) t = Exchange n" "sched i \<noteq> t" for i
    using move_pc_other [OF move, of t i] that by simp
  show "pending (\<sigma> (Suc i)) t n \<or> pc (fst (\<sigma> (Suc i))) t = Exchange n \<and> (0 :: nat) < 0"
    if "pc (fst (\<sigma> i)) t = Exchange n" "sched i = t" for i
    using exchange_queues [OF fair_run_good [OF run], of t i "\<sigma> (Suc i)" n] move [of i] that by simp
qed (rule assms(2))

lemma record_starvation_free:
  assumes run: "mcs_fair_run sched \<sigma>" and own: "pc_ticket (pc (fst (\<sigma> i)) t) = Some n" "pc (fst (\<sigma> i)) t \<noteq> Release n"
  shows "\<exists>j\<ge>i. pc (fst (\<sigma> j)) t = Critical n"
proof (cases "pc (fst (\<sigma> i)) t = Exchange n")
  case True
  then obtain k where "i \<le> k" "pending (\<sigma> k) t n" using exchange_enters [OF run] by blast
  then show ?thesis using pending_enters [OF run, of k t n] order_trans by blast
next
  case False
  note ok = mcs_invD(7) [OF good_inv [OF fair_run_good [OF run]], of i t]
  have "n \<in> set (arrivals (snd (\<sigma> i)))" "\<not> Finished (ticket (fst (\<sigma> i)) n)"
    using ok False own by (cases "pc (fst (\<sigma> i)) t"; auto)+
  then have "n \<in> set (queue (\<sigma> i))" by (simp add: queue_def unfinished_def)
  then show ?thesis
    using pending_enters [OF run, of i t n] own(1)
    by (cases "pc (fst (\<sigma> i)) t = Critical n") (auto simp: pending_def owns_ticket_def)
qed

section \<open>Fair runs on bytes\<close>

definition byte_fair_run :: "ptr \<Rightarrow> ptr set \<Rightarrow> (nat \<Rightarrow> nat) \<Rightarrow> (nat \<Rightarrow> mcs_mem \<times> mcs_event list) \<Rightarrow> bool" where
  "byte_fair_run top' T sched \<sigma> \<longleftrightarrow> byte_start top' T (\<sigma> 0) \<and>
     (\<forall>i. byte_move top' T (sched i) (\<sigma> i) (\<sigma> (Suc i))) \<and> (\<forall>t i. \<exists>j\<ge>i. sched j = t)"

text \<open>Every fair run on bytes is a fair run on records with the same threads at the same points.\<close>

lemma byte_fair_run_simulated:
  assumes "byte_fair_run top' T sched \<sigma>"
  obtains \<tau> where "mcs_fair_run sched (\<lambda>i. (\<tau> i, snd (\<sigma> i)))" "\<And>i. pc (\<tau> i) = bpc (fst (\<sigma> i))"
proof -
  have start: "byte_start top' T (\<sigma> 0)" and move: "byte_move top' T (sched i) (\<sigma> i) (\<sigma> (Suc i))"
    and fair: "\<exists>j\<ge>i. sched j = t" for i t
    using assms by (auto simp: byte_fair_run_def)
  have lay: "mcs_layout top' T" using start by (auto simp: byte_start_def)
  let ?rel = "\<lambda>i s. mcs_rel top' T (fst (\<sigma> i)) s \<and> tickets_in T (s, snd (\<sigma> i)) \<and> (i = 0 \<longrightarrow> mcs_start (s, snd (\<sigma> 0)))"
  let ?move = "\<lambda>i s s'. mcs_move (sched i) (s, snd (\<sigma> i)) (s', snd (\<sigma> (Suc i)))"
  have "\<exists>s. ?rel 0 s" using byte_start_record [OF start] by auto
  moreover have "\<exists>s'. ?rel (Suc i) s' \<and> ?move i s s'" if "?rel i s" for i s
    using byte_move_simulated [OF lay, of "sched i" "fst (\<sigma> i)" "snd (\<sigma> i)" "fst (\<sigma> (Suc i))" "snd (\<sigma> (Suc i))" s] move [of i] that
    by auto
  ultimately obtain \<tau> where \<tau>: "\<And>i. ?rel i (\<tau> i) \<and> ?move i (\<tau> i) (\<tau> (Suc i))"
    using dependent_nat_choice [of ?rel ?move] by blast
  have "mcs_fair_run sched (\<lambda>i. (\<tau> i, snd (\<sigma> i)))"
    using \<tau> fair unfolding mcs_fair_run_def by blast
  moreover have "pc (\<tau> i) = bpc (fst (\<sigma> i))" for i using \<tau> [of i] by (simp add: mcs_rel_def)
  ultimately show thesis by (rule that)
qed

text \<open>A fair run: thread 0 calls once, and then all threads take steps, each of them infinitely often.\<close>

definition ex_sched :: "nat \<Rightarrow> nat" where
  "ex_sched i = fst (prod_decode i)"

primrec ex_run :: "nat \<Rightarrow> mcs_mem \<times> mcs_event list" where
  "ex_run 0 = (ex_bytes 0, [])"
| "ex_run (Suc i) = (let (b, es) = ex_run i; t = ex_sched i in
     if i = 0 then (bgoto 0 (Exchange 64) (bytes (ex_bytes 0)) (ex_bytes 0), [Call 64])
     else (byte_step 0x1000 t b, es @ observe (bpc b t) (bpc (byte_step 0x1000 t b) t)))"

lemma ex_run_fair: "byte_fair_run 0x1000 {64, 128} ex_sched ex_run"
proof -
  have "byte_move 0x1000 {64, 128} (ex_sched i) (ex_run i) (ex_run (Suc i))" for i
  proof (cases i)
    case 0
    have "ex_sched 0 = 0" by (simp add: ex_sched_def prod_decode_def prod_decode_aux.simps)
    with 0 move_byte_call [of "ex_bytes 0" 0 64 "[]"] show ?thesis
      by (simp add: ex_bytes_def AtomicLoad_def read64_halves read32_bytes)
  next
    case (Suc k)
    with move_byte_step [of "0x1000" "{64, 128}" "ex_sched i" "fst (ex_run i)" "snd (ex_run i)"] show ?thesis
      by (simp add: Let_def split_beta del: ex_run.simps(2)) (simp add: Let_def split_beta)
  qed
  moreover have "\<exists>j\<ge>i. ex_sched j = t" for t i
    by (rule exI [of _ "prod_encode (t, i)"]) (simp add: ex_sched_def le_prod_encode_2)
  ultimately show ?thesis using ex_start by (simp add: byte_fair_run_def)
qed

section \<open>Properties\<close>

text \<open>
  C14: No thread starves. In every run on the bytes of the tickets in which calls use aligned tickets that were not used
  before and whose flag word is clear, and in which every thread moves again and again, in whatever
  order, a thread that is anywhere in \<open>MCSLock\<close> gets into the critical section with its ticket.
\<close>

theorem MCS_starvation_free:
  assumes "byte_fair_run top' T sched \<sigma>"
    and "bpc (fst (\<sigma> i)) t \<in> {Exchange n, Publish n p, Wait n, Load n}"
  shows "\<exists>j\<ge>i. bpc (fst (\<sigma> j)) t = Critical n"
proof -
  obtain \<tau> where \<tau>: "mcs_fair_run sched (\<lambda>i. (\<tau> i, snd (\<sigma> i)))" "\<And>i. pc (\<tau> i) = bpc (fst (\<sigma> i))"
    using byte_fair_run_simulated [OF assms(1)] by blast
  show ?thesis using record_starvation_free [OF \<tau>(1), of i t n] assms(2) by (auto simp: \<tau>(2))
qed

theorem MCS_starvation_free_witness: "\<exists>j\<ge>1. bpc (fst (ex_run j)) 0 = Critical 64"
  by (rule MCS_starvation_free [OF ex_run_fair]) (simp add: bgoto_def)

end
