(* ===== verification/Spin_Lock.thy ===== *)
theory Spin_Lock
  imports Atomic_Ops
begin

text \<open>
  The spinlock of \<open>kernel/utils/Spinlock.c\<close> on several CPUs. Each step of a thread is one access to
  memory: as \<open>cmpxchgb\<close> has no \<open>lock\<close> prefix, its load and its store are two steps. \<open>SpinlockLock\<close> loops
  on the result of \<open>AtomicCompareAndExchange8\<close>, which is a \<open>void\<close> function that \<open>Atomic.h\<close> does not
  declare, so C gives the result no value. Nothing is assumed of it: \<open>result seen c\<close> says that the condition
  may be \<open>c\<close> after a call whose instructions loaded the bytes \<open>seen\<close>, for any relation \<open>result\<close>.
\<close>

section \<open>State and steps\<close>

text \<open>
  \<open>Locking seen al\<close> is before a load, \<open>LockStore seen al dest\<close> between the load of \<open>dest\<close> and the store;
  the content of \<open>al\<close> on entry of a call is arbitrary.
\<close>

datatype spin_pc =
    Idle
  | Locking "u8 list" u8
  | LockStore "u8 list" u8 u8
  | Holding
  | Releasing u8
  | ReleaseStore u8 u8

record spin_state =
  lock_mem :: mem
  spc :: "nat \<Rightarrow> spin_pc"

text \<open>
  With the zero flag the call returns; if the condition holds (\<open>again\<close>), \<open>SpinlockLock\<close> calls again, with
  \<open>al'\<close> in \<open>al\<close>, otherwise it returns.
\<close>

fun SpinlockLock_step :: "ptr \<Rightarrow> bool \<Rightarrow> u8 \<Rightarrow> spin_pc \<Rightarrow> mem \<Rightarrow> (spin_pc \<times> mem) option" where
  "SpinlockLock_step lock again al' (Locking seen al) m = Some (LockStore (seen @ [m lock]) al (m lock), m)"
| "SpinlockLock_step lock again al' (LockStore seen al dest) m =
     (let (m', al1, zf) = cmpxchgb_store m lock 1 al dest
      in Some (if \<not> zf then Locking seen al1 else if again then Locking [] al' else Holding, m'))"
| "SpinlockLock_step lock again al' _ m = None"

fun SpinlockRelease_step :: "ptr \<Rightarrow> spin_pc \<Rightarrow> mem \<Rightarrow> (spin_pc \<times> mem) option" where
  "SpinlockRelease_step lock (Releasing al) m = Some (ReleaseStore al (m lock), m)"
| "SpinlockRelease_step lock (ReleaseStore al dest) m =
     (let (m', al1, zf) = cmpxchgb_store m lock 0 al dest in Some (if zf then Idle else Releasing al1, m'))"
| "SpinlockRelease_step lock _ m = None"

inductive spin_move :: "(u8 list \<Rightarrow> bool \<Rightarrow> bool) \<Rightarrow> ptr \<Rightarrow> spin_pc \<Rightarrow> mem \<Rightarrow> spin_pc \<Rightarrow> mem \<Rightarrow> bool" for result lock where
  move_call_lock: "spin_move result lock Idle m (Locking [] al) m"
| move_lock: "SpinlockLock_step lock again al' p m = Some (p', m') \<Longrightarrow>
    (\<forall>seen al dest. p = LockStore seen al dest \<longrightarrow> result seen again) \<Longrightarrow> spin_move result lock p m p' m'"
| move_call_release: "spin_move result lock Holding m (Releasing al) m"
| move_release: "SpinlockRelease_step lock p m = Some (p', m') \<Longrightarrow> spin_move result lock p m p' m'"

inductive spin_step :: "(u8 list \<Rightarrow> bool \<Rightarrow> bool) \<Rightarrow> ptr \<Rightarrow> spin_state \<Rightarrow> spin_state \<Rightarrow> bool" for result lock where
  spin_step: "spin_move result lock (spc s t) (lock_mem s) p m \<Longrightarrow>
    spin_step result lock s \<lparr>lock_mem = m, spc = (spc s)(t := p)\<rparr>"

definition spin_init :: "ptr \<Rightarrow> spin_state \<Rightarrow> bool" where
  "spin_init lock s \<longleftrightarrow> lock_mem s lock = 0 \<and> (\<forall>t. spc s t = Idle)"

section \<open>Two threads in step\<close>

text \<open>
  A move can be made twice: a second thread at the same point loads the same byte, and stores the same byte
  again. So a run can be repeated with a twin of one thread, as thread 0, that moves right behind it.
\<close>

lemma cmpxchgb_store_twice:
  "cmpxchgb_store m val set' al dest = (m', al1, zf) \<Longrightarrow> cmpxchgb_store m' val set' al dest = (m', al1, zf)"
  by (auto simp: cmpxchgb_store_def split: if_splits)

lemma spin_move_twice: "spin_move result lock p m p' m' \<Longrightarrow> spin_move result lock p m' p' m'"
proof (induction rule: spin_move.induct)
  case (move_lock again al' p m p' m')
  have "SpinlockLock_step lock again al' p m' = Some (p', m')"
    using move_lock.hyps(1) cmpxchgb_store_twice by (cases p) (auto simp: split: prod.splits)
  then show ?case using move_lock.hyps(2) by (rule spin_move.move_lock)
next
  case (move_release p m p' m')
  have "SpinlockRelease_step lock p m' = Some (p', m')"
    using move_release.hyps cmpxchgb_store_twice by (cases p) (auto simp: split: prod.splits)
  then show ?case by (rule spin_move.move_release)
qed (rule spin_move.intros)+

definition twin :: "nat \<Rightarrow> spin_state \<Rightarrow> spin_state" where
  "twin t s = s\<lparr>spc := case_nat (spc s t) (spc s)\<rparr>"

lemma twin_update:
  "(case_nat p f)(Suc v := q) = case_nat p (f(v := q))" "(case_nat p f)(0 := q) = case_nat q f"
  by (auto simp: fun_eq_iff split: nat.splits)

lemma twin_step:
  assumes "spin_step result lock s s'"
  shows "(spin_step result lock)\<^sup>*\<^sup>* (twin t s) (twin t s')"
  using assms
proof cases
  case (spin_step v p m)
  let ?s1 = "\<lparr>lock_mem = m, spc = case_nat (spc s t) ((spc s)(v := p))\<rparr>"
  have first: "spin_step result lock (twin t s) ?s1"
    using spin_step.spin_step [of result lock "twin t s" "Suc v" p m] spin_step(2)
    by (simp add: twin_def twin_update)
  show ?thesis
  proof (cases "v = t")
    case True
    have "spin_move result lock (spc s t) m p m" using spin_move_twice spin_step(2) True by blast
    then have "spin_step result lock ?s1 (twin t s')"
      using spin_step.spin_step [of result lock ?s1 0 p m] spin_step(1) True by (simp add: twin_def twin_update)
    with first show ?thesis by (meson rtranclp.rtrancl_into_rtrancl r_into_rtranclp)
  next
    case False
    then have "?s1 = twin t s'" using spin_step(1) by (simp add: twin_def)
    with first show ?thesis by auto
  qed
qed

lemma twin_run: "(spin_step result lock)\<^sup>*\<^sup>* s s' \<Longrightarrow> (spin_step result lock)\<^sup>*\<^sup>* (twin t s) (twin t s')"
  by (induction rule: rtranclp_induct) (auto intro: twin_step rtranclp_trans)

lemma twin_init: "spin_init lock s \<Longrightarrow> twin t s = s"
  by (auto simp: spin_init_def twin_def fun_eq_iff split: nat.splits intro!: spin_state.equality)

section \<open>Properties\<close>

text \<open>
  C19: The spinlock excludes nobody. Whatever the undefined result of \<open>AtomicCompareAndExchange8\<close> is, even
  when it depends on all bytes that the call has loaded: if any interleaving lets a thread out of
  \<open>SpinlockLock\<close>, there is one from the same free lock after which two threads hold it at the same time,
  since the load and the store of \<open>cmpxchgb\<close> are two accesses.
\<close>

theorem Spinlock_excludes_nobody:
  assumes "spin_init lock s" and "(spin_step result lock)\<^sup>*\<^sup>* s s'" and "spc s' t = Holding"
  shows "\<exists>s'' u v. (spin_step result lock)\<^sup>*\<^sup>* s s'' \<and> u \<noteq> v \<and> spc s'' u = Holding \<and> spc s'' v = Holding"
proof -
  have "(spin_step result lock)\<^sup>*\<^sup>* s (twin t s')"
    using twin_run [OF assms(2), of t] twin_init [OF assms(1)] by simp
  moreover have "spc (twin t s') 0 = Holding" "spc (twin t s') (Suc t) = Holding" using assms(3) by (simp_all add: twin_def)
  ultimately show ?thesis by (metis nat.distinct(1))
qed

text \<open>With the result the code intends, whether the byte replaced was not 0, a thread does get the lock.\<close>

definition ex_spin :: spin_state where
  "ex_spin = \<lparr>lock_mem = (\<lambda>_. 0), spc = (\<lambda>_. Idle)\<rparr>"

lemma ex_spin_init: "spin_init 64 ex_spin"
  by (simp add: spin_init_def ex_spin_def)

lemma ex_spin_run: "\<exists>s. (spin_step (\<lambda>seen c. c = (last seen \<noteq> 0)) 64)\<^sup>*\<^sup>* ex_spin s \<and> spc s 0 = Holding"
proof -
  let ?r = "\<lambda>seen c. c = (last seen \<noteq> (0 :: u8))"
  let ?s = "\<lambda>p m. \<lparr>lock_mem = m, spc = (\<lambda>_. Idle)(0 := p)\<rparr>"
  have start: "ex_spin = ?s Idle (\<lambda>_. 0)" by (simp add: ex_spin_def fun_eq_iff)
  have go: "spin_step ?r 64 (?s p m) (?s p' m')" if "spin_move ?r 64 p m p' m'" for p m p' m'
    using spin_step [of ?r 64 "?s p m" 0 p' m'] that by simp
  have "spin_step ?r 64 ex_spin (?s (Locking [] 0) (\<lambda>_. 0))"
    unfolding start by (rule go) (rule move_call_lock)
  moreover have "spin_step ?r 64 (?s (Locking [] 0) (\<lambda>_. 0)) (?s (LockStore [0] 0 0) (\<lambda>_. 0))"
    by (rule go) (rule move_lock [where again = False and al' = 0]; simp)
  moreover have "spin_step ?r 64 (?s (LockStore [0] 0 0) (\<lambda>_. 0)) (?s Holding ((\<lambda>_. 0)(64 := 1)))"
    by (rule go) (rule move_lock [where again = False and al' = 0]; simp add: cmpxchgb_store_def)
  ultimately have "(spin_step ?r 64)\<^sup>*\<^sup>* ex_spin (?s Holding ((\<lambda>_. 0)(64 := 1)))"
    by (meson rtranclp.rtrancl_into_rtrancl rtranclp.rtrancl_refl)
  then show ?thesis by (intro exI conjI) auto
qed

theorem Spinlock_excludes_nobody_witness:
  "\<exists>s u v. (spin_step (\<lambda>seen c. c = (last seen \<noteq> 0)) 64)\<^sup>*\<^sup>* ex_spin s \<and> u \<noteq> v \<and> spc s u = Holding \<and> spc s v = Holding"
proof -
  obtain s where s: "(spin_step (\<lambda>seen c. c = (last seen \<noteq> 0)) 64)\<^sup>*\<^sup>* ex_spin s" "spc s 0 = Holding"
    using ex_spin_run by blast
  show ?thesis using Spinlock_excludes_nobody [OF ex_spin_init s] .
qed

end
