(* ===== verification/Cursor.thy ===== *)
theory Cursor
  imports Kernel_Prelude
begin

text \<open>
  The interface of the kernel's iterator functions. \<open>NextMemoryEntryWithin\<close> and \<open>NextSRATEntry\<close> are
  called in a loop with a cursor they move, until they return NULL. A call is a function from the
  cursor to the returned element, \<^const>\<open>None\<close> for NULL, and the moved cursor; the outer
  \<^const>\<open>None\<close> is a fault.
\<close>

type_synonym ('c, 'a) cursor_call = "'c \<Rightarrow> ('a option \<times> 'c) option"

text \<open>
  The elements a client gets that calls until NULL, with at most \<open>fuel\<close> calls, and the cursor it is
  left with; \<^const>\<open>None\<close> if a call faults or the calls do not suffice.
\<close>

fun collect :: "('c, 'a) cursor_call \<Rightarrow> nat \<Rightarrow> 'c \<Rightarrow> ('a list \<times> 'c) option" where
  "collect advance 0 c = None"
| "collect advance (Suc fuel) c =
     (case advance c of
        None \<Rightarrow> None
      | Some (None, c') \<Rightarrow> Some ([], c')
      | Some (Some x, c') \<Rightarrow> map_option (\<lambda>(xs, c''). (x # xs, c'')) (collect advance fuel c'))"

text \<open>
  What an iterator promises: \<open>rests c xs\<close> says that \<open>xs\<close> are the elements still to come at cursor
  \<open>c\<close>, and \<open>fin\<close> what holds of the cursor at the end.
\<close>

locale cursor =
  fixes advance :: "('c, 'a) cursor_call" and rests :: "'c \<Rightarrow> 'a list \<Rightarrow> bool" and fin :: "'c \<Rightarrow> bool"
  assumes at_end: "rests c [] \<Longrightarrow> \<exists>c'. advance c = Some (None, c') \<and> fin c'"
    and at_element: "rests c (x # xs) \<Longrightarrow> \<exists>c'. advance c = Some (Some x, c') \<and> rests c' xs"
begin

lemma collect_rests:
  assumes "rests c xs" "length xs < fuel"
  shows "\<exists>c'. collect advance fuel c = Some (xs, c') \<and> fin c'"
  using assms
proof (induction xs arbitrary: c fuel)
  case Nil
  then obtain k where "fuel = Suc k" by (cases fuel) auto
  with at_end [OF Nil.prems(1)] show ?case by auto
next
  case (Cons x xs)
  then obtain k where k: "fuel = Suc k" "length xs < k" by (cases fuel) auto
  obtain c' where c': "advance c = Some (Some x, c')" "rests c' xs" using at_element [OF Cons.prems(1)] by blast
  from Cons.IH [OF c'(2) k(2)] c'(1) k(1) show ?case by auto
qed

text \<open>More calls than needed change nothing: the client has stopped.\<close>

lemma collect_enough:
  assumes "rests c xs" "length xs < fuel"
  shows "collect advance fuel c = collect advance (Suc (length xs)) c"
proof -
  have mono: "collect advance (n + k) c = Some r" if "collect advance n c = Some r" for n k c r
    using that
  proof (induction n arbitrary: c r)
    case (Suc n)
    then show ?case by (force split: option.splits)
  qed simp
  obtain c' where "collect advance (Suc (length xs)) c = Some (xs, c')" using collect_rests [OF assms(1), of "Suc (length xs)"] by auto
  with mono [OF this, of "fuel - Suc (length xs)"] assms(2) show ?thesis by simp
qed

end

end
