(* ===== verification/ACPI.thy ===== *)
theory ACPI
  imports Byte_Memory Architecture Cursor
begin

unbundle bit_operations_syntax

text \<open>
  The ACPI tables of \<open>kernel/acpi\<close>: lookup of a table by signature with its checksum
  (\<open>SDT.c\<close>), the latency table of a NUMA arena (\<open>SLIT.c\<close>) and the iteration over the affinity
  entries (\<open>SRAT.c\<close>), on byte memory. Structure members are read at the offsets the packed
  declarations of \<open>SDT.h\<close> give them.
\<close>

section \<open>Table lookup\<close>

definition ACPI_SIGNATURE_SIZE :: nat where
  "ACPI_SIGNATURE_SIZE = 4"

text \<open>\<open>ACPI_SDTHeader\<close>: \<open>Signature\<close> at 0, \<open>Length\<close> at 4; 36 bytes, as \<open>ACPI_XSDT\<close>, whose entries follow.\<close>

definition header_Length :: "mem \<Rightarrow> ptr \<Rightarrow> u32" where
  "header_Length m table = read32 m (table + 4)"

definition sizeof_ACPI_XSDT :: u64 where
  "sizeof_ACPI_XSDT = 36"

definition XSDT_Entries :: "mem \<Rightarrow> ptr \<Rightarrow> u64 \<Rightarrow> ptr" where
  "XSDT_Entries m xsdt i = read64 m (xsdt + sizeof_ACPI_XSDT + 8 * i)"

fun checksum_loop :: "mem \<Rightarrow> ptr \<Rightarrow> nat \<Rightarrow> nat \<Rightarrow> u8 \<Rightarrow> u8" where
  "checksum_loop m table i 0 checksum = checksum"
| "checksum_loop m table i (Suc k) checksum =
     checksum_loop m table (Suc i) k (checksum + m (table + of_nat i))"

definition CheckTableChecksum :: "mem \<Rightarrow> ptr \<Rightarrow> bool" where
  "CheckTableChecksum m table \<longleftrightarrow> checksum_loop m table 0 (unat (header_Length m table)) 0 = 0"

fun memcmp_loop :: "mem \<Rightarrow> ptr \<Rightarrow> ptr \<Rightarrow> nat \<Rightarrow> nat \<Rightarrow> u64 \<Rightarrow> u64" where
  "memcmp_loop m a b i 0 result = result"
| "memcmp_loop m a b i (Suc k) result =
     memcmp_loop m a b (Suc i) k (result + ucast (m (a + of_nat i)) - ucast (m (b + of_nat i)))"

definition memcmp :: "mem \<Rightarrow> ptr \<Rightarrow> ptr \<Rightarrow> nat \<Rightarrow> u64" where
  "memcmp m s1 s2 n = memcmp_loop m s1 s2 0 n 0"

definition tableCount :: "mem \<Rightarrow> ptr \<Rightarrow> u64" where
  "tableCount m xsdt = (ucast (header_Length m xsdt) - sizeof_ACPI_XSDT) div 8"

fun FindACPITable_loop :: "mem \<Rightarrow> ptr \<Rightarrow> ptr \<Rightarrow> nat \<Rightarrow> nat \<Rightarrow> ptr" where
  "FindACPITable_loop m xsdt signature i 0 = NULL"
| "FindACPITable_loop m xsdt signature i (Suc k) =
     (let entry = XSDT_Entries m xsdt (of_nat i)
      in if memcmp m signature entry ACPI_SIGNATURE_SIZE = 0 \<and> CheckTableChecksum m entry then entry
         else FindACPITable_loop m xsdt signature (Suc i) k)"

definition FindACPITable :: "mem \<Rightarrow> ptr \<Rightarrow> ptr \<Rightarrow> ptr" where
  "FindACPITable m xsdt signature = FindACPITable_loop m xsdt signature 0 (unat (tableCount m xsdt))"

section \<open>Latency table\<close>

record NUMALatency =
  ProximityDomain :: u32
  Latency :: u8
  Arena :: ptr

definition LATENCY_DEFAULT_VALUE :: u8 where
  "LATENCY_DEFAULT_VALUE = 30"

definition ACPI_SLIT_UNREACHABLE :: u8 where
  "ACPI_SLIT_UNREACHABLE = 255"

text \<open>\<open>ACPI_SLIT\<close>: \<open>Localities\<close> at 36, \<open>Entries\<close> at 44; \<open>XsdtAddress\<close> at 24 of \<open>ACPI_XSDP\<close>.\<close>

definition SLIT_Entries :: "mem \<Rightarrow> ptr \<Rightarrow> u64 \<Rightarrow> u8" where
  "SLIT_Entries m slit i = m (slit + 44 + i)"

definition SLIT_Localities :: "mem \<Rightarrow> ptr \<Rightarrow> u64" where
  "SLIT_Localities m slit = read64 m (slit + 36)"

text \<open>
  A \<open>NUMALatency\<close> in memory: the domain at 0, the latency at 4 and the arena at 8 of 16 bytes. Assigning
  one leaves the three padding bytes behind the latency as they are, which C does not promise.
\<close>

definition read_NUMALatency :: "mem \<Rightarrow> ptr \<Rightarrow> NUMALatency" where
  "read_NUMALatency m p = \<lparr>ProximityDomain = read32 m p, Latency = m (p + 4), Arena = read64 m (p + 8)\<rparr>"

definition write_NUMALatency :: "mem \<Rightarrow> ptr \<Rightarrow> NUMALatency \<Rightarrow> mem" where
  "write_NUMALatency m p e = write64 ((write32 m p (ProximityDomain e))(p + 4 := Latency e)) (p + 8) (Arena e)"

text \<open>The loop over the domains, with the memory it writes \<open>out[pos++]\<close> to and the counter \<open>pos\<close>.\<close>

fun SLIT_loop :: "mem \<Rightarrow> ptr \<Rightarrow> ptr \<Rightarrow> ptr \<Rightarrow> u64 \<Rightarrow> nat \<Rightarrow> nat \<Rightarrow> u64 \<Rightarrow> mem \<times> u64" where
  "SLIT_loop m slit out arenas arenaID i 0 pos = (m, pos)"
| "SLIT_loop m slit out arenas arenaID i (Suc k) pos =
     (let arena = read64 m (arenas + 8 * of_nat i);
          entry = SLIT_Entries m slit (of_nat i * SLIT_Localities m slit + arenaID)
      in if arena = NULL \<or> slit \<noteq> NULL \<and> entry = ACPI_SLIT_UNREACHABLE
         then SLIT_loop m slit out arenas arenaID (Suc i) k pos
         else let latency0 = (if arenaID = of_nat i then 10 else LATENCY_DEFAULT_VALUE);
                  latency = (if slit \<noteq> NULL then entry else latency0);
                  m' = write_NUMALatency m (out + 16 * pos)
                    \<lparr>ProximityDomain = of_nat i, Latency = latency, Arena = arena\<rparr>
           in SLIT_loop m' slit out arenas arenaID (Suc i) k (pos + 1))"

text \<open>\<open>ACPI_XSDP\<close>: \<open>XsdtAddress\<close> at 24.\<close>

abbreviation xsdp_XsdtAddress :: "mem \<Rightarrow> ptr \<Rightarrow> ptr" where
  "xsdp_XsdtAddress m xsdp \<equiv> read64 m (xsdp + 24)"

definition SLITToLatencyTable :: "mem \<Rightarrow> ptr \<Rightarrow> ptr \<Rightarrow> ptr \<Rightarrow> ptr \<Rightarrow> u64 \<Rightarrow> mem \<times> u64" where
  "SLITToLatencyTable m xsdp SLIT_string out arenas arenaID =
     SLIT_loop m (FindACPITable m (xsdp_XsdtAddress m xsdp) SLIT_string) out arenas arenaID 0 MAX_NUMAS 0"

section \<open>Affinity entries\<close>

text \<open>\<open>ACPI_SRAT\<close>: the entries begin at 48; each has its \<open>Length\<close> at 1.\<close>

definition SRAT_Entries :: "ptr \<Rightarrow> ptr" where
  "SRAT_Entries srat = srat + 48"

definition Affinity_Length :: "mem \<Rightarrow> ptr \<Rightarrow> u8" where
  "Affinity_Length m e = m (e + 1)"

text \<open>The result is the returned pointer, which is also the new \<open>*entry\<close>.\<close>

definition NextSRATEntry :: "mem \<Rightarrow> ptr \<Rightarrow> ptr \<Rightarrow> ptr" where
  "NextSRATEntry m srat entry =
     (if entry = NULL then SRAT_Entries srat
      else let end' = srat + ucast (header_Length m srat);
               entry' = entry + ucast (Affinity_Length m entry)
        in if entry' \<ge> end' then NULL else entry')"

text \<open>\<open>ACPI_LAPICAffinity\<close>: \<open>ProximityDomainLow\<close> at 2, the three bytes \<open>ProximityDomainHigh\<close> from 9.\<close>

abbreviation lapic_ProximityDomainLow :: "mem \<Rightarrow> ptr \<Rightarrow> u8" where
  "lapic_ProximityDomainLow m lapic \<equiv> m (lapic + 2)"

abbreviation lapic_ProximityDomainHigh :: "mem \<Rightarrow> ptr \<Rightarrow> u8 list" where
  "lapic_ProximityDomainHigh m lapic \<equiv> [m (lapic + 9), m (lapic + 10), m (lapic + 11)]"

definition LAPICProximityDomain :: "mem \<Rightarrow> ptr \<Rightarrow> u32" where
  "LAPICProximityDomain m lapic =
     ((ucast (lapic_ProximityDomainLow m lapic) OR push_bit 8 (ucast (lapic_ProximityDomainHigh m lapic ! 0))) OR
      push_bit 16 (ucast (lapic_ProximityDomainHigh m lapic ! 1))) OR push_bit 24 (ucast (lapic_ProximityDomainHigh m lapic ! 2))"

section \<open>Checksums and signatures\<close>

lemma checksum_loop_sum:
  "checksum_loop m table i k c = c + sum_list (map (\<lambda>j. m (table + of_nat j)) [i..<i + k])"
  by (induction k arbitrary: i c) (simp_all add: upt_add_Suc add.assoc del: upt_Suc)

lemma CheckTableChecksum_sum:
  "CheckTableChecksum m table \<longleftrightarrow> sum_list (bytes_at m table (unat (header_Length m table))) = 0"
  by (simp add: CheckTableChecksum_def checksum_loop_sum bytes_at_def)

lemma memcmp_loop_sum:
  "memcmp_loop m a b i k r = r + sum_list (map (\<lambda>j. ucast (m (a + of_nat j))) [i..<i + k])
     - sum_list (map (\<lambda>j. ucast (m (b + of_nat j))) [i..<i + k])"
proof (induction k arbitrary: i r)
  case (Suc k)
  show ?case by (simp add: upt_add_Suc Suc del: upt_Suc)
qed simp

lemma memcmp_sum:
  "memcmp m a b n = sum_list (map ucast (bytes_at m a n)) - sum_list (map ucast (bytes_at m b n))"
  by (simp add: memcmp_def memcmp_loop_sum bytes_at_def comp_def)

lemma memcmp_equal: "bytes_at m a n = bytes_at m b n \<Longrightarrow> memcmp m a b n = 0"
  by (simp add: memcmp_sum)

section \<open>Lookup\<close>

definition table_ok :: "mem \<Rightarrow> ptr \<Rightarrow> ptr \<Rightarrow> bool" where
  "table_ok m signature entry \<longleftrightarrow>
     memcmp m signature entry ACPI_SIGNATURE_SIZE = 0 \<and> CheckTableChecksum m entry"

lemma FindACPITable_loop_find:
  "FindACPITable_loop m xsdt sig i k =
    (case find (table_ok m sig) (map (\<lambda>j. XSDT_Entries m xsdt (of_nat j)) [i..<i + k]) of
       None \<Rightarrow> NULL | Some e \<Rightarrow> e)"
  by (induction k arbitrary: i) (simp_all add: upt_add_Suc table_ok_def Let_def del: upt_Suc)

lemma FindACPITable_find:
  "FindACPITable m xsdt sig =
    (case find (table_ok m sig) (map (\<lambda>j. XSDT_Entries m xsdt (of_nat j)) [0..<unat (tableCount m xsdt)]) of
       None \<Rightarrow> NULL | Some e \<Rightarrow> e)"
  by (simp add: FindACPITable_def FindACPITable_loop_find)

section \<open>The latency table\<close>

definition slit_entry :: "mem \<Rightarrow> ptr \<Rightarrow> u64 \<Rightarrow> nat \<Rightarrow> u8" where
  "slit_entry m slit arenaID i = SLIT_Entries m slit (of_nat i * SLIT_Localities m slit + arenaID)"

definition reachable_arena :: "mem \<Rightarrow> ptr \<Rightarrow> ptr \<Rightarrow> u64 \<Rightarrow> nat \<Rightarrow> bool" where
  "reachable_arena m slit arenas arenaID i \<longleftrightarrow> read64 m (arenas + 8 * of_nat i) \<noteq> NULL \<and>
     (slit = NULL \<or> slit_entry m slit arenaID i \<noteq> ACPI_SLIT_UNREACHABLE)"

definition latency_of :: "mem \<Rightarrow> ptr \<Rightarrow> ptr \<Rightarrow> u64 \<Rightarrow> nat \<Rightarrow> NUMALatency" where
  "latency_of m slit arenas arenaID i =
     \<lparr>ProximityDomain = of_nat i,
      Latency = (if slit \<noteq> NULL then slit_entry m slit arenaID i
                 else if arenaID = of_nat i then 10 else LATENCY_DEFAULT_VALUE),
      Arena = read64 m (arenas + 8 * of_nat i)\<rparr>"

text \<open>The bytes the loop reads: the pointers to the arenas, and of the table what concerns \<open>arenaID\<close>.\<close>

definition slit_reads :: "mem \<Rightarrow> ptr \<Rightarrow> ptr \<Rightarrow> u64 \<Rightarrow> ptr set" where
  "slit_reads m slit arenas arenaID = block arenas 512 \<union> (if slit = NULL then {} else block (slit + 36) 8 \<union>
     {slit + 44 + (of_nat i * SLIT_Localities m slit + arenaID) | i. i < 64})"

lemma arena_word: "i < 64 \<Longrightarrow> word_bytes (arenas + 8 * of_nat i) \<subseteq> block arenas 512"
  by (rule word_bytes_block) (simp add: unat_word_ariths unat_of_nat take_bit_nat_eq_self)

lemma word_bytes_eq_block: "word_bytes p = block p 8"
  by (auto simp: word_bytes_def block_def)

lemma slit_reads_agree:
  assumes agree: "\<And>q. q \<in> slit_reads m slit arenas arenaID \<Longrightarrow> m' q = m q" and i: "i < 64"
  shows "reachable_arena m' slit arenas arenaID i = reachable_arena m slit arenas arenaID i"
    "latency_of m' slit arenas arenaID i = latency_of m slit arenas arenaID i"
proof -
  have arena: "read64 m' (arenas + 8 * of_nat i) = read64 m (arenas + 8 * of_nat i)"
    using arena_word [OF i, of arenas] by (intro read64_agree agree) (auto simp: slit_reads_def)
  have "slit_entry m' slit arenaID i = slit_entry m slit arenaID i" if "slit \<noteq> NULL"
  proof -
    have "SLIT_Localities m' slit = SLIT_Localities m slit" unfolding SLIT_Localities_def
      using that by (intro read64_agree agree) (auto simp: slit_reads_def word_bytes_eq_block)
    moreover have "slit + 44 + (of_nat i * SLIT_Localities m slit + arenaID) \<in> slit_reads m slit arenas arenaID"
      using that i by (auto simp: slit_reads_def)
    ultimately show ?thesis using agree by (simp add: slit_entry_def SLIT_Entries_def)
  qed
  with arena show "reachable_arena m' slit arenas arenaID i = reachable_arena m slit arenas arenaID i"
    "latency_of m' slit arenas arenaID i = latency_of m slit arenas arenaID i"
    by (auto simp: reachable_arena_def latency_of_def)
qed

text \<open>Writing an element and reading it back; the sixteen bytes of each element.\<close>

lemma read32_agree: "(\<And>q. q \<in> block p 4 \<Longrightarrow> m q = m' q) \<Longrightarrow> read32 m p = read32 m' p"
  unfolding read32_def by (subst read_le_cong [of 4 m p m']) (auto simp: block_def)

lemma element_bytes: "block p 4 \<subseteq> block p 16" "p + 4 \<in> block p 16" "word_bytes (p + 8) \<subseteq> block p 16"
proof -
  show "block p 4 \<subseteq> block p 16" unfolding block_def by (intro image_mono) auto
  show "p + 4 \<in> block p 16" unfolding block_def by (rule image_eqI [of _ _ 4]) simp_all
  show "word_bytes (p + 8) \<subseteq> block p 16" by (rule word_bytes_block) simp
qed

lemma read_NUMALatency_agree:
  assumes "\<And>q. q \<in> block p 16 \<Longrightarrow> m q = m' q"
  shows "read_NUMALatency m p = read_NUMALatency m' p"
proof -
  have "read32 m p = read32 m' p" using assms element_bytes(1) by (intro read32_agree) blast
  moreover have "read64 m (p + 8) = read64 m' (p + 8)" using assms element_bytes(3) by (intro read64_agree) blast
  ultimately show ?thesis using assms [OF element_bytes(2)] by (simp add: read_NUMALatency_def)
qed

lemma read_write_NUMALatency: "read_NUMALatency (write_NUMALatency m p e) p = e"
proof -
  have 4: "p + 4 \<notin> word_bytes (p + 8)" by (rule byte_before_word) simp_all
  have low: "q \<notin> word_bytes (p + 8)" "q \<noteq> p + 4" if "q \<in> block p 4" for q
  proof -
    obtain x where x: "x < 4" "q = p + of_nat x" using \<open>q \<in> block p 4\<close> by (auto simp: block_def)
    then have u: "unat (of_nat x :: u64) = x" by (simp add: unat_of_nat take_bit_nat_eq_self)
    then show "q \<notin> word_bytes (p + 8)" using byte_before_word [of "of_nat x" 8 p] x by simp
    have "of_nat x \<noteq> (4 :: u64)" using u x(1) by auto
    then show "q \<noteq> p + 4" using x(2) by simp
  qed
  have "read32 (write_NUMALatency m p e) p = read32 (write32 m p (ProximityDomain e)) p"
    using low by (intro read32_agree) (simp add: write_NUMALatency_def write64_notin)
  moreover have "write_NUMALatency m p e (p + 4) = Latency e" by (simp add: write_NUMALatency_def write64_notin [OF 4])
  ultimately show ?thesis by (simp add: read_NUMALatency_def read32_write32 read64_write64 write_NUMALatency_def)
qed

lemma write_NUMALatency_other: "q \<notin> block p 16 \<Longrightarrow> write_NUMALatency m p e q = m q"
proof -
  assume q: "q \<notin> block p 16"
  have "q \<noteq> p + 4" "q \<notin> word_bytes (p + 8)" using q element_bytes(2,3) by blast+
  then have "write_NUMALatency m p e q = write32 m p (ProximityDomain e) q"
    by (simp add: write_NUMALatency_def write64_notin)
  also have "\<dots> = m q" using q unfolding write32_def by (intro write_le_other) (auto simp: block_def)
  finally show ?thesis .
qed

definition elements :: "ptr \<Rightarrow> nat \<Rightarrow> nat \<Rightarrow> ptr set" where
  "elements out a b = (\<lambda>x. out + of_nat x) ` {16 * a..<16 * b}"

lemma element_block: "block (out + 16 * of_nat j) 16 = elements out j (Suc j)"
proof -
  have "block (out + 16 * of_nat j) 16 = (\<lambda>x. out + of_nat x) ` ((+) (16 * j) ` {..<16})"
    by (auto simp: block_def image_image add.assoc)
  also have "(+) (16 * j) ` {..<16} = {16 * j..<16 * Suc j}" by (simp add: lessThan_atLeast0 algebra_simps)
  finally show ?thesis by (simp add: elements_def)
qed

lemma elements_disjoint: "b \<le> c \<Longrightarrow> d \<le> 64 \<Longrightarrow> b \<le> 64 \<Longrightarrow> elements out a b \<inter> elements out c d = {}"
  unfolding elements_def by (rule offsets_disjoint) auto

lemma elements_mono: "a' \<le> a \<Longrightarrow> b \<le> b' \<Longrightarrow> elements out a b \<subseteq> elements out a' b'"
  unfolding elements_def by (intro image_mono) auto

text \<open>The loop from domain \<open>i\<close> on, in a memory that differs from the first one in the output only.\<close>

lemma SLIT_loop_writes:
  fixes m0 m1 :: mem and slit arenas out :: ptr and arenaID :: u64
  defines "F \<equiv> \<lambda>i k. filter (reachable_arena m0 slit arenas arenaID) [i..<i + k]"
  assumes apart: "elements out 0 64 \<inter> slit_reads m0 slit arenas arenaID = {}"
  shows "i + k = 64 \<Longrightarrow> j \<le> i \<Longrightarrow> (\<And>q. q \<notin> elements out 0 64 \<Longrightarrow> m1 q = m0 q) \<Longrightarrow>
    SLIT_loop m1 slit out arenas arenaID i k (of_nat j) = (m2, n) \<Longrightarrow>
    n = of_nat (j + length (F i k)) \<and>
    (\<forall>t<length (F i k). read_NUMALatency m2 (out + 16 * of_nat (j + t)) = latency_of m0 slit arenas arenaID (F i k ! t)) \<and>
    (\<forall>q. q \<notin> elements out j (j + length (F i k)) \<longrightarrow> m2 q = m1 q)"
proof (induction k arbitrary: i j m1)
  case 0
  then show ?case by (simp add: F_def)
next
  case (Suc k)
  have i: "i < 64" using Suc.prems(1) by simp
  have "m1 q = m0 q" if "q \<in> slit_reads m0 slit arenas arenaID" for q using apart that by (intro Suc.prems(3)) auto
  note same = slit_reads_agree [OF this i]
  have split: "[i..<i + Suc k] = i # [Suc i..<Suc i + k]" by (simp add: upt_add_Suc del: upt_Suc)
  let ?go = "reachable_arena m1 slit arenas arenaID i"
  let ?m = "write_NUMALatency m1 (out + 16 * of_nat j) (latency_of m1 slit arenas arenaID i)"
  have loop: "SLIT_loop m1 slit out arenas arenaID i (Suc k) (of_nat j) =
      (if ?go then SLIT_loop ?m slit out arenas arenaID (Suc i) k (of_nat (Suc j))
       else SLIT_loop m1 slit out arenas arenaID (Suc i) k (of_nat j))"
    by (auto simp: Let_def reachable_arena_def latency_of_def slit_entry_def add.commute)
  show ?case
  proof (cases ?go)
    case False
    then have "F i (Suc k) = F (Suc i) k" unfolding F_def split using same(1) by (simp del: upt_Suc)
    with False Suc.IH [of "Suc i" j m1] Suc.prems loop show ?thesis by simp
  next
    case True
    then have f: "F i (Suc k) = i # F (Suc i) k" unfolding F_def split using same(1) by (simp del: upt_Suc)
    have len: "length (F (Suc i) k) \<le> k" using length_filter_le [of _ "[Suc i..<Suc i + k]"] by (simp add: F_def del: upt_Suc)
    then have j: "Suc j + length (F (Suc i) k) \<le> 64" using Suc.prems(1,2) by linarith
    have off: "?m q = m1 q" if "q \<notin> elements out j (Suc j)" for q
      using that by (intro write_NUMALatency_other) (simp add: element_block)
    have only: "?m q = m0 q" if "q \<notin> elements out 0 64" for q
      using that off [of q] Suc.prems(3) [of q] elements_mono [of 0 j "Suc j" 64 out] j by auto
    have run: "SLIT_loop ?m slit out arenas arenaID (Suc i) k (of_nat (Suc j)) = (m2, n)"
      using Suc.prems(4) unfolding loop if_P [OF True] .
    have ind: "Suc i + k = 64" "Suc j \<le> Suc i" using Suc.prems(1,2) by simp_all
    note all = Suc.IH [OF ind only run]
    have n: "n = of_nat (Suc j + length (F (Suc i) k))" using all by blast
    have IH: "read_NUMALatency m2 (out + 16 * of_nat (Suc j + t)) = latency_of m0 slit arenas arenaID (F (Suc i) k ! t)"
      if "t < length (F (Suc i) k)" for t using all that by blast
    have frame: "m2 q = ?m q" if "q \<notin> elements out (Suc j) (Suc j + length (F (Suc i) k))" for q using all that by blast
    have "read_NUMALatency m2 (out + 16 * of_nat j) = read_NUMALatency ?m (out + 16 * of_nat j)"
    proof (rule read_NUMALatency_agree)
      fix q assume "q \<in> block (out + 16 * of_nat j) 16"
      then show "m2 q = ?m q"
        using elements_disjoint [of "Suc j" "Suc j" "Suc j + length (F (Suc i) k)" out j] j
        by (intro frame) (auto simp: element_block)
    qed
    then have "read_NUMALatency m2 (out + 16 * of_nat (j + t)) = latency_of m0 slit arenas arenaID (F i (Suc k) ! t)"
      if "t < length (F i (Suc k))" for t
      using that IH [of "t - 1"] same(2) f by (cases t) (simp_all add: read_write_NUMALatency)
    moreover have "m2 q = m1 q" if q: "q \<notin> elements out j (j + length (F i (Suc k)))" for q
    proof -
      have "q \<notin> elements out j (Suc j + length (F (Suc i) k))" using q f by simp
      then have "q \<notin> elements out (Suc j) (Suc j + length (F (Suc i) k))" "q \<notin> elements out j (Suc j)"
        using elements_mono [of j "Suc j" _ "Suc j + length (F (Suc i) k)" out]
          elements_mono [of j j "Suc j" "Suc j + length (F (Suc i) k)" out] by auto
      then show ?thesis using frame off by simp
    qed
    ultimately show ?thesis using n f by simp
  qed
qed

section \<open>The chain of affinity entries\<close>

text \<open>The entries of a well-formed table: each starts where the previous one ends, the last ends the table.\<close>

fun srat_chain :: "mem \<Rightarrow> ptr \<Rightarrow> ptr \<Rightarrow> ptr list \<Rightarrow> bool" where
  "srat_chain m end' p [] \<longleftrightarrow> p = end'"
| "srat_chain m end' p (e # es) \<longleftrightarrow> e = p \<and> e \<noteq> NULL \<and> e < end' \<and> srat_chain m end' (e + ucast (Affinity_Length m e)) es"

text \<open>A call of the iterator, and the entries still to come after the cursor.\<close>

definition srat_call :: "mem \<Rightarrow> ptr \<Rightarrow> (ptr, ptr) cursor_call" where
  "srat_call m srat entry =
     (let e = NextSRATEntry m srat entry in Some (if e = NULL then None else Some e, e))"

definition rest_srat :: "mem \<Rightarrow> ptr \<Rightarrow> ptr \<Rightarrow> ptr list \<Rightarrow> bool" where
  "rest_srat m srat entry es \<longleftrightarrow>
     (if entry = NULL then es \<noteq> [] \<and> srat_chain m (srat + ucast (header_Length m srat)) (SRAT_Entries srat) es
      else srat_chain m (srat + ucast (header_Length m srat)) entry (entry # es))"

interpretation srat: cursor "srat_call m srat" "rest_srat m srat" "\<lambda>e. e = NULL" for m srat
proof
  fix c x xs
  show "\<exists>c'. srat_call m srat c = Some (None, c') \<and> c' = NULL" if "rest_srat m srat c []"
    using that by (auto simp: rest_srat_def srat_call_def NextSRATEntry_def Let_def split: if_splits)
  show "\<exists>c'. srat_call m srat c = Some (Some x, c') \<and> rest_srat m srat c' xs" if "rest_srat m srat c (x # xs)"
    using that by (auto simp: rest_srat_def srat_call_def NextSRATEntry_def Let_def split: if_splits)
qed

section \<open>Values of sums\<close>

lemma sum_list_word_nat: "sum_list (xs :: u8 list) = of_nat (sum_list (map unat xs))"
  by (induction xs) simp_all

lemma sum_list_ucast_nat: "sum_list (map ucast xs) = (of_nat (sum_list (map unat xs)) :: u64)" for xs :: "u8 list"
  by (induction xs) simp_all

lemma sum_list_bytes_bound: "sum_list (map unat xs) \<le> 255 * length xs" for xs :: "u8 list"
proof (induction xs)
  case (Cons x xs)
  have "unat x < 256" using unsigned_less [of x] by simp
  with Cons show ?case by simp
qed simp

lemma memcmp_zero_iff:
  assumes "n < 2 ^ 56"
  shows "memcmp m a b n = 0 \<longleftrightarrow> sum_list (map unat (bytes_at m a n)) = sum_list (map unat (bytes_at m b n))"
proof -
  have lt: "sum_list (map unat (bytes_at m p n)) < 2 ^ 64" for p
    using sum_list_bytes_bound [of "bytes_at m p n"] assms by simp
  have inj: "(of_nat x :: u64) = of_nat y \<longleftrightarrow> x = y" if "x < 2 ^ 64" "y < 2 ^ 64" for x y
  proof
    assume "(of_nat x :: u64) = of_nat y"
    then have "unat (of_nat x :: u64) = unat (of_nat y :: u64)" by simp
    then show "x = y" using that by (simp add: unat_of_nat take_bit_nat_eq_self)
  qed simp
  show ?thesis using inj [OF lt [of a] lt [of b]] by (simp add: memcmp_sum sum_list_ucast_nat)
qed

lemma tableCount_value:
  assumes "36 \<le> unat (header_Length m xsdt)"
  shows "unat (tableCount m xsdt) = (unat (header_Length m xsdt) - 36) div 8"
proof -
  have u: "unat (ucast (header_Length m xsdt) :: u64) = unat (header_Length m xsdt)"
    by (rule unat_ucast_u32)
  have "(36 :: u64) \<le> ucast (header_Length m xsdt)" using assms u by (simp add: word_le_nat_alt)
  then show ?thesis using u by (simp add: tableCount_def sizeof_ACPI_XSDT_def unat_div unat_sub)
qed

text \<open>A memory with an XSDT of one entry at 0x1000, the table at 0x2000 and a name at 0x3000.\<close>

definition ex_acpi :: "u8 \<Rightarrow> u8 \<Rightarrow> u8 \<Rightarrow> u8 \<Rightarrow> mem" where
  "ex_acpi a b c d = (\<lambda>_. 0)(0x1004 := 44, 0x1025 := 32, 0x2000 := a, 0x2001 := b, 0x2002 := c, 0x2003 := d,
     0x2004 := 9, 0x2008 := 187, 0x3000 := 83, 0x3001 := 76, 0x3002 := 73, 0x3003 := 84)"

lemma ex_acpi_simps:
  "header_Length (ex_acpi a b c d) 0x1000 = 44" "XSDT_Entries (ex_acpi a b c d) 0x1000 0 = 0x2000"
  "bytes_at (ex_acpi a b c d) 0x2000 4 = [a, b, c, d]" "bytes_at (ex_acpi a b c d) 0x3000 4 = [83, 76, 73, 84]"
  "bytes_at (ex_acpi a b c d) 0x2000 9 = [a, b, c, d, 9, 0, 0, 0, 187]"
  "header_Length (ex_acpi a b c d) 0x2000 = 9"
  by (simp_all add: header_Length_def read32_bytes XSDT_Entries_def sizeof_ACPI_XSDT_def read64_halves ex_acpi_def bytes_at_def upt_rec)

text \<open>A memory with an SRAT at 0x1000 that holds two entries of 16 and 40 bytes.\<close>

definition ex_srat :: mem where
  "ex_srat = (\<lambda>_. 0)(0x1004 := 104, 0x1031 := 16, 0x1041 := 40)"

section \<open>Properties\<close>

text \<open>\<open>CheckTableChecksum\<close> accepts a table iff the bytes of its length add up to a multiple of 256.\<close>

theorem CheckTableChecksum_correct:
  "CheckTableChecksum m table \<longleftrightarrow>
     sum_list (map unat (bytes_at m table (unat (header_Length m table)))) mod 256 = 0"
proof -
  have "(of_nat k :: u8) = 0 \<longleftrightarrow> k mod 256 = 0" for k
    by (simp add: unat_eq_zero [symmetric] unat_of_nat take_bit_eq_mod)
  then show ?thesis unfolding CheckTableChecksum_sum sum_list_word_nat .
qed

text \<open>
  C21: \<open>FindACPITable\<close> on a table at least as long as its header: what it returns is an entry with a
  valid checksum whose signature bytes have the same sum as the requested ones, and if an entry
  has the requested signature and a valid checksum, it returns an entry.
\<close>

theorem FindACPITable_correct:
  assumes "36 \<le> unat (header_Length m xsdt)"
    and "es = map (\<lambda>j. XSDT_Entries m xsdt (of_nat j)) [0..<(unat (header_Length m xsdt) - 36) div 8]"
  shows "(FindACPITable m xsdt sig \<noteq> NULL \<longrightarrow>
      FindACPITable m xsdt sig \<in> set es \<and> CheckTableChecksum m (FindACPITable m xsdt sig) \<and>
      sum_list (map unat (bytes_at m (FindACPITable m xsdt sig) 4)) = sum_list (map unat (bytes_at m sig 4))) \<and>
    ((\<exists>e\<in>set es. bytes_at m e 4 = bytes_at m sig 4 \<and> CheckTableChecksum m e) \<longrightarrow>
      FindACPITable m xsdt sig \<in> set es \<and> CheckTableChecksum m (FindACPITable m xsdt sig))"
proof -
  have eq: "FindACPITable m xsdt sig = (case find (table_ok m sig) es of None \<Rightarrow> NULL | Some e \<Rightarrow> e)"
    using FindACPITable_find [of m xsdt sig] tableCount_value [OF assms(1)] assms(2) by simp
  have sig: "memcmp m sig e ACPI_SIGNATURE_SIZE = 0 \<longleftrightarrow>
      sum_list (map unat (bytes_at m e 4)) = sum_list (map unat (bytes_at m sig 4))" for e
    using memcmp_zero_iff [of 4 m sig e] by (auto simp: ACPI_SIGNATURE_SIZE_def)
  show ?thesis
  proof (cases "find (table_ok m sig) es")
    case None
    then have "\<not> table_ok m sig e" if "e \<in> set es" for e using that by (auto simp: find_None_iff)
    then have "\<not> (\<exists>e\<in>set es. bytes_at m e 4 = bytes_at m sig 4 \<and> CheckTableChecksum m e)"
      by (auto simp: table_ok_def sig)
    with None show ?thesis unfolding eq by auto
  next
    case (Some e)
    then have "e \<in> set es" "table_ok m sig e" by (auto simp: find_Some_iff)
    with Some show ?thesis unfolding eq by (simp add: table_ok_def sig)
  qed
qed

theorem FindACPITable_correct_witness:
  "FindACPITable (ex_acpi 83 76 73 84) 0x1000 0x3000 \<in> set [0x2000]"
proof -
  let ?m = "ex_acpi 83 76 73 84"
  have a: "36 \<le> unat (header_Length ?m 0x1000)" by (simp add: ex_acpi_simps)
  have b: "[0x2000] = map (\<lambda>j. XSDT_Entries ?m 0x1000 (of_nat j)) [0..<(unat (header_Length ?m 0x1000) - 36) div 8]"
    by (simp add: ex_acpi_simps)
  have "\<exists>e\<in>set [0x2000]. bytes_at ?m e 4 = bytes_at ?m 0x3000 4 \<and> CheckTableChecksum ?m e"
    by (simp add: CheckTableChecksum_sum ex_acpi_simps)
  from FindACPITable_correct [OF a b, THEN conjunct2, rule_format, OF this] show ?thesis by (rule conjunct1)
qed

text \<open>
  \<open>memcmp\<close> adds up the differences of the bytes, so signatures that are permutations of each other
  compare as equal: a table signed TILS is returned for SLIT.
\<close>

theorem FindACPITable_anagram:
  "FindACPITable (ex_acpi 84 73 76 83) 0x1000 0x3000 = 0x2000 \<and>
   bytes_at (ex_acpi 84 73 76 83) 0x2000 4 \<noteq> bytes_at (ex_acpi 84 73 76 83) 0x3000 4"
  by (simp add: FindACPITable_find tableCount_value ex_acpi_simps table_ok_def CheckTableChecksum_sum
      memcmp_sum ACPI_SIGNATURE_SIZE_def)

text \<open>
  A table that claims to be shorter than its header makes the entry count wrap around: the lookup
  then goes through more than 2^60 entries behind the table.
\<close>

theorem FindACPITable_count_wraps:
  assumes "unat (header_Length m xsdt) < 36"
  shows "2 ^ 60 < unat (tableCount m xsdt)"
proof -
  have u: "unat (ucast (header_Length m xsdt) :: u64) = unat (header_Length m xsdt)"
    by (rule unat_ucast_u32)
  then have "ucast (header_Length m xsdt) < (36 :: u64)" using assms by (simp add: word_less_nat_alt)
  then have "unat (ucast (header_Length m xsdt) - 36 :: u64) = unat (header_Length m xsdt) + 2 ^ 64 - 36"
    using u by (simp add: unat_sub_if_size word_size not_le word_le_nat_alt word_less_nat_alt)
  then show ?thesis by (simp add: tableCount_def sizeof_ACPI_XSDT_def unat_div)
qed

theorem FindACPITable_count_wraps_witness: "2 ^ 60 < unat (tableCount (\<lambda>_. 0) 0)"
  by (rule FindACPITable_count_wraps) (simp add: header_Length_def read32_bytes)

text \<open>
  C30: \<open>SLITToLatencyTable\<close> leaves in the array \<open>out\<close> exactly the present arenas that are not marked
  unreachable, in the order of their domains, each with its SLIT distance, or without a SLIT with 10 for the
  arena itself and 30 for the others. The returned count is their number, at most 64, and nothing behind the
  elements counted or elsewhere is written. The array does not overlap what the function reads in its loop.
\<close>

theorem SLITToLatencyTable_correct:
  assumes "SLITToLatencyTable m xsdp name out arenas arenaID = (m', n)"
    and "slit = FindACPITable m (read64 m (xsdp + 24)) name"
    and "block out (16 * 64) \<inter> slit_reads m slit arenas arenaID = {}"
  shows "map (\<lambda>j. read_NUMALatency m' (out + 16 * of_nat j)) [0..<unat n] =
      map (latency_of m slit arenas arenaID) (filter (reachable_arena m slit arenas arenaID) [0..<64]) \<and>
    unat n \<le> 64 \<and> (\<forall>q. q \<notin> block out (16 * unat n) \<longrightarrow> m' q = m q)"
proof -
  let ?F = "filter (reachable_arena m slit arenas arenaID) [0..<64]"
  have whole: "elements out 0 k = block out (16 * k)" for k by (simp add: elements_def block_def lessThan_atLeast0)
  have "SLIT_loop m slit out arenas arenaID 0 64 (of_nat 0) = (m', n)"
    using assms(1,2) by (simp add: SLITToLatencyTable_def MAX_NUMAS_def)
  from SLIT_loop_writes [OF _ _ _ _ this, where ?m0.0 = m] assms(3)
  have w: "n = of_nat (length ?F)"
    "\<forall>t<length ?F. read_NUMALatency m' (out + 16 * of_nat t) = latency_of m slit arenas arenaID (?F ! t)"
    "\<forall>q. q \<notin> elements out 0 (length ?F) \<longrightarrow> m' q = m q"
    by (simp_all add: whole)
  have "length ?F \<le> 64" using length_filter_le [of _ "[0..<64]"] by (metis diff_zero length_upt)
  then have n: "unat n = length ?F" using w(1) by (simp add: unat_of_nat take_bit_nat_eq_self)
  have "map (\<lambda>j. read_NUMALatency m' (out + 16 * of_nat j)) [0..<length ?F] = map (latency_of m slit arenas arenaID) ?F"
    using w(2) by (intro nth_equalityI) simp_all
  with n w(3) \<open>length ?F \<le> 64\<close> show ?thesis by (simp add: whole)
qed

text \<open>Domains 0 and 3 have arenas, 3 asks, and the root table is empty.\<close>

definition ex_arenas :: mem where
  "ex_arenas = (\<lambda>_. 0)(0x119 := 2, 0x204 := 36, 0x2001 := 0xA0, 0x2019 := 0xB0)"

lemma ex_arenas_other:
  assumes "i < 64" "i \<noteq> 0" "i \<noteq> 3"
  shows "read64 ex_arenas (0x2000 + 8 * of_nat i) = 0"
proof -
  have "ex_arenas q = 0" if q: "q \<in> word_bytes (0x2000 + 8 * of_nat i)" for q
  proof -
    obtain x where x: "x < 8" "q = 0x2000 + 8 * of_nat i + of_nat x" using q unfolding word_bytes_def by blast
    then have "q = of_nat (0x2000 + 8 * i + x)" by simp
    moreover have "unat (of_nat (0x2000 + 8 * i + x) :: u64) = 0x2000 + 8 * i + x"
      using x(1) assms(1) by (simp add: unat_of_nat take_bit_nat_eq_self del: of_nat_add of_nat_mult)
    ultimately have u: "unat q = 0x2000 + 8 * i + x" by simp
    have "8 * i + x \<noteq> 1" "8 * i + x \<noteq> 25" using x(1) assms(2,3) by presburger+
    then have "unat q \<noteq> unat (0x119 :: u64)" "unat q \<noteq> unat (0x204 :: u64)" "unat q \<noteq> unat (0x2001 :: u64)"
      "unat q \<noteq> unat (0x2019 :: u64)" using u by simp_all
    then show ?thesis by (auto simp: ex_arenas_def)
  qed
  then have "read64 ex_arenas (0x2000 + 8 * of_nat i) = read64 (\<lambda>_. 0) (0x2000 + 8 * of_nat i)" by (intro read64_agree) simp
  then show ?thesis by (simp add: read64_halves read32_bytes)
qed

lemma ex_arenas_facts:
  "read64 ex_arenas 0x118 = 0x200" "tableCount ex_arenas 0x200 = 0"
  "filter (reachable_arena ex_arenas 0 0x2000 3) [0..<64] = [0, 3]"
  "latency_of ex_arenas 0 0x2000 3 0 = \<lparr>ProximityDomain = 0, Latency = 30, Arena = 0xA000\<rparr>"
  "latency_of ex_arenas 0 0x2000 3 3 = \<lparr>ProximityDomain = 3, Latency = 10, Arena = 0xB000\<rparr>"
proof -
  have words: "read64 ex_arenas 0x2000 = 0xA000" "read64 ex_arenas 0x2018 = 0xB000"
    by (simp_all add: ex_arenas_def read64_halves read32_bytes)
  have "reachable_arena ex_arenas 0 0x2000 3 i \<longleftrightarrow> i = 0 \<or> i = 3" if "i < 64" for i
    using ex_arenas_other [OF that] words by (auto simp: reachable_arena_def)
  then have "filter (reachable_arena ex_arenas 0 0x2000 3) [0..<64] = filter (\<lambda>i. i = 0 \<or> i = 3) [0..<64]"
    by (intro filter_cong) auto
  also have "\<dots> = [0, 3]" by code_simp
  finally show "filter (reachable_arena ex_arenas 0 0x2000 3) [0..<64] = [0, 3]" .
  show "latency_of ex_arenas 0 0x2000 3 0 = \<lparr>ProximityDomain = 0, Latency = 30, Arena = 0xA000\<rparr>"
    "latency_of ex_arenas 0 0x2000 3 3 = \<lparr>ProximityDomain = 3, Latency = 10, Arena = 0xB000\<rparr>"
    using words by (simp_all add: latency_of_def LATENCY_DEFAULT_VALUE_def)
qed (simp_all add: ex_arenas_def read64_halves read32_bytes tableCount_def header_Length_def sizeof_ACPI_XSDT_def)

theorem SLITToLatencyTable_correct_witness:
  "\<exists>m' n. SLITToLatencyTable ex_arenas 0x100 0 0x8000 0x2000 3 = (m', n) \<and>
    map (\<lambda>j. read_NUMALatency m' (0x8000 + 16 * of_nat j)) [0..<unat n] =
      [\<lparr>ProximityDomain = 0, Latency = 30, Arena = 0xA000\<rparr>, \<lparr>ProximityDomain = 3, Latency = 10, Arena = 0xB000\<rparr>]"
proof -
  obtain m' n where run: "SLITToLatencyTable ex_arenas 0x100 0 0x8000 0x2000 3 = (m', n)" by fastforce
  have slit: "NULL = FindACPITable ex_arenas (read64 ex_arenas (0x100 + 24)) 0"
    by (simp add: ex_arenas_facts FindACPITable_find)
  have "(\<lambda>x. 0x2000 + of_nat x) ` {0x6000..<0x6400} \<inter> (\<lambda>x. (0x2000 :: u64) + of_nat x) ` {0..<512} = {}"
    by (rule offsets_disjoint) simp_all
  moreover have "block 0x8000 (16 * 64) = (\<lambda>x. (0x2000 :: u64) + of_nat x) ` {0x6000..<0x6400}"
  proof -
    have "block 0x8000 (16 * 64) = (\<lambda>x. (0x2000 :: u64) + of_nat x) ` ((+) 0x6000 ` {..<1024})"
      by (simp add: block_def image_image)
    then show ?thesis by (simp add: lessThan_atLeast0)
  qed
  ultimately have "block 0x8000 (16 * 64) \<inter> slit_reads ex_arenas 0 0x2000 3 = {}"
    by (simp add: slit_reads_def block_def lessThan_atLeast0)
  from SLITToLatencyTable_correct [OF run slit this] run show ?thesis by (simp add: ex_arenas_facts)
qed

text \<open>
  C31: \<open>NextSRATEntry\<close>, called repeatedly from NULL, visits the entries of a well-formed non-empty table
  one after the other and then returns NULL.
\<close>

theorem NextSRATEntry_iterates:
  assumes "srat_chain m (srat + ucast (header_Length m srat)) (SRAT_Entries srat) es" and "es \<noteq> []"
  shows "collect (srat_call m srat) (Suc (length es)) NULL = Some (es, NULL)"
  using srat.collect_rests [of m srat NULL es "Suc (length es)"] assms by (auto simp: rest_srat_def)

theorem NextSRATEntry_iterates_witness: "collect (srat_call ex_srat 0x1000) 3 NULL = Some ([0x1030, 0x1040], NULL)"
proof -
  have "srat_chain ex_srat (0x1000 + ucast (header_Length ex_srat 0x1000)) (SRAT_Entries 0x1000) [0x1030, 0x1040]"
    by code_simp
  from NextSRATEntry_iterates [OF this] show ?thesis by (simp add: eval_nat_numeral)
qed

text \<open>
  On malformed tables the iteration goes wrong: of a table without entries it still returns the
  address behind the header, and at an entry of length 0 it never ends.
\<close>

theorem NextSRATEntry_malformed:
  assumes "header_Length m srat = 48" and "entry \<noteq> NULL" and "Affinity_Length m' entry = 0"
    and "entry < srat' + ucast (header_Length m' srat')"
  shows "NextSRATEntry m srat NULL = srat + ucast (header_Length m srat) \<and> collect (srat_call m' srat') fuel entry = None"
proof -
  have "NextSRATEntry m' srat' entry = entry" using assms(2-4) by (simp add: NextSRATEntry_def Let_def)
  then have "collect (srat_call m' srat') fuel entry = None" using assms(2) by (induction fuel) (simp_all add: srat_call_def Let_def)
  with assms(1) show ?thesis by (simp add: NextSRATEntry_def SRAT_Entries_def)
qed

theorem NextSRATEntry_malformed_witness:
  "NextSRATEntry ((\<lambda>_. 0)(0x1004 := 48)) 0x1000 NULL = 0x1030 \<and>
   collect (srat_call ((\<lambda>_. 0)(0x1004 := 64)) 0x1000) 100 0x1030 = None"
proof -
  have "header_Length ((\<lambda>_. 0)(0x1004 := 48)) 0x1000 = 48" "(0x1030 :: ptr) \<noteq> NULL"
    "Affinity_Length ((\<lambda>_. 0)(0x1004 := 64)) 0x1030 = 0"
    "(0x1030 :: ptr) < 0x1000 + ucast (header_Length ((\<lambda>_. 0)(0x1004 := 64)) 0x1000)"
    by (simp_all add: header_Length_def read32_bytes Affinity_Length_def)
  from NextSRATEntry_malformed [OF this, of 100] show ?thesis by (simp add: header_Length_def read32_bytes)
qed

text \<open>\<open>LAPICProximityDomain\<close> is the 32-bit domain number whose low byte and three high bytes the entry holds.\<close>

theorem LAPICProximityDomain_value:
  "unat (LAPICProximityDomain m e) =
     unat (m (e + 2)) + 256 * unat (m (e + 9)) + 65536 * unat (m (e + 10)) + 16777216 * unat (m (e + 11))"
proof -
  let ?b = "\<lambda>i. ucast (m (e + i)) :: u32"
  have lt: "unat (m p) < 256" for p using unsigned_less [of "m p"] by simp
  have b8: "\<not> bit (m p) k" if "8 \<le> k" for p k using bit_imp_le_length [of "m p" k] that by auto
  have sum: "LAPICProximityDomain m e = ?b 2 + push_bit 8 (?b 9) + push_bit 16 (?b 10) + push_bit 24 (?b 11)"
  proof -
    have "?b 2 AND push_bit 8 (?b 9) = 0" "(?b 2 OR push_bit 8 (?b 9)) AND push_bit 16 (?b 10) = 0"
      "((?b 2 OR push_bit 8 (?b 9)) OR push_bit 16 (?b 10)) AND push_bit 24 (?b 11) = 0"
      by (auto intro!: bit_eqI simp: bit_simps b8 dest: b8 [rotated])
    then show ?thesis by (simp add: LAPICProximityDomain_def disjunctive_add_eq_or)
  qed
  have sh: "unat (push_bit k (?b i)) = unat (m (e + i)) * 2 ^ k" if "k \<le> 24" for k i
  proof -
    have "(2 :: nat) ^ k \<le> 2 ^ 24" using that by (rule power_increasing) simp
    then have "unat (m (e + i)) * 2 ^ k < 2 ^ 8 * 2 ^ 24"
      using lt [of "e + i"] by (intro mult_less_le_imp_less) auto
    moreover have "unat (?b i) = unat (m (e + i))"
      using lt [of "e + i"] by (simp add: unsigned_ucast_eq take_bit_nat_eq_self)
    ultimately show ?thesis
      by (subst unsigned_push_bit_eq) (simp add: push_bit_eq_mult take_bit_nat_eq_self)
  qed
  have w: "unat (?b i) = unat (m (e + i))" for i using sh [of 0 i] by simp
  show ?thesis
    using lt [of "e + 2"] lt [of "e + 9"] lt [of "e + 10"] lt [of "e + 11"] sum
    by (simp add: unat_word_ariths w sh)
qed

end
