(* ===== verification/Slab.thy ===== *)
theory Slab
  imports Atomic_Ops Architecture
begin

unbundle bit_operations_syntax

text \<open>
  The small-object allocator of \<open>kernel/memman/SLAB.c\<close> on byte memory: a slab is a page whose
  64-byte header has the list links, the element length, the counters and a bitmap of the 256 slots
  of 16 bytes. The bit scans depend on the registers the compiler picks (\<open>ra\<close>, see \<open>Architecture\<close>).
  A shift by 64 or more, which C leaves undefined, is \<^const>\<open>None\<close>. \<open>SLABListRemove\<close> and
  \<open>SLABSafeListAdd\<close> call the spinlock on a variable; what lock and release do to the memory are
  parameters \<open>lk\<close> and \<open>ul\<close>.
\<close>

section \<open>Constants and fields\<close>

definition SLABS_MIN_ALLOC :: u64 where
  "SLABS_MIN_ALLOC = 16"

definition SLABS_TOT_ORDERS :: u64 where
  "SLABS_TOT_ORDERS = 6"

definition SLABS_BITMAP_SLOT_COUNT :: u64 where
  "SLABS_BITMAP_SLOT_COUNT = PAGE_SIZE div SLABS_MIN_ALLOC"

definition SLABS_BITMAP_COUNT :: u64 where
  "SLABS_BITMAP_COUNT = SLABS_BITMAP_SLOT_COUNT div (8 * 8)"

definition MASK_PAGE_OFFSET :: u64 where
  "MASK_PAGE_OFFSET = PAGE_SIZE - 1"

definition MASK_PAGE_BEGIN :: u64 where
  "MASK_PAGE_BEGIN = NOT (PAGE_SIZE - 1)"

definition min_macro :: "u64 \<Rightarrow> u64 \<Rightarrow> u64" where
  "min_macro a b = (if a > b then b else a)"

text \<open>\<open>struct SLAB\<close>: 64 bytes.\<close>

definition sizeof_SLAB :: u64 where
  "sizeof_SLAB = 64"

definition slab_ElementLength :: "mem \<Rightarrow> ptr \<Rightarrow> u64" where
  "slab_ElementLength m slab = ucast (read16 m (slab + 24))"

definition slab_ResidualElementCount :: "mem \<Rightarrow> ptr \<Rightarrow> u64" where
  "slab_ResidualElementCount m slab = ucast (read16 m (slab + 26))"

definition slab_MainElementCount :: "mem \<Rightarrow> ptr \<Rightarrow> u64" where
  "slab_MainElementCount m slab = ucast (read16 m (slab + 28))"

definition slab_Bitmap :: "ptr \<Rightarrow> u64 \<Rightarrow> ptr" where
  "slab_Bitmap slab base = slab + 32 + 8 * base"

definition slub_Partial :: "ptr \<Rightarrow> u64 \<Rightarrow> ptr" where
  "slub_Partial slub order = slub + 8 * order"

section \<open>Geometry of a slab\<close>

definition SLABObject :: "ptr \<Rightarrow> ptr" where
  "SLABObject object = object AND MASK_PAGE_BEGIN"

definition SLABObjectOffset :: "ptr \<Rightarrow> u64" where
  "SLABObjectOffset object = object AND MASK_PAGE_OFFSET"

definition SLABResidual :: "ptr \<Rightarrow> bool" where
  "SLABResidual object \<longleftrightarrow> object AND MASK_PAGE_OFFSET \<noteq> 0"

definition SLABResidualTotal :: "reg_alloc \<Rightarrow> mem \<Rightarrow> ptr \<Rightarrow> u64" where
  "SLABResidualTotal ra m slab =
     (if slab_ElementLength m slab < CACHELINE_LENGTH then 0
      else BSF ra (slab_ElementLength m slab) - BSF ra CACHELINE_LENGTH)"

definition SLABMainOffset :: "mem \<Rightarrow> ptr \<Rightarrow> u64" where
  "SLABMainOffset m slab = min_macro sizeof_SLAB (slab_ElementLength m slab)"

text \<open>A division by an element length of 0 traps.\<close>

definition SLABMainTotal :: "mem \<Rightarrow> ptr \<Rightarrow> u64 option" where
  "SLABMainTotal m slab =
     (if slab_ElementLength m slab = 0 then None
      else Some ((PAGE_SIZE - SLABMainOffset m slab) div slab_ElementLength m slab))"

text \<open>\<open>&&\<close> evaluates the division only if the residual counts agree.\<close>

definition SLABCanFree :: "reg_alloc \<Rightarrow> mem \<Rightarrow> ptr \<Rightarrow> bool option" where
  "SLABCanFree ra m slab =
     (if SLABResidualTotal ra m slab = slab_ResidualElementCount m slab
      then map_option (\<lambda>n. n = slab_MainElementCount m slab) (SLABMainTotal m slab)
      else Some False)"

definition SLABSizeToOrder :: "reg_alloc \<Rightarrow> u64 \<Rightarrow> u64" where
  "SLABSizeToOrder ra size' = BSR ra (size' - 1) + 1 - BSR ra SLABS_MIN_ALLOC"

definition SLABObjectOrder :: "reg_alloc \<Rightarrow> mem \<Rightarrow> ptr \<Rightarrow> u64" where
  "SLABObjectOrder ra m obj = SLABSizeToOrder ra (slab_ElementLength m (SLABObject obj))"

section \<open>The bitmap\<close>

text \<open>The loop leaves \<open>(slot, base)\<close>; it has run over the bitmap words from \<open>base\<close> on.\<close>

fun SLABFirst_loop :: "reg_alloc \<Rightarrow> mem \<Rightarrow> ptr \<Rightarrow> nat \<Rightarrow> nat \<Rightarrow> u64 \<Rightarrow> u64 \<times> u64" where
  "SLABFirst_loop ra m slab base 0 slot = (slot, of_nat base)"
| "SLABFirst_loop ra m slab base (Suc k) slot =
     (let slot' = BSF ra (read64 m (slab_Bitmap slab (of_nat base)))
      in if slot' \<noteq> - 1 then (slot', of_nat base) else SLABFirst_loop ra m slab (Suc base) k slot')"

text \<open>\<open>slot0\<close> is what the uninitialised variable \<open>slot\<close> holds; the loop always overwrites it.\<close>

definition SLABFirst :: "reg_alloc \<Rightarrow> mem \<Rightarrow> ptr \<Rightarrow> u64 \<Rightarrow> ptr" where
  "SLABFirst ra m slab slot0 =
     (let (slot, base) = SLABFirst_loop ra m slab 0 (unat SLABS_BITMAP_COUNT) slot0
      in if slot = - 1 then NULL
         else slab + (slot + 8 * 8 * base) * SLABS_MIN_ALLOC)"

definition SLABSet :: "mem \<Rightarrow> ptr \<Rightarrow> bool \<Rightarrow> mem option" where
  "SLABSet m object isFree =
     (let slab = SLABObject object;
          offset = SLABObjectOffset object;
          size' = min_macro offset (slab_ElementLength m slab);
          slots = size' div SLABS_MIN_ALLOC;
          slot = offset div SLABS_MIN_ALLOC mod (8 * 8);
          base = offset div SLABS_MIN_ALLOC div (8 * 8)
      in if slots \<ge> 64 then None
         else let mask' = push_bit (unat slot) (push_bit (unat slots) 1 - 1)
           in Some (if isFree then AtomicOr64 m (slab_Bitmap slab base) mask'
                    else AtomicAnd64 m (slab_Bitmap slab base) (NOT mask')))"

section \<open>The lists of partial slabs\<close>

text \<open>The links of a slab and of a residual block, \<open>struct ResidualSLAB\<close>: \<open>Next\<close> at 0 and \<open>Prev\<close> at 8 in both.\<close>

definition slab_Next :: "ptr \<Rightarrow> ptr" where
  "slab_Next slab = slab + 0"

definition slab_Prev :: "ptr \<Rightarrow> ptr" where
  "slab_Prev slab = slab + 8"

definition residual_Next :: "ptr \<Rightarrow> ptr" where
  "residual_Next obj = obj + 0"

definition residual_Prev :: "ptr \<Rightarrow> ptr" where
  "residual_Prev obj = obj + 8"

lemmas link_fields [simp] = slab_Next_def slab_Prev_def residual_Next_def residual_Prev_def

definition SLABNext :: "ptr \<Rightarrow> ptr" where
  "SLABNext obj = (if SLABResidual obj then residual_Next obj else slab_Next obj)"

definition SLABPrev :: "ptr \<Rightarrow> ptr" where
  "SLABPrev obj = (if SLABResidual obj then residual_Prev obj else slab_Prev obj)"

definition SLABCanRemoveObjectFromList :: "mem \<Rightarrow> ptr \<Rightarrow> bool option" where
  "SLABCanRemoveObjectFromList m obj =
     (if SLABResidual obj then Some True
      else let slab = SLABObject obj
        in map_option (\<lambda>n. n = slab_MainElementCount m slab) (SLABMainTotal m slab))"

definition SLABListRemove :: "reg_alloc \<Rightarrow> (mem \<Rightarrow> mem) \<Rightarrow> (mem \<Rightarrow> mem) \<Rightarrow> mem \<Rightarrow> ptr \<Rightarrow> ptr \<Rightarrow> mem" where
  "SLABListRemove ra lk ul m0 slub obj =
     (let m = lk m0;
          order = SLABObjectOrder ra m obj;
          head = slub_Partial slub order;
          next = read64 m (SLABNext obj);
          prev = read64 m (SLABPrev obj)
      in if obj = head
         then let m1 = (if next \<noteq> NULL then write64 m (SLABPrev next) NULL else m)
           in ul (write64 m1 head next)
         else let m1 = (if next \<noteq> NULL then write64 m (SLABPrev next) prev else m)
           in ul (write64 m1 (SLABNext prev) next))"

definition SLABSafeListAdd :: "(mem \<Rightarrow> mem) \<Rightarrow> (mem \<Rightarrow> mem) \<Rightarrow> mem \<Rightarrow> ptr \<Rightarrow> ptr \<Rightarrow> mem" where
  "SLABSafeListAdd lk ul m0 head obj =
     (let m = lk (write64 m0 (SLABPrev obj) NULL);
          (m1, old) = AtomicExchange64 m head obj;
          m2 = write64 m1 (SLABNext obj) old;
          next = SLABNext obj;
          m3 = (if next \<noteq> NULL then write64 m2 (SLABPrev next) obj else m2)
      in ul m3)"

text \<open>
  The variable \<open>slab\<close> of \<open>SLABTrySafeListRemove\<close> is not declared; \<open>lk_use\<close> and \<open>ul_use\<close> are the
  effect of locking and releasing \<open>InUse\<close>.
\<close>

definition SLABTrySafeListRemove ::
    "reg_alloc \<Rightarrow> (mem \<Rightarrow> mem) \<Rightarrow> (mem \<Rightarrow> mem) \<Rightarrow> (mem \<Rightarrow> mem) \<Rightarrow> (mem \<Rightarrow> mem) \<Rightarrow> mem \<Rightarrow> ptr \<Rightarrow> ptr \<Rightarrow> mem option" where
  "SLABTrySafeListRemove ra lk_use ul_use lk ul m0 slub obj = do {
     let m = lk_use m0;
     removable \<leftarrow> SLABCanRemoveObjectFromList m obj;
     Some (ul_use (if removable then SLABListRemove ra lk ul m slub obj else m)) }"

text \<open>
  \<open>for( size_t size = sizeof(SLAB); size < slab->ElementLength; size *= 2 )\<close>; in iteration \<open>k\<close> the
  size is 64 \<open>*\<close> 2^k. The element length is read again each time; it has 16 bits, so the loop ends.
\<close>

function SLABTryReturnPage_loop ::
    "reg_alloc \<Rightarrow> (mem \<Rightarrow> mem) \<Rightarrow> (mem \<Rightarrow> mem) \<Rightarrow> mem \<Rightarrow> ptr \<Rightarrow> ptr \<Rightarrow> nat \<Rightarrow> mem" where
  "SLABTryReturnPage_loop ra lk ul m slub slab k =
     (if 64 * 2 ^ k < unat (slab_ElementLength m slab)
      then SLABTryReturnPage_loop ra lk ul (SLABListRemove ra lk ul m slub (slab + of_nat (64 * 2 ^ k)))
             slub slab (Suc k)
      else m)"
  by pat_completeness auto
termination
proof (relation "measure (\<lambda>(ra, lk, ul, m, slub, slab, k). 65536 - k)")
  fix ra lk ul m slub slab k
  assume lt: "64 * 2 ^ k < unat (slab_ElementLength m slab)"
  have "unat (read16 m (slab + 24)) < 2 ^ 16" using unsigned_less [of "read16 m (slab + 24)", where ?'a = nat] by simp
  then have "unat (slab_ElementLength m slab) < 65536"
    by (simp add: slab_ElementLength_def unsigned_ucast_eq take_bit_nat_eq_self)
  moreover have "k < 2 ^ k" by (rule less_exp)
  ultimately have "k < 65536" using lt by linarith
  then show "((ra, lk, ul, SLABListRemove ra lk ul m slub (slab + of_nat (64 * 2 ^ k)), slub, slab, Suc k),
      ra, lk, ul, m, slub, slab, k) \<in> measure (\<lambda>(ra, lk, ul, m, slub, slab, k). 65536 - k)"
    by simp
qed auto

declare SLABTryReturnPage_loop.simps [simp del]

text \<open>
  The first call in \<open>SLABTryReturnPage\<close>, \<open>SLABListRemove( slab )\<close>, lacks an argument; what it does is
  the parameter \<open>remove_page\<close>.
\<close>

definition SLABTryReturnPage ::
    "reg_alloc \<Rightarrow> (mem \<Rightarrow> ptr \<Rightarrow> mem) \<Rightarrow> (mem \<Rightarrow> mem) \<Rightarrow> (mem \<Rightarrow> mem) \<Rightarrow> (mem \<Rightarrow> mem) \<Rightarrow> (mem \<Rightarrow> mem) \<Rightarrow>
     mem \<Rightarrow> ptr \<Rightarrow> ptr \<Rightarrow> mem option" where
  "SLABTryReturnPage ra remove_page lk_use ul_use lk ul m0 slub randomPointer = do {
     let slab = SLABObject randomPointer;
     let m = lk_use m0;
     free \<leftarrow> SLABCanFree ra m slab;
     Some (ul_use (if free
       then let m1 = remove_page m slab
         in SLABTryReturnPage_loop ra lk ul m1 slub slab 0
       else m)) }"

text \<open>\<open>SLABAllocate\<close> computes an order, reads the head of that list and does nothing with it.\<close>

definition SLABAllocate :: "reg_alloc \<Rightarrow> mem \<Rightarrow> ptr \<Rightarrow> u64 \<Rightarrow> mem" where
  "SLABAllocate ra m slub size' =
     (let order = SLABSizeToOrder ra size'; head = read64 m (slub_Partial slub order) in m)"

lemmas slab_consts = SLABS_MIN_ALLOC_def SLABS_TOT_ORDERS_def SLABS_BITMAP_SLOT_COUNT_def SLABS_BITMAP_COUNT_def
  MASK_PAGE_OFFSET_def MASK_PAGE_BEGIN_def sizeof_SLAB_def

section \<open>Bit scans\<close>

lemma bit_u64_nat: "bit (x :: u64) k \<longleftrightarrow> odd (unat x div 2 ^ k)"
  by (metis bit_iff_odd bit_unsigned_iff possible_bit_nat)

lemma bsr_instr_eq:
  assumes "2 ^ k \<le> unat x" "unat x < 2 ^ Suc k" "k < 64"
  shows "bsr_instr x = of_nat k"
proof -
  have "unat x div 2 ^ k = 1" using assms(1,2) by (intro div_nat_eqI) auto
  then have "bit x k" by (simp add: bit_u64_nat)
  moreover have "\<not> bit x j" if "k < j" for j
  proof -
    have "(2 :: nat) ^ Suc k \<le> 2 ^ j" using that by (intro power_increasing) auto
    then show ?thesis using assms(2) by (simp add: bit_u64_nat)
  qed
  ultimately have "filter (bit x) [0..<64] = filter (bit x) [0..<k] @ [k]"
  proof -
    assume b: "bit x k" "\<And>j. k < j \<Longrightarrow> \<not> bit x j"
    have "[0..<64] = [0..<k] @ k # [Suc k..<64]"
      using assms(3) by (intro upt_split_at) auto
    moreover have "filter (bit x) [Suc k..<64] = []" using b(2) by (simp add: filter_empty_conv)
    ultimately show ?thesis using b(1) by simp
  qed
  then show ?thesis by (simp add: bsr_instr_def)
qed

lemma bsf_instr_lowest:
  assumes "x \<noteq> 0"
  shows "\<exists>k<64. bsf_instr x = of_nat k \<and> bit x k \<and> (\<forall>j<k. \<not> bit x j)"
proof -
  obtain i where i: "bit x i" using assms by (auto simp: bit_eq_iff)
  define k where "k = (LEAST i. bit x i)"
  have k: "bit x k" "\<And>j. j < k \<Longrightarrow> \<not> bit x j"
    unfolding k_def using LeastI [of "bit x", OF i] not_less_Least by auto
  then have lt: "k < 64" using bit_imp_le_length [of x k] by simp
  have "[0..<64] = [0..<k] @ k # [Suc k..<64]"
    using lt by (intro upt_split_at) auto
  moreover have "filter (bit x) [0..<k] = []" using k(2) by (simp add: filter_empty_conv)
  ultimately have "hd (filter (bit x) [0..<64]) = k" using k(1) by simp
  with k lt show ?thesis unfolding bsf_instr_def by blast
qed

lemma scan_result: "k < 64 \<Longrightarrow> (of_nat k :: u64) \<noteq> - 1"
proof -
  assume "k < 64"
  moreover from this have "unat (of_nat k :: u64) = k" by (simp add: unat_of_nat take_bit_nat_eq_self)
  ultimately show ?thesis by (auto simp: unsigned_minus_1_eq_mask mask_eq_exp_minus_1)
qed

section \<open>Slots\<close>

definition slot_free :: "mem \<Rightarrow> ptr \<Rightarrow> nat \<Rightarrow> bool" where
  "slot_free m slab i \<longleftrightarrow> bit (read64 m (slab_Bitmap slab (of_nat (i div 64)))) (i mod 64)"

lemma bitmap_words_apart:
  assumes "b < 4" "c < 4" "b \<noteq> c"
  shows "apart64 (slab_Bitmap slab (of_nat b)) (slab_Bitmap slab (of_nat c))"
proof -
  have eq: "slab_Bitmap slab (of_nat x) = slab + of_nat (32 + 8 * x)" for x
    by (simp add: slab_Bitmap_def)
  show ?thesis
  proof (cases "b < c")
    case True
    then show ?thesis unfolding eq using assms by (intro apart64_offsets) auto
  next
    case False
    then have "apart64 (slab + of_nat (32 + 8 * c)) (slab + of_nat (32 + 8 * b))"
      using assms by (intro apart64_offsets) auto
    then show ?thesis unfolding eq by (simp add: apart64_sym)
  qed
qed

lemma unat_offset: "unat (SLABObjectOffset object) = unat object mod 4096"
proof -
  have "SLABObjectOffset object = take_bit 12 object"
    by (simp add: SLABObjectOffset_def slab_consts arch_consts take_bit_eq_mask mask_eq_exp_minus_1)
  then show ?thesis by (simp add: take_bit_eq_mod unat_mod)
qed

lemma bit_slots_mask:
  assumes "slot + slots \<le> 64"
  shows "bit (push_bit slot (push_bit slots 1 - 1) :: u64) n \<longleftrightarrow> slot \<le> n \<and> n < slot + slots"
proof -
  have "push_bit slots 1 - 1 = (mask slots :: u64)" by (simp add: mask_eq_exp_minus_1)
  then show ?thesis using assms by (auto simp: bit_push_bit_iff bit_mask_iff possible_bit_word)
qed

lemma pow_min_alloc: "4 \<le> k \<Longrightarrow> (2 :: nat) ^ k = 16 * 2 ^ (k - 4)"
  by (auto simp: power_add dest!: le_Suc_ex)

text \<open>An object whose size is a power of two and divides its offset stays within one bitmap word.\<close>

lemma slots_in_word:
  assumes "2 ^ k dvd o'" "4 \<le> k" "k \<le> (10 :: nat)"
  shows "o' div 16 mod 64 + 2 ^ (k - 4) \<le> (64 :: nat)"
proof -
  define d :: nat where "d = 2 ^ (k - 4)"
  have k: "2 ^ k = 16 * d" unfolding d_def by (rule pow_min_alloc [OF assms(2)])
  then have "d dvd o' div 16" using assms(1) by (auto simp: dvd_def)
  moreover have d64: "d dvd 64"
    using assms(3) le_imp_power_dvd [of "k - 4" 6 "2 :: nat"] by (simp add: d_def)
  ultimately have "d dvd o' div 16 mod 64" by (simp add: dvd_mod)
  then have "d dvd 64 - o' div 16 mod 64" using d64 by (simp add: dvd_diff_nat)
  then have "d \<le> 64 - o' div 16 mod 64" by (rule dvd_imp_le) simp
  then show ?thesis unfolding d_def by simp
qed

definition word_op :: "bool \<Rightarrow> mem \<Rightarrow> ptr \<Rightarrow> u64 \<Rightarrow> mem" where
  "word_op free m p mask' = (if free then AtomicOr64 m p mask' else AtomicAnd64 m p (NOT mask'))"

lemma word_op_bits:
  "bit (read64 (word_op free m p mask') p) n \<longleftrightarrow> (if bit mask' n then free else bit (read64 m p) n)"
  using bit_imp_le_length [of mask' n] bit_imp_le_length [of "read64 m p" n]
  by (auto simp: word_op_def AtomicOr64_def AtomicAnd64_def read64_write64 bit_simps)

lemma word_op_apart: "apart64 q p \<Longrightarrow> read64 (word_op free m p mask') q = read64 m q"
  by (simp add: word_op_def AtomicOr64_def AtomicAnd64_def read64_write64_apart)

text \<open>The slots of an object of \<open>n\<close> slots from \<open>s\<close> lie in one word of the bitmap.\<close>

lemma word_op_slots:
  assumes fit: "s mod 64 + n \<le> 64" and s: "s < 256" and i: "i < 256"
    and m': "m' = word_op free m (slab_Bitmap slab (of_nat (s div 64))) (push_bit (s mod 64) (push_bit n 1 - 1))"
  shows "slot_free m' slab i \<longleftrightarrow> (if s \<le> i \<and> i < s + n then free else slot_free m slab i)"
proof (cases "i div 64 = s div 64")
  case True
  then have "i = 64 * (s div 64) + i mod 64" "s = 64 * (s div 64) + s mod 64"
    using div_mult_mod_eq [of i 64] div_mult_mod_eq [of s 64] by linarith+
  then have "s \<le> i \<and> i < s + n \<longleftrightarrow> bit (push_bit (s mod 64) (push_bit n 1 - 1) :: u64) (i mod 64)"
    unfolding bit_slots_mask [OF fit] by linarith
  then show ?thesis using True by (simp add: slot_free_def m' word_op_bits)
next
  case False
  have "i div 64 < 4" "s div 64 < 4" using i s by auto
  then have "slot_free m' slab i = slot_free m slab i"
    using bitmap_words_apart [of "i div 64" "s div 64" slab] False by (simp add: slot_free_def m' word_op_apart)
  moreover have "\<not> (s \<le> i \<and> i < s + n)"
  proof
    assume "s \<le> i \<and> i < s + n"
    then have "64 * (s div 64) \<le> i" "i < 64 * (s div 64) + 64" using fit div_mult_mod_eq [of s 64] by linarith+
    then have "i div 64 = s div 64" by (intro div_nat_eqI) auto
    with False show False by simp
  qed
  ultimately show ?thesis by (simp only: if_False)
qed

lemma SLABSet_run:
  assumes slab: "slab = SLABObject object" and o: "o' = unat object mod 4096"
    and size: "min o' (unat (slab_ElementLength m slab)) = 2 ^ k" and k: "4 \<le> k" "k \<le> 9"
  shows "SLABSet m object free = Some (word_op free m (slab_Bitmap slab (of_nat (o' div 16 div 64)))
      (push_bit (o' div 16 mod 64) (push_bit (2 ^ (k - 4)) 1 - 1)))"
proof -
  define off where "off = SLABObjectOffset object"
  have off: "unat off = o'" by (simp add: off_def unat_offset o)
  have o4096: "o' < 4096" by (simp add: o)
  define sz where "sz = min_macro off (slab_ElementLength m slab)"
  have sz: "unat sz = 2 ^ k"
    using size off by (auto simp: sz_def min_macro_def word_less_nat_alt min_def split: if_splits)
  have slots: "unat (sz div SLABS_MIN_ALLOC) = 2 ^ (k - 4)"
    using sz pow_min_alloc [OF k(1)] by (simp add: unat_div slab_consts)
  have slot: "unat (off div SLABS_MIN_ALLOC mod (8 * 8)) = o' div 16 mod 64"
    and base: "off div SLABS_MIN_ALLOC div (8 * 8) = of_nat (o' div 16 div 64)"
    using off o4096 by (simp_all add: unat_div unat_mod slab_consts word_unat_eq_iff unat_of_nat take_bit_nat_eq_self)
  have "(2 :: nat) ^ (k - 4) \<le> 2 ^ 5" using k by (intro power_increasing) auto
  then have "\<not> sz div SLABS_MIN_ALLOC \<ge> 64" using slots by (simp add: word_le_nat_alt)
  then show ?thesis
    unfolding SLABSet_def Let_def slab [symmetric] off_def [symmetric] sz_def [symmetric] slots slot base
    by (simp add: word_op_def)
qed

lemma SLABSet_slots:
  assumes slab: "slab = SLABObject object" and o: "o' = unat object mod 4096"
    and size: "min o' (unat (slab_ElementLength m slab)) = 2 ^ k" and k: "4 \<le> k" "k \<le> 9" and al: "2 ^ k dvd o'"
  shows "\<exists>m'. SLABSet m object free = Some m' \<and> (\<forall>i<256. slot_free m' slab i \<longleftrightarrow>
    (if o' div 16 \<le> i \<and> i < o' div 16 + 2 ^ (k - 4) then free else slot_free m slab i))"
proof -
  have fit: "o' div 16 mod 64 + 2 ^ (k - 4) \<le> 64" using k by (intro slots_in_word [OF al]) auto
  have "o' div 16 < 256" by (simp add: o)
  with SLABSet_run [OF slab o size k, of free] word_op_slots [OF fit _ _ refl, of _ free m slab]
  show ?thesis by blast
qed

text \<open>The bitmap operations leave the element length alone.\<close>

lemma SLABSet_ElementLength:
  assumes "slab = SLABObject object" "o' = unat object mod 4096"
    and "min o' (unat (slab_ElementLength m slab)) = 2 ^ k" "4 \<le> k" "k \<le> 9" "SLABSet m object free = Some m'"
  shows "slab_ElementLength m' slab = slab_ElementLength m slab"
proof -
  define b :: u64 where "b = 32 + 8 * of_nat (o' div 16 div 64)"
  have "o' div 16 div 64 < 4" using assms(2) by simp
  then have b: "unat b = 32 + 8 * (o' div 16 div 64)" "unat b < 64"
    by (simp_all add: b_def unat_word_ariths unat_of_nat take_bit_nat_eq_self)
  have "m' = word_op free m (slab + b) (push_bit (o' div 16 mod 64) (push_bit (2 ^ (k - 4)) 1 - 1))"
    using SLABSet_run [OF assms(1-5), of free] assms(6) by (simp add: slab_Bitmap_def b_def add.assoc)
  moreover have "slab + 24 \<notin> word_bytes (slab + b)" "slab + 25 \<notin> word_bytes (slab + b)"
    using b by (simp_all add: byte_before_word)
  ultimately have "m' (slab + 24) = m (slab + 24)" "m' (slab + 25) = m (slab + 25)"
    by (simp_all add: word_op_def AtomicOr64_def AtomicAnd64_def write64_notin)
  then show ?thesis by (simp add: slab_ElementLength_def read16_bytes add.assoc)
qed

section \<open>The first free slot\<close>

lemma find_append: "find P (xs @ ys) = (case find P xs of None \<Rightarrow> find P ys | Some x \<Rightarrow> Some x)"
  by (induction xs) auto

lemma find_upt_first:
  assumes "i \<le> k" "k < j" "P k" "\<And>l. i \<le> l \<Longrightarrow> l < k \<Longrightarrow> \<not> P l"
  shows "find P [i..<j] = Some k"
proof -
  have "find P [i..<k] = None" using assms(4) by (auto simp: find_None_iff)
  then show ?thesis using upt_split_at [OF assms(1,2)] assms(3) by (simp add: find_append)
qed

lemma find_upt_skip:
  assumes "i \<le> k" "k \<le> j" "\<And>l. i \<le> l \<Longrightarrow> l < k \<Longrightarrow> \<not> P l"
  shows "find P [i..<j] = find P [k..<j]"
proof -
  have "[i..<j] = [i..<k] @ [k..<j]" using assms(1,2) by (metis le_add_diff_inverse upt_add_eq_append)
  moreover have "find P [i..<k] = None" using assms(3) by (auto simp: find_None_iff)
  ultimately show ?thesis by (simp add: find_append)
qed

definition first_address :: "ptr \<Rightarrow> u64 \<times> u64 \<Rightarrow> ptr" where
  "first_address slab r = (case r of (slot, base) \<Rightarrow>
     if slot = - 1 then NULL else slab + (slot + 8 * 8 * base) * SLABS_MIN_ALLOC)"

lemma slot_free_word: "j < 64 \<Longrightarrow> slot_free m slab (64 * b + j) \<longleftrightarrow> bit (read64 m (slab_Bitmap slab (of_nat b))) j"
  by (simp add: slot_free_def)

lemma SLABFirst_loop_find:
  assumes "b + k = 4" "k = 0 \<Longrightarrow> slot0 = - 1"
  shows "first_address slab (SLABFirst_loop Same_Register m slab b k slot0) =
    (case find (slot_free m slab) [64 * b..<256] of None \<Rightarrow> NULL | Some i \<Rightarrow> slab + of_nat (16 * i))"
  using assms
proof (induction k arbitrary: b slot0)
  case 0
  then show ?case by (simp add: first_address_def)
next
  case (Suc k)
  define x where "x = read64 m (slab_Bitmap slab (of_nat b))"
  show ?case
  proof (cases "x = 0")
    case True
    have none: "\<not> slot_free m slab l" if "64 * b \<le> l" "l < 64 * Suc b" for l
    proof -
      have "l = 64 * b + (l - 64 * b)" "l - 64 * b < 64" using that by auto
      then show ?thesis using slot_free_word [of "l - 64 * b" m slab b] True by (simp add: x_def)
    qed
    have "64 * b \<le> 64 * Suc b" "64 * Suc b \<le> 256" using Suc.prems(1) by auto
    note find_upt_skip [of "64 * b" "64 * Suc b" 256 "slot_free m slab", OF this none]
    with True Suc.IH [of "Suc b" "- 1"] Suc.prems(1) show ?thesis
      by (simp add: x_def BSF_def)
  next
    case False
    then obtain j where j: "j < 64" "bsf_instr x = of_nat j" "bit x j" "\<forall>l<j. \<not> bit x l"
      using bsf_instr_lowest by blast
    note ne = scan_result [OF j(1)]
    have "find (slot_free m slab) [64 * b..<256] = Some (64 * b + j)"
    proof (rule find_upt_first)
      fix l assume "64 * b \<le> l" "l < 64 * b + j"
      then have "l = 64 * b + (l - 64 * b)" "l - 64 * b < j" by auto
      then show "\<not> slot_free m slab l" using slot_free_word [of "l - 64 * b" m slab b] j(1,4) by (simp add: x_def)
    qed (use j Suc.prems(1) slot_free_word in \<open>auto simp: x_def\<close>)
    with False ne j(2) show ?thesis
      by (simp add: x_def [symmetric] BSF_def first_address_def slab_consts algebra_simps)
  qed
qed

lemma SLABFirst_find:
  "SLABFirst Same_Register m slab slot0 =
    (case find (slot_free m slab) [0..<256] of None \<Rightarrow> NULL | Some i \<Rightarrow> slab + of_nat (16 * i))"
proof -
  have "unat SLABS_BITMAP_COUNT = 4" by (simp add: slab_consts arch_consts)
  then have "SLABFirst Same_Register m slab slot0 = first_address slab (SLABFirst_loop Same_Register m slab 0 4 slot0)"
    by (simp add: SLABFirst_def first_address_def)
  then show ?thesis using SLABFirst_loop_find [of 0 4 slot0 slab m] by simp
qed

text \<open>The block of slot \<open>i\<close> of a page, and a search that does not return it.\<close>

lemma page_split:
  assumes "(p :: u64) mod 4096 = 0" "x < 4096"
  shows "(p + x) AND NOT (mask 12) = p" "(p + x) AND mask 12 = x"
proof -
  have p: "take_bit 12 p = 0" and x: "take_bit 12 x = x"
    using assms by (simp_all add: take_bit_eq_mod word_mod_less_divisor word_unat_eq_iff unat_mod word_less_nat_alt)
  have pb: "\<not> bit p n" if "n < 12" for n using arg_cong [OF p, of "\<lambda>w. bit w n"] that by (simp add: bit_take_bit_iff)
  have xb: "\<not> bit x n" if "\<not> n < 12" for n using arg_cong [OF x, of "\<lambda>w. bit w n"] that by (simp add: bit_take_bit_iff)
  have "p AND x = 0" using pb xb by (intro bit_eqI) (auto simp: bit_and_iff)
  then have s: "p + x = p OR x" by (rule disjunctive_add_eq_or)
  show "(p + x) AND NOT (mask 12) = p"
  proof (rule bit_eqI)
    fix n assume "possible_bit TYPE(64 word) n"
    then show "bit ((p + x) AND NOT (mask 12)) n \<longleftrightarrow> bit p n"
      using pb [of n] xb [of n] unfolding s bit_and_iff bit_or_iff bit_not_iff bit_mask_iff by blast
  qed
  show "(p + x) AND mask 12 = x"
  proof (rule bit_eqI)
    fix n assume "possible_bit TYPE(64 word) n"
    then show "bit ((p + x) AND mask 12) n \<longleftrightarrow> bit x n"
      using pb [of n] xb [of n] unfolding s bit_and_iff bit_or_iff bit_mask_iff by blast
  qed
qed

lemma slab_block:
  assumes "slab mod 4096 = 0" "i < 256"
  shows "slab = SLABObject (slab + of_nat (16 * i))" "16 * i = unat (slab + of_nat (16 * i)) mod 4096"
proof -
  have x: "of_nat (16 * i) < (4096 :: u64)" "unat (of_nat (16 * i) :: u64) = 16 * i"
    using assms(2) by (simp_all add: word_less_nat_alt unat_of_nat take_bit_nat_eq_self del: of_nat_mult)
  note s = page_split [OF assms(1) x(1)]
  show "slab = SLABObject (slab + of_nat (16 * i))"
    using s(1) by (simp add: SLABObject_def slab_consts arch_consts mask_eq_exp_minus_1)
  have "unat (slab + of_nat (16 * i)) mod 4096 = unat (SLABObjectOffset (slab + of_nat (16 * i)))" by (simp add: unat_offset)
  also have "\<dots> = 16 * i"
    using s(2) x(2) by (simp add: SLABObjectOffset_def slab_consts arch_consts mask_eq_exp_minus_1)
  finally show "16 * i = unat (slab + of_nat (16 * i)) mod 4096" by simp
qed

lemma SLABFirst_not:
  assumes "\<not> slot_free m slab i" "i < 256" "0 < i" "slab mod 4096 = 0"
  shows "SLABFirst Same_Register m slab slot0 \<noteq> slab + of_nat (16 * i)"
proof (cases "find (slot_free m slab) [0..<256]")
  case None
  have "0 < unat (slab + of_nat (16 * i)) mod 4096" unfolding slab_block(2) [OF assms(4,2), symmetric] using assms(3) by simp
  then have "slab + of_nat (16 * i) \<noteq> 0" by (metis mod_0 less_irrefl unsigned_0)
  with None show ?thesis by (simp add: SLABFirst_find)
next
  case (Some j)
  then have j: "slot_free m slab j" "j < 256" by (auto simp: find_Some_iff)
  have "of_nat (16 * j) \<noteq> (of_nat (16 * i) :: u64)"
  proof
    assume "of_nat (16 * j) = (of_nat (16 * i) :: u64)"
    then have "unat (of_nat (16 * j) :: u64) = unat (of_nat (16 * i) :: u64)" by simp
    then show False
      using j assms(1,2) by (cases "i = j") (auto simp: unat_of_nat take_bit_nat_eq_self simp del: of_nat_mult)
  qed
  with Some show ?thesis by (simp add: SLABFirst_find del: of_nat_mult)
qed

section \<open>Orders\<close>

lemma BSR_min_alloc: "BSR Same_Register SLABS_MIN_ALLOC = 4"
  using bsr_instr_eq [of 4 16] by (simp add: BSR_def slab_consts)

lemma log_bounds:
  assumes "0 < (x :: nat)"
  obtains k where "2 ^ k \<le> x" "x < 2 ^ Suc k"
proof -
  define k where "k = (LEAST k. x < 2 ^ Suc k)"
  have ex: "x < 2 ^ Suc x" by (metis less_SucI less_exp lessI order_less_trans power_strict_increasing_iff one_less_numeral_iff semiring_norm(76))
  then have hi: "x < 2 ^ Suc k" unfolding k_def by (rule LeastI)
  have "2 ^ k \<le> x"
  proof (cases k)
    case 0
    then show ?thesis using assms by simp
  next
    case (Suc j)
    then have "\<not> x < 2 ^ Suc j" unfolding k_def using not_less_Least [of j "\<lambda>k. x < 2 ^ Suc k"] k_def by auto
    then show ?thesis using Suc by simp
  qed
  with hi that show ?thesis by blast
qed

lemma SLABSizeToOrder_eq:
  assumes "2 ^ k \<le> unat (s - 1)" "unat (s - 1) < 2 ^ Suc k" "k < 64"
  shows "SLABSizeToOrder Same_Register s = of_nat (Suc k) - 4"
proof -
  have "(0 :: nat) < 2 ^ k" by simp
  then have "s - 1 \<noteq> 0" using assms(1) by (metis less_le_trans less_nat_zero_code unat_0)
  then have "BSR Same_Register (s - 1) = of_nat k" using bsr_instr_eq [OF assms] by (simp add: BSR_def)
  then show ?thesis by (simp add: SLABSizeToOrder_def BSR_min_alloc)
qed

lemma unat_minus_one_u64: "1 \<le> unat s \<Longrightarrow> unat (s - 1 :: u64) = unat s - 1"
  by (rule unat_minus_one) auto

lemma SLABSizeToOrder_range:
  assumes "9 \<le> unat s" "unat s \<le> 512"
  shows "\<exists>k<6. SLABSizeToOrder Same_Register s = of_nat k \<and> unat s \<le> 16 * 2 ^ k \<and> (k = 0 \<or> 16 * 2 ^ (k - 1) < unat s)"
proof -
  have u: "unat (s - 1) = unat s - 1" using assms(1) by (intro unat_minus_one_u64) simp
  obtain k where k: "2 ^ k \<le> unat s - 1" "unat s - 1 < 2 ^ Suc k"
    using log_bounds [of "unat s - 1"] assms(1) by auto
  have lo: "(2 :: nat) ^ k < 2 ^ 9" and hi: "(2 :: nat) ^ 3 < 2 ^ Suc k" using k assms by auto
  have "k < 9" by (rule power_less_imp_less_exp [OF _ lo]) simp
  moreover have "3 < Suc k" by (rule power_less_imp_less_exp [OF _ hi]) simp
  ultimately have k9: "k < 9" "3 < Suc k" .
  then obtain j where j: "k = j + 3" using le_Suc_ex [of 3 k] by (auto simp: add.commute)
  have "SLABSizeToOrder Same_Register s = of_nat (Suc k) - 4"
    using k k9(1) by (intro SLABSizeToOrder_eq) (simp_all add: u)
  then have "SLABSizeToOrder Same_Register s = of_nat j" by (simp add: j)
  moreover have "unat s \<le> 16 * 2 ^ j" "j = 0 \<or> 16 * 2 ^ (j - 1) < unat s"
    using k assms(1) by (cases j; auto simp: j power_add)+
  ultimately show ?thesis using k9 j by auto
qed

section \<open>Residual blocks\<close>

lemma bsf_instr_power: "k < 64 \<Longrightarrow> bsf_instr (2 ^ k) = of_nat k"
  using bsf_instr_lowest [of "2 ^ k"] by (auto simp: bit_exp_iff possible_bit_word)

text \<open>The offsets the loop of \<open>SLABTryReturnPage\<close> visits for an element length of 2^(6 + n).\<close>

definition residual_removals :: "reg_alloc \<Rightarrow> (mem \<Rightarrow> mem) \<Rightarrow> (mem \<Rightarrow> mem) \<Rightarrow> mem \<Rightarrow> ptr \<Rightarrow> ptr \<Rightarrow> nat list \<Rightarrow> mem" where
  "residual_removals ra lk ul m slub slab is =
     foldl (\<lambda>m i. SLABListRemove ra lk ul m slub (slab + of_nat (64 * 2 ^ i))) m is"

lemma SLABTryReturnPage_loop_power:
  assumes "k \<le> n"
    and "\<And>j. k \<le> j \<Longrightarrow> j \<le> n \<Longrightarrow>
      unat (slab_ElementLength (residual_removals ra lk ul m slub slab [k..<j]) slab) = 2 ^ (6 + n)"
  shows "SLABTryReturnPage_loop ra lk ul m slub slab k = residual_removals ra lk ul m slub slab [k..<n]"
  using assms
proof (induction "n - k" arbitrary: k m)
  case 0
  then show ?case
    using 0(3) [of k] by (subst SLABTryReturnPage_loop.simps) (simp add: residual_removals_def power_add)
next
  case (Suc d)
  then have kn: "k < n" by simp
  then have "(2 :: nat) ^ k < 2 ^ n" by (intro power_strict_increasing) auto
  moreover have "unat (slab_ElementLength m slab) = 2 ^ (6 + n)"
    using Suc.prems(2) [of k] kn by (simp add: residual_removals_def)
  ultimately have "64 * 2 ^ k < unat (slab_ElementLength m slab)" by (simp add: power_add)
  moreover have cons: "[k..<j] = k # [Suc k..<j]" if "k < j" for j using that by (rule upt_conv_Cons)
  let ?m = "SLABListRemove ra lk ul m slub (slab + of_nat (64 * 2 ^ k))"
  have "SLABTryReturnPage_loop ra lk ul ?m slub slab (Suc k) = residual_removals ra lk ul ?m slub slab [Suc k..<n]"
  proof (rule Suc.hyps(1))
    show "unat (slab_ElementLength (residual_removals ra lk ul ?m slub slab [Suc k..<j]) slab) = 2 ^ (6 + n)"
      if "Suc k \<le> j" "j \<le> n" for j
      using Suc.prems(2) [of j] that cons [of j] by (simp add: residual_removals_def)
  qed (use Suc.hyps(2) kn in auto)
  ultimately show ?case
    by (subst SLABTryReturnPage_loop.simps) (simp add: residual_removals_def cons [OF kn])
qed

text \<open>
  An example memory: an object in a slab at 0x2000 with elements of 16 bytes, successor 0x3000 and
  predecessor \<open>p\<close> * 256, and a SLUB at 0x9000 whose list of order 0 starts with it.
\<close>

definition ex_slab :: "u8 \<Rightarrow> mem" where
  "ex_slab p = (\<lambda>_. 0)(0x2001 := 0x30, 0x2009 := p, 0x2018 := 16, 0x9001 := 0x20)"

lemma ex_slab_order: "SLABObjectOrder Same_Register (ex_slab p) 0x2000 = 0"
proof -
  have "slab_ElementLength (ex_slab p) (SLABObject 0x2000) = 16"
    by (simp add: SLABObject_def slab_consts arch_consts slab_ElementLength_def read16_bytes ex_slab_def)
  then show ?thesis using SLABSizeToOrder_eq [of 3 16] by (simp add: SLABObjectOrder_def)
qed

section \<open>Properties\<close>

text \<open>
  C23: \<open>SLABSet\<close> marks exactly the slots of an object. For an object whose size (the smaller of its
  offset and the element length) is a power of two from 16 to 512 that divides its offset, the call
  is defined, and of the 256 slots of the page those of the object become free or taken as asked
  while all others keep their state.
\<close>

theorem SLABSet_correct:
  assumes "slab = SLABObject object" and "o' = unat object mod 4096"
    and "min o' (unat (slab_ElementLength m slab)) = 2 ^ k" and "4 \<le> k" and "k \<le> 9" and "2 ^ k dvd o'"
  shows "\<exists>m'. SLABSet m object free = Some m' \<and> (\<forall>i<256. slot_free m' slab i \<longleftrightarrow>
    (if o' div 16 \<le> i \<and> i < o' div 16 + 2 ^ (k - 4) then free else slot_free m slab i))"
  by (rule SLABSet_slots [OF assms])

theorem SLABSet_correct_witness:
  "\<exists>m'. SLABSet ((\<lambda>_. 0)(0x1018 := 64)) 0x1080 True = Some m' \<and> slot_free m' 0x1000 11 \<and> \<not> slot_free m' 0x1000 12"
proof -
  have a: "0x1000 = SLABObject 0x1080" by (simp add: SLABObject_def slab_consts arch_consts)
  have b: "(128 :: nat) = unat (0x1080 :: ptr) mod 4096" by simp
  have "slab_ElementLength ((\<lambda>_. 0)(0x1018 := 64)) 0x1000 = 64"
    by (simp add: slab_ElementLength_def read16_bytes)
  then have c: "min 128 (unat (slab_ElementLength ((\<lambda>_. 0)(0x1018 := 64)) 0x1000)) = 2 ^ 6" by simp
  from SLABSet_correct [OF a b c, of True] obtain m' where "SLABSet ((\<lambda>_. 0)(0x1018 := 64)) 0x1080 True = Some m'"
    and "\<forall>i<256. slot_free m' 0x1000 i \<longleftrightarrow>
      (if 128 div 16 \<le> i \<and> i < 128 div 16 + 2 ^ (6 - 4) then True else slot_free ((\<lambda>_. 0)(0x1018 := 64)) 0x1000 i)"
    by auto
  moreover have "\<not> slot_free ((\<lambda>_. 0)(0x1018 := 64)) 0x1000 12"
    by (simp add: slot_free_def slab_Bitmap_def read64_halves read32_bytes)
  ultimately show ?thesis by auto
qed

text \<open>
  When the bit scan works (both operands in one register), \<open>SLABFirst\<close> returns the address of the
  first free slot of the page, and NULL iff no slot is free.
\<close>

theorem SLABFirst_correct:
  "SLABFirst Same_Register m slab slot0 =
    (case find (slot_free m slab) [0..<256] of None \<Rightarrow> NULL | Some i \<Rightarrow> slab + of_nat (16 * i))"
  by (rule SLABFirst_find)

text \<open>
  Taking the first free block and returning it. Let the first free slot of a page start a block of
  the element length behind the header whose slots are all free. \<open>SLABFirst\<close> gives that block;
  marking it as taken with \<open>SLABSet\<close> takes its slots only, so that the next search does not give it
  again; marking it as free restores the state of every slot.
\<close>

theorem SLAB_take_return:
  assumes "slab mod 4096 = 0" and "unat (slab_ElementLength m slab) = 2 ^ k" "4 \<le> k" "k \<le> 9"
    and "find (slot_free m slab) [0..<256] = Some i" "2 ^ (k - 4) dvd i" "0 < i"
    and "\<forall>j. i \<le> j \<and> j < i + 2 ^ (k - 4) \<longrightarrow> slot_free m slab j"
    and "obj = SLABFirst Same_Register m slab slot0"
  shows "\<exists>m1 m2. SLABSet m obj False = Some m1 \<and> SLABFirst Same_Register m1 slab slot1 \<noteq> obj \<and>
    (\<forall>j<256. slot_free m1 slab j \<longleftrightarrow> slot_free m slab j \<and> \<not> (i \<le> j \<and> j < i + 2 ^ (k - 4))) \<and>
    SLABSet m1 obj True = Some m2 \<and> (\<forall>j<256. slot_free m2 slab j = slot_free m slab j)"
proof -
  have i: "i < 256" using assms(5) by (auto simp: find_Some_iff)
  have obj: "obj = slab + of_nat (16 * i)" using assms(5,9) SLABFirst_find [of m slab slot0] by simp
  note at = slab_block [OF assms(1) i, folded obj]
  have p2: "(2 :: nat) ^ k = 16 * 2 ^ (k - 4)" by (rule pow_min_alloc [OF assms(3)])
  have "2 ^ (k - 4) \<le> i" using assms(6,7) by (rule dvd_imp_le)
  then have size: "min (16 * i) (unat (slab_ElementLength m slab)) = 2 ^ k" using assms(2) p2 by simp
  have al: "2 ^ k dvd 16 * i" unfolding p2 using assms(6) by (simp add: mult_dvd_mono)
  obtain m1 where m1: "SLABSet m obj False = Some m1"
    "\<forall>j<256. slot_free m1 slab j \<longleftrightarrow> (if 16 * i div 16 \<le> j \<and> j < 16 * i div 16 + 2 ^ (k - 4) then False else slot_free m slab j)"
    using SLABSet_slots [OF at size assms(3,4) al, of False] by blast
  have "min (16 * i) (unat (slab_ElementLength m1 slab)) = 2 ^ k"
    using SLABSet_ElementLength [OF at size assms(3,4) m1(1)] size by simp
  then obtain m2 where m2: "SLABSet m1 obj True = Some m2"
    "\<forall>j<256. slot_free m2 slab j \<longleftrightarrow> (if 16 * i div 16 \<le> j \<and> j < 16 * i div 16 + 2 ^ (k - 4) then True else slot_free m1 slab j)"
    using SLABSet_slots [OF at _ assms(3,4) al, of m1 True] by blast
  have "SLABFirst Same_Register m1 slab slot1 \<noteq> obj"
    using m1(2) SLABFirst_not [of m1 slab i slot1] i assms(1,7) obj by simp
  with m1 m2 assms(8) show ?thesis by auto
qed

theorem SLAB_take_return_witness:
  "\<exists>m1 m2. SLABSet ((\<lambda>_. 0)(0x1018 := 16, 0x1020 := 0xF0)) 0x1040 False = Some m1 \<and>
    SLABFirst Same_Register m1 0x1000 0 \<noteq> 0x1040 \<and> SLABSet m1 0x1040 True = Some m2"
proof -
  let ?m = "(\<lambda>_. 0)(0x1018 := 16, 0x1020 := 0xF0) :: mem"
  have w: "read64 ?m 0x1020 = 0xF0" by (simp add: read64_halves read32_bytes)
  have f: "slot_free ?m 0x1000 j \<longleftrightarrow> bit (0xF0 :: u64) j" if "j < 64" for j
    using that by (simp add: slot_free_def slab_Bitmap_def w)
  have find: "find (slot_free ?m 0x1000) [0..<256] = Some 4"
  proof -
    have "\<not> slot_free ?m 0x1000 j" if "j < 4" for j
    proof -
      have "j = 0 \<or> j = 1 \<or> j = 2 \<or> j = 3" using that by auto
      then show ?thesis using f by (elim disjE) simp_all
    qed
    moreover have "slot_free ?m 0x1000 4" by (simp add: f)
    ultimately show ?thesis by (auto simp: find_Some_iff intro!: exI [of _ 4])
  qed
  have el: "unat (slab_ElementLength ?m 0x1000) = 2 ^ 4" by (simp add: slab_ElementLength_def read16_bytes)
  have obj: "0x1040 = SLABFirst Same_Register ?m 0x1000 0" using find SLABFirst_find [of ?m "0x1000" 0] by simp
  have "\<forall>j. 4 \<le> j \<and> j < 4 + 2 ^ (4 - 4) \<longrightarrow> slot_free ?m 0x1000 j"
  proof (intro allI impI)
    fix j :: nat assume "4 \<le> j \<and> j < 4 + 2 ^ (4 - 4)"
    then have "j = 4" by simp
    then show "slot_free ?m 0x1000 j" by (simp add: f)
  qed
  from SLAB_take_return [OF _ el _ _ find _ _ this obj, of 0] show ?thesis by auto
qed

text \<open>
  The operands of the bit scans are swapped for the assembler's operand order: when the compiler uses two
  registers, \<open>SLABFirst\<close> of a slab with a free slot in its first word returns an address that depends only
  on what the output register held.
\<close>

theorem SLABFirst_swapped_operands:
  assumes "read64 m (slab_Bitmap slab 0) \<noteq> 0" and "junk \<noteq> - 1"
  shows "SLABFirst (Distinct_Registers junk) m slab slot0 = slab + junk * 16"
proof -
  have e: "unat SLABS_BITMAP_COUNT = Suc 3" by (simp add: slab_consts arch_consts)
  show ?thesis unfolding SLABFirst_def e SLABFirst_loop.simps(2) using assms by (simp add: BSF_def SLABS_MIN_ALLOC_def)
qed

theorem SLABFirst_swapped_operands_witness: "SLABFirst (Distinct_Registers 7) (\<lambda>_. 1) 0x1000 0 = 0x1070"
  using SLABFirst_swapped_operands [of "\<lambda>_. 1" "0x1000" 7 0] by (simp add: read64_halves read32_bytes)

text \<open>
  C32: \<open>SLABSizeToOrder\<close> of a size from 9 to 512 is the smallest of the six orders whose blocks of
  16 \<open>*\<close> 2^order bytes hold it, if the compiler assigns one register to both operands of the bit scan
  (\<open>Same_Register\<close>). With two, \<open>BSR\<close> returns what a register held before, and the result says nothing about
  the size (\<open>SLABSizeToOrder_swapped_operands\<close>).
\<close>

theorem SLABSizeToOrder_correct:
  assumes "ra = Same_Register" and "9 \<le> unat s" and "unat s \<le> 512"
  shows "SLABSizeToOrder ra s < SLABS_TOT_ORDERS \<and> unat s \<le> 16 * 2 ^ unat (SLABSizeToOrder ra s) \<and>
    (\<forall>k. unat s \<le> 16 * 2 ^ k \<longrightarrow> unat (SLABSizeToOrder ra s) \<le> k)"
proof -
  obtain k where k: "k < 6" "SLABSizeToOrder Same_Register s = of_nat k" "unat s \<le> 16 * 2 ^ k"
      "k = 0 \<or> 16 * 2 ^ (k - 1) < unat s"
    using SLABSizeToOrder_range [OF assms(2,3)] by blast
  have u: "unat (of_nat k :: u64) = k" using k(1) by (simp add: unat_of_nat take_bit_nat_eq_self)
  have "k \<le> j" if "unat s \<le> 16 * 2 ^ j" for j
  proof (rule ccontr)
    assume "\<not> k \<le> j"
    then have "(16 :: nat) * 2 ^ j \<le> 16 * 2 ^ (k - 1)" by (intro mult_le_mono2 power_increasing) auto
    moreover have "16 * 2 ^ (k - 1) < unat s" using k(4) \<open>\<not> k \<le> j\<close> by auto
    ultimately show False using that by linarith
  qed
  with k u show ?thesis unfolding assms(1) by (simp add: slab_consts word_less_nat_alt)
qed

theorem SLABSizeToOrder_correct_witness: "SLABSizeToOrder Same_Register 100 < SLABS_TOT_ORDERS"
  using SLABSizeToOrder_correct [of Same_Register 100] by simp

theorem SLABSizeToOrder_swapped_operands:
  assumes "2 \<le> unat s" and "2 \<le> unat s'"
  shows "SLABSizeToOrder (Distinct_Registers junk) s = SLABSizeToOrder (Distinct_Registers junk) s'"
proof -
  have "x - 1 \<noteq> 0" if "2 \<le> unat x" for x :: u64 using that by auto
  with assms show ?thesis by (simp add: SLABSizeToOrder_def BSR_def)
qed

theorem SLABSizeToOrder_swapped_operands_witness:
  "SLABSizeToOrder (Distinct_Registers 7) 16 = SLABSizeToOrder (Distinct_Registers 7) 512"
  by (rule SLABSizeToOrder_swapped_operands) simp_all

text \<open>
  The order of a size below 9 underflows: for sizes from 2 to 8 it is at least 2^64 - 3, far outside
  the six lists.
\<close>

theorem SLABSizeToOrder_underflow:
  assumes "2 \<le> unat s" and "unat s \<le> 8"
  shows "2 ^ 64 - 3 \<le> unat (SLABSizeToOrder Same_Register s)"
proof -
  have u: "unat (s - 1) = unat s - 1" using assms(1) by (intro unat_minus_one_u64) simp
  obtain k where k: "2 ^ k \<le> unat s - 1" "unat s - 1 < 2 ^ Suc k"
    using log_bounds [of "unat s - 1"] assms(1) by auto
  have "(2 :: nat) ^ k < 2 ^ 3" using k assms by auto
  then have "k < 3" by (rule power_less_imp_less_exp [rotated]) simp
  have "SLABSizeToOrder Same_Register s = of_nat (Suc k) - 4"
    using k \<open>k < 3\<close> by (intro SLABSizeToOrder_eq) (simp_all add: u)
  with \<open>k < 3\<close> show ?thesis by (auto simp: less_Suc_eq numeral_3_eq_3 unsigned_minus_1_eq_mask mask_eq_exp_minus_1)
qed

theorem SLABSizeToOrder_underflow_witness: "2 ^ 64 - 3 \<le> unat (SLABSizeToOrder Same_Register 8)"
  by (rule SLABSizeToOrder_underflow) simp_all

text \<open>
  \<open>SLABMainOffset\<close> takes the minimum of header size and element length, so the first block overlaps
  the 64-byte header for elements shorter than it, and otherwise lies at 64, where the residual
  blocks of longer elements are.
\<close>

theorem SLABMainOffset_overlaps:
  "SLABMainOffset m slab \<le> sizeof_SLAB \<and>
   (slab_ElementLength m slab < sizeof_SLAB \<longrightarrow> SLABMainOffset m slab < sizeof_SLAB)"
  by (auto simp: SLABMainOffset_def min_macro_def)

theorem SLABMainOffset_overlaps_witness: "SLABMainOffset ((\<lambda>_. 0)(0x1018 := 16)) 0x1000 < sizeof_SLAB"
proof -
  have "slab_ElementLength ((\<lambda>_. 0)(0x1018 := 16)) 0x1000 < sizeof_SLAB"
    by (simp add: slab_ElementLength_def read16_bytes slab_consts)
  then show ?thesis using SLABMainOffset_overlaps by blast
qed

text \<open>
  For an element length of 2^(6 + n) the residual blocks are those at 64, 128, \dots up to half the
  element length: their number is what \<open>SLABResidualTotal\<close> says, and the loop of
  \<open>SLABTryReturnPage\<close> removes each of them once and nothing else, as long as the removals leave the
  element length of the slab alone.
\<close>

theorem SLABTryReturnPage_residuals:
  assumes "\<And>j. j \<le> n \<Longrightarrow> unat (slab_ElementLength (residual_removals ra lk ul m slub slab [0..<j]) slab) = 2 ^ (6 + n)"
    and "n < 10"
  shows "SLABResidualTotal Same_Register m slab = of_nat n \<and>
    SLABTryReturnPage_loop ra lk ul m slub slab 0 = residual_removals ra lk ul m slub slab [0..<n]"
proof -
  have len: "unat (slab_ElementLength m slab) = 2 ^ (6 + n)" using assms(1) [of 0] by (simp add: residual_removals_def)
  have "slab_ElementLength m slab = of_nat (unat (slab_ElementLength m slab))" by simp
  then have "slab_ElementLength m slab = of_nat (2 ^ (6 + n))" unfolding len .
  then have e: "slab_ElementLength m slab = 2 ^ (6 + n)" by simp
  have "BSF Same_Register (2 ^ (6 + n)) = of_nat (6 + n)"
    using bsf_instr_power [of "6 + n"] assms(2) by (simp add: BSF_def)
  moreover have "BSF Same_Register CACHELINE_LENGTH = 6"
    using bsf_instr_power [of 6] by (simp add: BSF_def arch_consts)
  moreover have "\<not> slab_ElementLength m slab < CACHELINE_LENGTH"
    using len by (simp add: word_less_nat_alt arch_consts power_add)
  ultimately have "SLABResidualTotal Same_Register m slab = of_nat n" by (simp add: SLABResidualTotal_def e)
  with SLABTryReturnPage_loop_power [of 0 n] assms(1) show ?thesis by simp
qed

end
