(* ===== verification/Slab_List.thy ===== *)
theory Slab_List
  imports Slab
begin

text \<open>
  The lists of partial slabs of \<open>kernel/memman/SLAB.c\<close> as lists. An object is a page or a residual
  block, at a multiple of 16, with \<open>Next\<close> in its first and \<open>Prev\<close> in its second word; a list starts in a
  word \<open>Partial[order]\<close> of the SLUB.
\<close>

section \<open>Lists in memory\<close>

text \<open>
  \<open>lseg m prev p xs q\<close>: following \<open>Next\<close> from \<open>p\<close> gives the objects \<open>xs\<close> and then \<open>q\<close>, and \<open>Prev\<close> goes
  back, from the first object to \<open>prev\<close>. \<open>fseg\<close> is the same without \<open>Prev\<close>.
\<close>

fun lseg :: "mem \<Rightarrow> ptr \<Rightarrow> ptr \<Rightarrow> ptr list \<Rightarrow> ptr \<Rightarrow> bool" where
  "lseg m prev p [] q \<longleftrightarrow> p = q"
| "lseg m prev p (x # xs) q \<longleftrightarrow> p = x \<and> x \<noteq> NULL \<and> read64 m (x + 8) = prev \<and> lseg m x (read64 m x) xs q"

fun fseg :: "mem \<Rightarrow> ptr \<Rightarrow> ptr list \<Rightarrow> ptr \<Rightarrow> bool" where
  "fseg m p [] q \<longleftrightarrow> p = q"
| "fseg m p (x # xs) q \<longleftrightarrow> p = x \<and> x \<noteq> NULL \<and> fseg m (read64 m x) xs q"

text \<open>Where the objects and the head are: apart from each other by alignment.\<close>

definition placed :: "ptr \<Rightarrow> ptr list \<Rightarrow> bool" where
  "placed head xs \<longleftrightarrow> distinct xs \<and> 8 dvd unat head \<and> (\<forall>x\<in>set xs. 16 dvd unat x \<and> head \<noteq> x \<and> head \<noteq> x + 8)"

definition partial_list :: "mem \<Rightarrow> ptr \<Rightarrow> ptr list \<Rightarrow> bool" where
  "partial_list m head xs \<longleftrightarrow> placed head xs \<and> lseg m NULL (read64 m head) xs NULL"

definition next_list :: "mem \<Rightarrow> ptr \<Rightarrow> ptr list \<Rightarrow> bool" where
  "next_list m head xs \<longleftrightarrow> placed head xs \<and> fseg m (read64 m head) xs NULL"

definition list_words :: "ptr \<Rightarrow> ptr list \<Rightarrow> ptr set" where
  "list_words head xs = word_bytes head \<union> (\<Union>x\<in>set xs. word_bytes x \<union> word_bytes (x + 8))"

text \<open>What the code relies on from the locks: they write only the lock bytes \<open>L\<close>.\<close>

definition locks_in :: "ptr set \<Rightarrow> (mem \<Rightarrow> mem) \<Rightarrow> (mem \<Rightarrow> mem) \<Rightarrow> bool" where
  "locks_in L lk ul \<longleftrightarrow> (\<forall>m q. q \<notin> L \<longrightarrow> lk m q = m q \<and> ul m q = m q)"

section \<open>Alignment\<close>

lemma placed_apart:
  assumes "placed head xs" "x \<in> set xs"
  shows "apart64 head x" "apart64 head (x + 8)"
    "y \<in> set xs \<Longrightarrow> apart64 x (y + 8)" "y \<in> set xs \<Longrightarrow> apart64 (y + 8) x"
    "y \<in> set xs \<Longrightarrow> x \<noteq> y \<Longrightarrow> apart64 x y" "y \<in> set xs \<Longrightarrow> x \<noteq> y \<Longrightarrow> apart64 (x + 8) (y + 8)"
proof -
  have al: "16 dvd unat z" if "z \<in> set xs" for z using assms(1) that by (auto simp: placed_def)
  have "8 dvd unat x" "8 dvd unat (x + 8)"
    using al [OF assms(2)] by (auto simp: aligned_second_word intro: dvd_trans [of 8 16] dvd_add)
  then show "apart64 head x" "apart64 head (x + 8)"
    using assms by (auto simp: placed_def intro!: aligned_apart)
  assume y: "y \<in> set xs"
  note n = object_words_apart [OF al [OF assms(2)] al [OF y]]
  show "apart64 x (y + 8)" "apart64 (y + 8) x" using n(1) by (simp_all add: apart64_sym)
  show "apart64 x y" "apart64 (x + 8) (y + 8)" if "x \<noteq> y" using n(2,3) that by auto
qed

section \<open>Segments\<close>

lemma lseg_append:
  "lseg m prev p (xs @ ys) q \<longleftrightarrow> (\<exists>r. lseg m prev p xs r \<and> lseg m (last (prev # xs)) r ys q)"
  by (induction xs arbitrary: prev p) auto

lemma lseg_cong:
  "(\<And>x. x \<in> set xs \<Longrightarrow> read64 m' x = read64 m x \<and> read64 m' (x + 8) = read64 m (x + 8)) \<Longrightarrow>
    lseg m' prev p xs q \<longleftrightarrow> lseg m prev p xs q"
  by (induction xs arbitrary: prev p) auto

lemma fseg_cong:
  "(\<And>x. x \<in> set xs \<Longrightarrow> read64 m' x = read64 m x) \<Longrightarrow> fseg m' p xs q \<longleftrightarrow> fseg m p xs q"
  by (induction xs arbitrary: p) auto

lemma lseg_fseg: "lseg m prev p xs q \<Longrightarrow> fseg m p xs q"
  by (induction xs arbitrary: prev p) auto

lemma lseg_start: "lseg m prev p xs NULL \<Longrightarrow> p = (case xs of [] \<Rightarrow> NULL | x # _ \<Rightarrow> x)"
  by (cases xs) auto

text \<open>Removing an object between a predecessor and the rest.\<close>

lemma lseg_unlink:
  assumes seg: "lseg m NULL p (as @ a # x # bs) NULL"
    and x: "read64 m x = next'"
    and a: "read64 m' a = next'" "read64 m' (a + 8) = read64 m (a + 8)"
    and as: "\<And>y. y \<in> set as \<Longrightarrow> read64 m' y = read64 m y \<and> read64 m' (y + 8) = read64 m (y + 8)"
    and bs: "\<And>y. y \<in> set bs \<Longrightarrow> read64 m' y = read64 m y"
      "\<And>y. y \<in> set bs \<Longrightarrow> read64 m' (y + 8) = (if y = hd bs then a else read64 m (y + 8))"
    and d: "distinct bs"
  shows "lseg m' NULL p (as @ a # bs) NULL"
proof -
  have 1: "lseg m NULL p as a" "a \<noteq> NULL" "read64 m (a + 8) = last (NULL # as)" "lseg m x next' bs NULL"
    using seg x by (auto simp: lseg_append)
  have "lseg m' a next' bs NULL"
  proof (cases bs)
    case (Cons b cs)
    then have b: "next' = b" "b \<noteq> NULL" "lseg m b (read64 m b) cs NULL" using 1(4) by auto
    have "lseg m' b (read64 m b) cs NULL" using b(3) bs d unfolding Cons
      by (subst lseg_cong [of cs m' m]) auto
    then show ?thesis using b bs [of b] by (simp add: Cons)
  qed (use 1(4) in simp)
  moreover have "lseg m' NULL p as a" using 1(1) as by (subst lseg_cong [of as m' m]) auto
  ultimately show ?thesis using 1(2,3) a by (auto simp: lseg_append)
qed

section \<open>The operations on lists\<close>

lemma locks_read:
  assumes "locks_in L lk ul" "L \<inter> word_bytes p = {}"
  shows "read64 (lk m) p = read64 m p" "read64 (ul m) p = read64 m p"
  using assms by (auto simp: locks_in_def intro!: read64_agree)

lemma list_words_disjoint:
  assumes "L \<inter> list_words head xs = {}"
  shows "L \<inter> word_bytes head = {}" "x \<in> set xs \<Longrightarrow> L \<inter> word_bytes x = {}" "x \<in> set xs \<Longrightarrow> L \<inter> word_bytes (x + 8) = {}"
  using assms unfolding list_words_def by blast+

text \<open>What the second branch of \<open>SLABListRemove\<close> leaves in the words of a list.\<close>

lemma SLABListRemove_words:
  assumes locks: "locks_in L lk ul" "L \<inter> list_words head xs = {}" and pl: "placed head xs"
    and x: "x \<in> set xs" "x \<noteq> slub_Partial slub (SLABObjectOrder ra (lk m) x)"
    and a: "read64 m (x + 8) = a" "a \<in> set xs" and n: "read64 m x = next'" "next' \<noteq> NULL \<Longrightarrow> next' \<in> set xs"
    and m': "m' = SLABListRemove ra lk ul m slub x"
  shows "read64 m' head = read64 m head"
    "\<And>y. y \<in> set xs \<Longrightarrow> read64 m' y = (if y = a then next' else read64 m y)"
    "\<And>y. y \<in> set xs \<Longrightarrow> read64 m' (y + 8) = (if y = next' \<and> next' \<noteq> NULL then a else read64 m (y + 8))"
proof -
  note dis = list_words_disjoint [OF locks(2)]
  note keep = locks_read [OF locks(1)]
  note ap = placed_apart [OF pl]
  have run: "m' = ul (write64 (if next' \<noteq> NULL then write64 (lk m) (next' + 8) a else lk m) a next')"
    using x a n by (simp add: m' SLABListRemove_def SLABNext_def SLABPrev_def Let_def keep dis)
  show "read64 m' head = read64 m head"
    unfolding run using ap(1) [OF a(2)] ap(2) n(2) by (simp add: keep dis read64_write64_apart)
  show "read64 m' y = (if y = a then next' else read64 m y)" if y: "y \<in> set xs" for y
    unfolding run using ap(5) [OF y a(2)] ap(3) [OF y] n(2) y
    by (simp add: keep dis read64_write64_apart read64_write64)
  show "read64 m' (y + 8) = (if y = next' \<and> next' \<noteq> NULL then a else read64 m (y + 8))" if y: "y \<in> set xs" for y
    unfolding run using ap(4) [OF a(2) y] ap(6) [OF y] n(2) y
    by (auto simp: keep dis read64_write64_apart read64_write64)
qed

lemma SLABListRemove_unlinks_split:
  assumes locks: "locks_in L lk ul" "L \<inter> list_words head (as @ a # x # bs) = {}"
    and list: "partial_list m head (as @ a # x # bs)"
    and order: "x \<noteq> slub_Partial slub (SLABObjectOrder ra (lk m) x)"
  shows "partial_list (SLABListRemove ra lk ul m slub x) head (as @ a # bs)"
proof -
  let ?xs = "as @ a # x # bs" and ?m = "SLABListRemove ra lk ul m slub x"
  have pl: "placed head ?xs" and seg: "lseg m NULL (read64 m head) ?xs NULL"
    using list by (auto simp: partial_list_def)
  have d: "distinct ?xs" using pl by (simp add: placed_def)
  define next' where "next' = read64 m x"
  have prev: "read64 m (x + 8) = a" and "lseg m x next' bs NULL" using seg by (auto simp: lseg_append next'_def)
  then have nx: "next' = (case bs of [] \<Rightarrow> NULL | b # _ \<Rightarrow> b)" by (auto dest: lseg_start)
  have bnull: "b \<noteq> NULL" if "b \<in> set bs" for b
    using that seg by (auto simp: lseg_append in_set_conv_decomp)
  have nin: "next' \<noteq> NULL \<Longrightarrow> next' \<in> set ?xs" using nx by (auto split: list.splits)
  note w = SLABListRemove_words [OF locks pl _ order prev _ next'_def [symmetric] nin refl, simplified]
  have "lseg ?m NULL (read64 m head) (as @ a # bs) NULL"
  proof (rule lseg_unlink [OF seg next'_def [symmetric]])
    show "read64 ?m a = next'" using w(2) [of a] by simp
    show "read64 ?m (a + 8) = read64 m (a + 8)" using w(3) [of a] d nx by (auto split: list.splits)
    show "read64 ?m y = read64 m y \<and> read64 ?m (y + 8) = read64 m (y + 8)" if "y \<in> set as" for y
      using w(2,3) [of y] that d nx by (auto split: list.splits)
    show "read64 ?m y = read64 m y" if "y \<in> set bs" for y using w(2) [of y] that d by auto
    show "read64 ?m (y + 8) = (if y = hd bs then a else read64 m (y + 8))" if "y \<in> set bs" for y
      using w(3) [of y] that nx bnull by (auto split: list.splits)
  qed (use d in auto)
  moreover have "placed head (as @ a # bs)" using pl by (auto simp: placed_def)
  ultimately show ?thesis using w(1) by (simp add: partial_list_def)
qed

lemma SLABListRemove_list:
  assumes "locks_in L lk ul" "L \<inter> list_words head xs = {}" "partial_list m head xs"
    and x: "x \<in> set xs" "x \<noteq> hd xs" and order: "head = slub_Partial slub (SLABObjectOrder ra (lk m) x)"
  shows "partial_list (SLABListRemove ra lk ul m slub x) head (remove1 x xs)"
proof -
  obtain as bs where xs: "xs = as @ x # bs" "x \<notin> set as" using split_list_first [OF x(1)] by blast
  with x(2) have "as \<noteq> []" by auto
  then obtain cs a where as: "as = cs @ [a]" by (cases as rule: rev_cases) auto
  have "x \<noteq> head" using assms(3) x(1) by (auto simp: partial_list_def placed_def)
  with SLABListRemove_unlinks_split [of L lk ul head cs a x bs] assms(1-3) order xs as show ?thesis
    by (simp add: remove1_append)
qed

lemma partial_list_locks:
  assumes "locks_in L lk ul" "L \<inter> list_words head xs = {}"
  shows "partial_list (lk m) head xs = partial_list m head xs" "partial_list (ul m) head xs = partial_list m head xs"
proof -
  note keep = locks_read [OF assms(1)] and dis = list_words_disjoint [OF assms(2)]
  show "partial_list (lk m) head xs = partial_list m head xs" "partial_list (ul m) head xs = partial_list m head xs"
    by (auto simp: partial_list_def keep dis lseg_cong [of xs "lk m" m] lseg_cong [of xs "ul m" m])
qed

text \<open>
  What \<open>SLABSafeListAdd\<close> leaves in the words of a list and of the new object: the object becomes its
  own predecessor, since the code takes the address of the \<open>Next\<close> field for its content.
\<close>

lemma SLABSafeListAdd_words:
  assumes locks: "locks_in L lk ul" "L \<inter> list_words head (obj # xs) = {}" and pl: "placed head (obj # xs)"
    and obj: "obj \<noteq> NULL" and m': "m' = SLABSafeListAdd lk ul m head obj"
  shows "read64 m' head = obj" "read64 m' obj = read64 m head" "read64 m' (obj + 8) = obj"
    "\<And>y. y \<in> set xs \<Longrightarrow> read64 m' y = read64 m y" "\<And>y. y \<in> set xs \<Longrightarrow> read64 m' (y + 8) = read64 m (y + 8)"
proof -
  note dis = list_words_disjoint [OF locks(2)]
  note keep = locks_read [OF locks(1)]
  note ap = placed_apart [OF pl, of obj, simplified]
  let ?m0 = "lk (write64 m (obj + 8) NULL)"
  have run: "m' = ul (write64 (write64 (write64 ?m0 head obj) obj (read64 m head)) (obj + 8) obj)"
    using obj by (simp add: m' SLABSafeListAdd_def SLABNext_def SLABPrev_def AtomicExchange64_def Let_def keep dis
        read64_write64_apart ap)
  have sym: "apart64 obj head" "apart64 (obj + 8) head" using ap(1,2) by (simp_all add: apart64_sym)
  show "read64 m' head = obj" "read64 m' obj = read64 m head" "read64 m' (obj + 8) = obj"
    unfolding run using ap sym by (simp_all add: keep dis read64_write64 read64_write64_apart)
  fix y assume y: "y \<in> set xs"
  then have ne: "y \<noteq> obj" using pl by (auto simp: placed_def)
  note apy = placed_apart [OF pl, of y]
  have sy: "apart64 y head" "apart64 (y + 8) head" using apy(1,2) y by (simp_all add: apart64_sym)
  show "read64 m' y = read64 m y" "read64 m' (y + 8) = read64 m (y + 8)"
    unfolding run using y ne sy apy(3-6) [of obj] placed_apart(4) [OF pl, of obj y]
    by (simp_all add: keep dis read64_write64_apart)
qed

section \<open>Examples\<close>

text \<open>
  The list of order 0 of the SLUB at 0x9000: slabs at 0x1000, 0x2000 and 0x3000, the second with
  elements of 16 bytes that are all free. The lock byte is \<open>RemoveLock[0]\<close>.
\<close>

definition ex_list :: mem where
  "ex_list = (ex_slab 0x10)(0x9001 := 0x10, 0x1001 := 0x20, 0x3009 := 0x20, 0x201C := 255)"

definition ex_lock :: "mem \<Rightarrow> mem" where
  "ex_lock m = m(0x9030 := 1)"

definition ex_unlock :: "mem \<Rightarrow> mem" where
  "ex_unlock m = m(0x9030 := 0)"

lemma ex_locks: "locks_in {0x9030} ex_lock ex_unlock"
  by (simp add: locks_in_def ex_lock_def ex_unlock_def)

lemma ex_lock_apart:
  assumes "\<forall>x\<in>set xs. unat x \<le> 0x8000"
  shows "{0x9030} \<inter> list_words 0x9000 xs = {}"
proof -
  have "0x9030 \<notin> word_bytes x \<and> 0x9030 \<notin> word_bytes (x + 8)" if "x \<in> set xs" for x
    using assms that by (auto intro!: notin_word_bytes simp: unat_word_ariths)
  moreover have "0x9030 \<notin> word_bytes 0x9000" by (rule notin_word_bytes) simp
  ultimately show ?thesis by (auto simp: list_words_def)
qed

lemma ex_list_partial: "partial_list ex_list 0x9000 [0x1000, 0x2000, 0x3000]"
  by (simp add: partial_list_def placed_def ex_list_def ex_slab_def read64_halves read32_bytes)

lemma SLABObjectOrder_16: "slab_ElementLength m (SLABObject x) = 16 \<Longrightarrow> SLABObjectOrder Same_Register m x = 0"
  using SLABSizeToOrder_eq [of 3 16] by (simp add: SLABObjectOrder_def)

lemma ex_list_order: "SLABObjectOrder Same_Register (ex_lock (ex_lock ex_list)) 0x2000 = 0"
  by (rule SLABObjectOrder_16)
    (simp add: SLABObject_def slab_consts arch_consts slab_ElementLength_def read16_bytes ex_lock_def ex_list_def ex_slab_def)

lemma ex_list_removable: "SLABCanRemoveObjectFromList (ex_lock ex_list) 0x2000 = Some True"
  by (simp add: SLABCanRemoveObjectFromList_def SLABResidual_def SLABObject_def SLABMainTotal_def SLABMainOffset_def
      min_macro_def slab_consts arch_consts slab_ElementLength_def slab_MainElementCount_def read16_bytes ex_lock_def
      ex_list_def ex_slab_def)

definition ex_add :: mem where
  "ex_add = (ex_slab 0)(0x4018 := 16)"

lemma ex_add_order:
  "SLABObjectOrder Same_Register (ex_lock (SLABSafeListAdd ex_lock ex_unlock ex_add 0x9000 0x4000)) 0x4000 = 0"
proof (rule SLABObjectOrder_16)
  have out: "q \<notin> word_bytes 0x4000" "q \<notin> word_bytes 0x4008" "q \<notin> word_bytes 0x9000" if "q = 0x4018 \<or> q = 0x4019" for q
    using that notin_word_bytes [of "0x4000" q] notin_word_bytes [of "0x4008" q] byte_before_word [of q "0x9000" 0] by auto
  show "slab_ElementLength (ex_lock (SLABSafeListAdd ex_lock ex_unlock ex_add 0x9000 0x4000)) (SLABObject 0x4000) = 16"
    by (simp add: SLABObject_def slab_consts arch_consts slab_ElementLength_def read16_bytes SLABSafeListAdd_def
        SLABNext_def SLABPrev_def AtomicExchange64_def ex_lock_def ex_unlock_def Let_def write64_notin out)
      (simp add: ex_add_def ex_slab_def)
qed

section \<open>Properties\<close>

text \<open>
  C34: Taking an object out of a list of partial slabs. If the object is not the first of the doubly
  linked list, \<open>SLABTrySafeListRemove\<close> takes exactly it out of the list, which stays doubly linked, if the
  object may be removed, and leaves the list alone otherwise.
\<close>

theorem SLABTrySafeListRemove_unlinks:
  assumes "locks_in L lk_use ul_use" and "locks_in L lk ul" and "L \<inter> list_words head xs = {}"
    and "partial_list m head xs" and "x \<in> set xs" and "x \<noteq> hd xs"
    and "head = slub_Partial slub (SLABObjectOrder ra (lk (lk_use m)) x)"
    and "SLABCanRemoveObjectFromList (lk_use m) x = Some removable"
  shows "\<exists>m'. SLABTrySafeListRemove ra lk_use ul_use lk ul m slub x = Some m' \<and>
    partial_list m' head (if removable then remove1 x xs else xs)"
proof -
  note use = partial_list_locks [OF assms(1,3)]
  have sub: "list_words head (remove1 x xs) \<subseteq> list_words head xs"
    using set_remove1_subset [of x xs] by (auto simp: list_words_def)
  then have "L \<inter> list_words head (remove1 x xs) = {}" using assms(3) by blast
  note rest = partial_list_locks [OF assms(1) this]
  have "partial_list (SLABListRemove ra lk ul (lk_use m) slub x) head (remove1 x xs)"
    using assms(4) by (intro SLABListRemove_list [OF assms(2,3) _ assms(5-7)]) (simp add: use)
  then show ?thesis using assms(4,8) by (auto simp: SLABTrySafeListRemove_def use rest)
qed

theorem SLABTrySafeListRemove_unlinks_witness:
  "\<exists>m'. SLABTrySafeListRemove Same_Register ex_lock ex_unlock ex_lock ex_unlock ex_list 0x9000 0x2000 = Some m' \<and>
    partial_list m' 0x9000 [0x1000, 0x3000]"
  using SLABTrySafeListRemove_unlinks [OF ex_locks ex_locks ex_lock_apart ex_list_partial _ _ _ ex_list_removable,
      of "0x9000" Same_Register]
  by (simp add: ex_list_order slub_Partial_def)

text \<open>
  C35: An object added with \<open>SLABSafeListAdd\<close> cannot be removed again. Following \<open>Next\<close> from the head
  gives the new object and then the old list, but the object is its own predecessor, so
  \<open>SLABListRemove\<close> of it leaves it in the list.
\<close>

theorem SLABSafeListAdd_then_remove:
  assumes "locks_in L lk ul" and "L \<inter> list_words head (obj # xs) = {}" and "placed head (obj # xs)"
    and "next_list m head xs" and "obj \<noteq> NULL" and "m1 = SLABSafeListAdd lk ul m head obj"
    and "head = slub_Partial slub (SLABObjectOrder ra (lk m1) obj)"
  shows "next_list m1 head (obj # xs) \<and> next_list (SLABListRemove ra lk ul m1 slub obj) head (obj # xs)"
proof -
  note add = SLABSafeListAdd_words [OF assms(1-3,5,6)]
  have seg: "fseg m (read64 m head) xs NULL" using assms(4) by (simp add: next_list_def)
  then have fst: "fseg m1 (read64 m head) xs NULL" using add(4) by (subst fseg_cong [of xs m1 m]) auto
  have "obj \<noteq> head" using assms(3) by (auto simp: placed_def)
  moreover have "read64 m head \<noteq> NULL \<Longrightarrow> read64 m head \<in> set (obj # xs)" using seg by (cases xs) auto
  ultimately have rm: "read64 (SLABListRemove ra lk ul m1 slub obj) head = obj"
    "\<And>y. y \<in> set (obj # xs) \<Longrightarrow> read64 (SLABListRemove ra lk ul m1 slub obj) y = read64 m1 y"
    using SLABListRemove_words(1,2) [OF assms(1-3) _ _ add(3) _ add(2) _ refl, of slub ra] assms(7) add(1,2) by auto
  have "fseg (SLABListRemove ra lk ul m1 slub obj) (read64 m head) xs NULL"
    using fst rm(2) by (subst fseg_cong [of xs _ m1]) auto
  with fst rm add(1,2) assms(3,5) show ?thesis by (simp add: next_list_def)
qed

theorem SLABSafeListAdd_then_remove_witness:
  "next_list (SLABListRemove Same_Register ex_lock ex_unlock
     (SLABSafeListAdd ex_lock ex_unlock ex_add 0x9000 0x4000) 0x9000 0x4000) 0x9000 [0x4000, 0x2000, 0x3000]"
proof -
  have "placed 0x9000 [0x4000, 0x2000, 0x3000]" by (simp add: placed_def)
  moreover have "next_list ex_add 0x9000 [0x2000, 0x3000]"
    by (simp add: next_list_def placed_def ex_add_def ex_slab_def read64_halves read32_bytes)
  ultimately show ?thesis
    using SLABSafeListAdd_then_remove [OF ex_locks ex_lock_apart _ _ _ refl, of "0x4000" "[0x2000, 0x3000]" ex_add
        "0x9000" Same_Register]
    by (simp add: ex_add_order slub_Partial_def)
qed

text \<open>
  Removing the first object of a list fails: the code compares the object with the address of the
  list head instead of its content, takes the other branch, writes the successor to address 0
  (through the NULL predecessor) and leaves the head pointing to the removed object.
\<close>

theorem SLABListRemove_head_broken:
  assumes "head = slub_Partial slub (SLABObjectOrder ra m obj)" and "read64 m head = obj" and "obj \<noteq> head"
    and "read64 m (obj + 8) = NULL" and "read64 m obj = next'"
    and "apart64 head (next' + 8)" and "apart64 head NULL"
  shows "read64 (SLABListRemove ra (\<lambda>m. m) (\<lambda>m. m) m slub obj) head = obj \<and>
    read64 (SLABListRemove ra (\<lambda>m. m) (\<lambda>m. m) m slub obj) NULL = next'"
  using assms by (simp add: SLABListRemove_def SLABNext_def SLABPrev_def Let_def read64_write64 read64_write64_apart)

theorem SLABListRemove_head_broken_witness:
  "read64 (SLABListRemove Same_Register (\<lambda>m. m) (\<lambda>m. m) (ex_slab 0) 0x9000 0x2000) 0x9000 = 0x2000"
proof -
  have "read64 (ex_slab 0) 0x9000 = 0x2000" "read64 (ex_slab 0) (0x2000 + 8) = 0" "read64 (ex_slab 0) 0x2000 = 0x3000"
    by (simp_all add: ex_slab_def read64_halves read32_bytes)
  moreover have "apart64 0x9000 (0x3000 + 8)" "apart64 0x9000 0"
    using apart64_offsets [of 0 "0x5FF8" "0x3008"] apart64_offsets [of 0 "0x9000" 0] by (simp_all add: apart64_sym)
  ultimately show ?thesis
    using SLABListRemove_head_broken [of "0x9000" "0x9000" Same_Register "ex_slab 0" "0x2000" "0x3000"]
    by (simp add: ex_slab_order slub_Partial_def)
qed

end
