(* ===== verification/Slab_Shared.thy ===== *)
theory Slab_Shared
  imports Slab
begin

unbundle bit_operations_syntax

text \<open>
  A slab that several CPUs use at once, as the head of \<open>SLAB.c\<close> describes it: the CPU that owns the slab
  looks for the first free block and marks it, while other CPUs free blocks. The search of \<open>SLABFirst\<close>
  reads the words of the bitmap one after the other, each read a step; \<open>SLABSet\<close> writes it with one locked
  instruction, a step as well, since all else it reads is the element length, which no step changes.
  Whoever holds a block may write to its bytes at any time.
\<close>

section \<open>The blocks of a slab\<close>

text \<open>
  Counted in slots of 16 bytes, with elements of \<open>2 ^ n\<close> slots: the block at slot \<open>i\<close> has as many slots as
  \<open>SLABSet\<close> marks. Below the element length there is one residual block at each power of two.
\<close>

definition block_slots :: "nat \<Rightarrow> nat \<Rightarrow> nat" where
  "block_slots n i = min i (2 ^ n)"

definition slots_of :: "nat \<Rightarrow> nat \<Rightarrow> nat set" where
  "slots_of n i = {i..<i + block_slots n i}"

definition block_start :: "nat \<Rightarrow> nat \<Rightarrow> bool" where
  "block_start n i \<longleftrightarrow> 0 < i \<and> i < 256 \<and> (\<exists>j\<le>n. block_slots n i = 2 ^ j \<and> 2 ^ j dvd i)"

lemma block_start_power: "j < n \<Longrightarrow> n \<le> 5 \<Longrightarrow> block_start n (2 ^ j)"
proof -
  assume "j < n" "n \<le> 5"
  then have "(2 :: nat) ^ j \<le> 2 ^ n" "(2 :: nat) ^ j \<le> 2 ^ 5" by (intro power_increasing; simp)+
  with \<open>j < n\<close> show ?thesis by (auto simp: block_start_def block_slots_def min_def intro!: exI [of _ j])
qed

lemma block_start_multiple: "2 ^ n dvd i \<Longrightarrow> 0 < i \<Longrightarrow> i < 256 \<Longrightarrow> block_start n i"
  by (auto simp: block_start_def block_slots_def min_def dest: dvd_imp_le intro!: exI [of _ n])

text \<open>The blocks partition the slots behind slot 0.\<close>

lemma slot_in_block:
  assumes "0 < j" "j < 256" "n \<le> 5"
  obtains i where "block_start n i" "j \<in> slots_of n i"
proof (cases "j < 2 ^ n")
  case True
  obtain k where k: "2 ^ k \<le> j" "j < 2 ^ Suc k" using log_bounds [OF assms(1)] by blast
  then have "(2 :: nat) ^ k < 2 ^ n" using True by linarith
  then have "k < n" by (rule power_less_imp_less_exp [rotated]) simp
  then have "block_start n (2 ^ k)" using assms(3) by (rule block_start_power)
  moreover have "j \<in> slots_of n (2 ^ k)"
    using k \<open>2 ^ k < 2 ^ n\<close> by (simp add: slots_of_def block_slots_def)
  ultimately show ?thesis by (rule that)
next
  case False
  define i where "i = 2 ^ n * (j div 2 ^ n)"
  have "1 \<le> j div 2 ^ n" using False by (metis Suc_leI div_greater_zero_iff not_less One_nat_def zero_less_numeral zero_less_power)
  moreover have "i + j mod 2 ^ n = j" "j mod 2 ^ n < 2 ^ n" by (simp_all add: i_def)
  ultimately have i: "2 ^ n \<le> i" "i \<le> j" "j < i + 2 ^ n" by (simp add: i_def, linarith+)
  have "0 < i" using i(1) by (rule less_le_trans [rotated]) simp
  moreover have "i < 256" using assms(2) i(2) by linarith
  moreover have "2 ^ n dvd i" by (simp add: i_def)
  ultimately have "block_start n i" by (intro block_start_multiple)
  moreover have "j \<in> slots_of n i" using i by (simp add: slots_of_def block_slots_def)
  ultimately show ?thesis by (rule that)
qed

lemma blocks_in_order:
  assumes "block_start n b" "block_start n c" "b < c"
  shows "b + block_slots n b \<le> c"
proof -
  obtain j where j: "block_slots n b = 2 ^ j" "2 ^ j dvd b" using assms(1) by (auto simp: block_start_def)
  obtain l where l: "block_slots n c = 2 ^ l" "2 ^ l dvd c" using assms(2) by (auto simp: block_start_def)
  have "block_slots n b \<le> block_slots n c" using assms(3) by (auto simp: block_slots_def)
  then have "j \<le> l" using j(1) l(1) by simp
  then have "2 ^ j dvd c" using l(2) le_imp_power_dvd dvd_trans by blast
  then have "2 ^ j dvd c - b" using j(2) by (intro dvd_diff_nat)
  then have "2 ^ j \<le> c - b" using assms(3) by (intro dvd_imp_le) simp_all
  then show ?thesis using j(1) assms(3) by simp
qed

lemma blocks_apart:
  assumes "block_start n b" "block_start n c" "b \<noteq> c"
  shows "slots_of n b \<inter> slots_of n c = {}"
  using blocks_in_order [OF assms(1,2)] blocks_in_order [OF assms(2,1)] assms(3)
  by (cases "b < c") (auto simp: slots_of_def)

lemma block_of_slot: "block_start n b \<Longrightarrow> block_start n c \<Longrightarrow> j \<in> slots_of n b \<Longrightarrow> j \<in> slots_of n c \<Longrightarrow> b = c"
  using blocks_apart by blast

lemma block_start_in_slots: "block_start n i \<Longrightarrow> i \<in> slots_of n i"
  by (auto simp: slots_of_def block_slots_def block_start_def)

text \<open>A block lies within the page and within one word of the bitmap.\<close>

lemma block_in_word:
  assumes "block_start n i" "n \<le> 5"
  shows "i mod 64 + block_slots n i \<le> 64" "i + block_slots n i \<le> 256"
proof -
  obtain j where j: "j \<le> n" "block_slots n i = 2 ^ j" "2 ^ j dvd i" "i < 256" using assms(1) by (auto simp: block_start_def)
  have "2 ^ (j + 4) dvd 16 * i" using j(3) by (simp add: power_add mult_dvd_mono mult.commute)
  then show w: "i mod 64 + block_slots n i \<le> 64"
    using slots_in_word [of "j + 4" "16 * i"] j(1,2) assms(2) by simp
  have "i = 64 * (i div 64) + i mod 64" "i div 64 < 4" using j(4) by auto
  then show "i + block_slots n i \<le> 256" using w by linarith
qed

section \<open>The operations on a block\<close>

definition block_at :: "ptr \<Rightarrow> nat \<Rightarrow> ptr" where
  "block_at slab i = slab + of_nat (16 * i)"

text \<open>The bytes of an object: as many as \<open>SLABSet\<close> computes for it.\<close>

definition object_bytes :: "mem \<Rightarrow> ptr \<Rightarrow> ptr set" where
  "object_bytes m object =
     block object (unat (min_macro (SLABObjectOffset object) (slab_ElementLength m (SLABObject object))))"

definition slab_geometry :: "mem \<Rightarrow> ptr \<Rightarrow> nat \<Rightarrow> bool" where
  "slab_geometry m slab n \<longleftrightarrow> slab mod 4096 = 0 \<and> n \<le> 5 \<and> unat (slab_ElementLength m slab) = 16 * 2 ^ n"

lemma block_at_page:
  assumes "slab_geometry m slab n" "i < 256"
  shows "SLABObject (block_at slab i) = slab" "unat (block_at slab i) mod 4096 = 16 * i"
    "unat (SLABObjectOffset (block_at slab i)) = 16 * i"
proof -
  have "slab mod 4096 = 0" using assms(1) by (simp add: slab_geometry_def)
  note b = slab_block [OF this assms(2), folded block_at_def]
  show "SLABObject (block_at slab i) = slab" by (rule b(1) [symmetric])
  show "unat (block_at slab i) mod 4096 = 16 * i" by (rule b(2) [symmetric])
  then show "unat (SLABObjectOffset (block_at slab i)) = 16 * i" by (simp add: unat_offset)
qed

lemma block_at_inj:
  assumes "i < 256" "j < 256" "block_at slab i = block_at slab j"
  shows "i = j"
proof -
  have "unat (of_nat (16 * i) :: u64) = unat (of_nat (16 * j) :: u64)" using assms(3) by (simp add: block_at_def)
  then show ?thesis using assms(1,2) by (simp add: unat_of_nat take_bit_nat_eq_self del: of_nat_mult)
qed

lemma object_bytes_block:
  assumes g: "slab_geometry m slab n" and i: "block_start n i"
  shows "object_bytes m (block_at slab i) = (\<lambda>x. slab + of_nat x) ` {16 * i..<16 * (i + block_slots n i)}"
proof -
  have "i < 256" using i by (simp add: block_start_def)
  note at = block_at_page [OF g this]
  have "unat (min_macro (SLABObjectOffset (block_at slab i)) (slab_ElementLength m slab)) = 16 * block_slots n i"
    using g at(3) by (auto simp: min_macro_def word_less_nat_alt slab_geometry_def block_slots_def min_def)
  then have "object_bytes m (block_at slab i) = block (block_at slab i) (16 * block_slots n i)"
    by (simp add: object_bytes_def at(1))
  also have "\<dots> = (\<lambda>x. slab + of_nat (16 * i + x)) ` {..<16 * block_slots n i}"
    by (simp add: block_def block_at_def add.assoc)
  also have "\<dots> = (\<lambda>x. slab + of_nat x) ` ((+) (16 * i) ` {..<16 * block_slots n i})" by (simp add: image_image)
  also have "(+) (16 * i) ` {..<16 * block_slots n i} = {16 * i..<16 * (i + block_slots n i)}"
    by (simp add: lessThan_atLeast0 algebra_simps)
  finally show ?thesis .
qed

lemma objects_disjoint:
  assumes g: "slab_geometry m slab n" and i: "block_start n i" and j: "block_start n j" and ne: "i \<noteq> j"
  shows "object_bytes m (block_at slab i) \<inter> object_bytes m (block_at slab j) = {}"
proof -
  have n: "n \<le> 5" using g by (simp add: slab_geometry_def)
  have "i + block_slots n i \<le> j \<or> j + block_slots n j \<le> i"
    using blocks_in_order [OF i j] blocks_in_order [OF j i] ne by linarith
  then show ?thesis
    using block_in_word(2) [OF i n] block_in_word(2) [OF j n]
    unfolding object_bytes_block [OF g i] object_bytes_block [OF g j] by (intro offsets_disjoint) auto
qed

lemma object_in_page:
  assumes g: "slab_geometry m slab n" and i: "block_start n i" "4 \<le> i"
  shows "object_bytes m (block_at slab i) \<subseteq> block slab 4096" "object_bytes m (block_at slab i) \<inter> block slab 64 = {}"
proof -
  have n: "n \<le> 5" using g by (simp add: slab_geometry_def)
  note w = block_in_word(2) [OF i(1) n]
  show "object_bytes m (block_at slab i) \<subseteq> block slab 4096"
    using w unfolding object_bytes_block [OF g i(1)] block_def by (intro image_mono) auto
  show "object_bytes m (block_at slab i) \<inter> block slab 64 = {}"
    using w i(2) unfolding object_bytes_block [OF g i(1)] block_def lessThan_atLeast0 by (intro offsets_disjoint) auto
qed

text \<open>What marking a block does to the memory.\<close>

lemma SLABSet_block:
  assumes g: "slab_geometry m slab n" and i: "block_start n i"
  shows "\<exists>m'. SLABSet m (block_at slab i) free = Some m' \<and> slab_geometry m' slab n \<and>
    (\<forall>j<256. slot_free m' slab j \<longleftrightarrow> (if j \<in> slots_of n i then free else slot_free m slab j)) \<and>
    (\<forall>q. q \<notin> block slab 64 \<longrightarrow> m' q = m q)"
proof -
  have i256: "i < 256" using i by (simp add: block_start_def)
  note at = block_at_page [OF g i256]
  obtain l where l: "l \<le> n" "block_slots n i = 2 ^ l" "2 ^ l dvd i" using i by (auto simp: block_start_def)
  have size: "min (16 * i) (unat (slab_ElementLength m slab)) = 2 ^ (l + 4)"
    using g l(2) by (simp add: slab_geometry_def block_slots_def min_def power_add split: if_splits)
  have k: "4 \<le> l + 4" "l + 4 \<le> 9" using l(1) g by (simp_all add: slab_geometry_def)
  have al: "2 ^ (l + 4) dvd 16 * i" using l(3) by (simp add: power_add mult_dvd_mono mult.commute)
  obtain m' where m': "SLABSet m (block_at slab i) free = Some m'"
    "\<forall>j<256. slot_free m' slab j \<longleftrightarrow> (if 16 * i div 16 \<le> j \<and> j < 16 * i div 16 + 2 ^ (l + 4 - 4) then free else slot_free m slab j)"
    using SLABSet_slots [OF at(1) [symmetric] at(2) [symmetric] size k al, of free] by blast
  have el: "slab_ElementLength m' slab = slab_ElementLength m slab"
    by (rule SLABSet_ElementLength [OF at(1) [symmetric] at(2) [symmetric] size k m'(1)])
  define a :: u64 where "a = 32 + 8 * of_nat (16 * i div 16 div 64)"
  have "i div 64 < 4" using i256 by simp
  then have a: "unat a + 8 \<le> 64" by (simp add: a_def unat_word_ariths unat_of_nat take_bit_nat_eq_self)
  have "m' = word_op free m (slab + a) (push_bit (16 * i div 16 mod 64) (push_bit (2 ^ (l + 4 - 4)) 1 - 1))"
    using SLABSet_run [OF at(1) [symmetric] at(2) [symmetric] size k, of free] m'(1)
    by (simp add: slab_Bitmap_def a_def add.assoc)
  then have "m' q = m q" if "q \<notin> block slab 64" for q
    using that word_bytes_block [OF a, of slab] by (auto simp: word_op_def AtomicOr64_def AtomicAnd64_def intro!: write64_notin)
  then show ?thesis using m' g el l(2) by (auto simp: slots_of_def slab_geometry_def)
qed

section \<open>The owner and the other CPUs\<close>

datatype owner_pc =
    Idle
  | Scan nat
  | Found ptr

text \<open>The blocks that clients hold are not stored by the program: \<open>held\<close> records them.\<close>

record shared_slab =
  smem :: mem
  owner :: owner_pc
  held :: "ptr set"

text \<open>One iteration of the loop of \<open>SLABFirst\<close> and, when the loop ends, its result: NULL leads back to \<open>Idle\<close>.\<close>

definition SLABFirst_step :: "reg_alloc \<Rightarrow> mem \<Rightarrow> ptr \<Rightarrow> nat \<Rightarrow> owner_pc" where
  "SLABFirst_step ra m slab base =
     (let slot = BSF ra (read64 m (slab_Bitmap slab (of_nat base)))
      in if slot \<noteq> - 1 then Found (slab + (slot + 8 * 8 * of_nat base) * SLABS_MIN_ALLOC)
         else if Suc base < unat SLABS_BITMAP_COUNT then Scan (Suc base) else Idle)"

datatype slab_event =
    Search
  | Look
  | Take ptr
  | Give ptr
  | Store ptr

text \<open>
  \<open>Take\<close> is the owner's; \<open>Give\<close> and \<open>Store\<close> are any CPU's that holds the block, at any moment of the owner's
  search too. Everybody else leaves the page alone.
\<close>

inductive slab_step :: "reg_alloc \<Rightarrow> ptr \<Rightarrow> slab_event \<Rightarrow> shared_slab \<Rightarrow> shared_slab \<Rightarrow> bool"
  for ra slab where
  slab_search: "owner s = Idle \<Longrightarrow> slab_step ra slab Search s (s\<lparr>owner := Scan 0\<rparr>)"
| slab_look: "owner s = Scan b \<Longrightarrow> slab_step ra slab Look s (s\<lparr>owner := SLABFirst_step ra (smem s) slab b\<rparr>)"
| slab_take: "owner s = Found object \<Longrightarrow> SLABSet (smem s) object False = Some m \<Longrightarrow>
    slab_step ra slab (Take object) s (s\<lparr>smem := m, owner := Idle, held := insert object (held s)\<rparr>)"
| slab_give: "object \<in> held s \<Longrightarrow> SLABSet (smem s) object True = Some m \<Longrightarrow>
    slab_step ra slab (Give object) s (s\<lparr>smem := m, held := held s - {object}\<rparr>)"
| slab_store: "object \<in> held s \<Longrightarrow> q \<in> object_bytes (smem s) object \<Longrightarrow>
    slab_step ra slab (Store object) s (s\<lparr>smem := (smem s)(q := v)\<rparr>)"

inductive slab_run :: "reg_alloc \<Rightarrow> ptr \<Rightarrow> mem \<Rightarrow> shared_slab \<Rightarrow> bool" for ra slab m where
  slab_start: "slab_run ra slab m \<lparr>smem = m, owner = Idle, held = {}\<rparr>"
| slab_next: "slab_run ra slab m s \<Longrightarrow> slab_step ra slab e s s' \<Longrightarrow> slab_run ra slab m s'"

text \<open>
  The bitmap the code relies on, which no function of the file sets up: for some blocks \<open>R\<close> that are never
  handed out, among them all that touch the header, the free slots are those of all other blocks. (A bitmap
  after \<open>SLABMainOffset\<close>, which puts the first block of short elements into the header, is none of these.)
\<close>

definition free_but :: "mem \<Rightarrow> ptr \<Rightarrow> nat \<Rightarrow> nat set \<Rightarrow> bool" where
  "free_but m slab n T \<longleftrightarrow> (\<forall>j<256. slot_free m slab j \<longleftrightarrow> (\<exists>i. block_start n i \<and> j \<in> slots_of n i \<and> i \<notin> T))"

definition slab_ready :: "mem \<Rightarrow> ptr \<Rightarrow> nat \<Rightarrow> nat set \<Rightarrow> bool" where
  "slab_ready m slab n R \<longleftrightarrow> slab_geometry m slab n \<and> {..<4} \<subseteq> R \<and> free_but m slab n R"

definition held_blocks :: "ptr \<Rightarrow> shared_slab \<Rightarrow> nat set" where
  "held_blocks slab s = {i. i < 256 \<and> block_at slab i \<in> held s}"

fun owner_ok :: "ptr \<Rightarrow> nat \<Rightarrow> nat set \<Rightarrow> owner_pc \<Rightarrow> bool" where
  "owner_ok slab n T Idle \<longleftrightarrow> True"
| "owner_ok slab n T (Scan b) \<longleftrightarrow> b < 4"
| "owner_ok slab n T (Found p) \<longleftrightarrow> (\<exists>i. block_start n i \<and> i \<notin> T \<and> p = block_at slab i)"

definition slab_inv :: "ptr \<Rightarrow> nat \<Rightarrow> nat set \<Rightarrow> shared_slab \<Rightarrow> bool" where
  "slab_inv slab n R s \<longleftrightarrow> slab_geometry (smem s) slab n \<and> {..<4} \<subseteq> R \<and>
     free_but (smem s) slab n (R \<union> held_blocks slab s) \<and>
     (\<forall>p\<in>held s. \<exists>i. block_start n i \<and> i \<notin> R \<and> p = block_at slab i) \<and>
     owner_ok slab n (R \<union> held_blocks slab s) (owner s)"

text \<open>The search finds only blocks that are free as a whole.\<close>

lemma free_but_start: "free_but m slab n T \<Longrightarrow> block_start n i \<Longrightarrow> i \<notin> T \<Longrightarrow> slot_free m slab i"
  using block_start_in_slots by (auto simp: free_but_def block_start_def)

lemma first_in_word:
  assumes n: "n \<le> 5" and f: "free_but m slab n T" and b: "b < 4"
    and k: "k < 64" "slot_free m slab (64 * b + k)" "\<And>l. l < k \<Longrightarrow> \<not> slot_free m slab (64 * b + l)"
  shows "block_start n (64 * b + k)" "64 * b + k \<notin> T"
proof -
  have "64 * b + k < 256" using b k(1) by simp
  then obtain i where i: "block_start n i" "64 * b + k \<in> slots_of n i" "i \<notin> T"
    using f k(2) by (auto simp: free_but_def)
  have in_i: "i \<le> 64 * b + k" "64 * b + k < i + block_slots n i" using i(2) by (simp_all add: slots_of_def)
  have "i = 64 * (i div 64) + i mod 64" by simp
  then have "64 * (i div 64) \<le> 64 * b + k" "64 * b + k < 64 * (i div 64) + 64"
    using in_i block_in_word(1) [OF i(1) n] by linarith+
  then have "(64 * b + k) div 64 = i div 64" by (intro div_nat_eqI) auto
  then have "i = 64 * b + i mod 64" using k(1) by simp
  moreover from this have "\<not> i mod 64 < k" using k(3) [of "i mod 64"] free_but_start [OF f i(1,3)] by auto
  ultimately have "i = 64 * b + k" using in_i(1) by linarith
  with i show "block_start n (64 * b + k)" "64 * b + k \<notin> T" by simp_all
qed

lemma SLABFirst_step_ok:
  assumes n: "n \<le> 5" and f: "free_but m slab n T" and b: "b < 4"
  shows "owner_ok slab n T (SLABFirst_step Same_Register m slab b)"
proof (cases "read64 m (slab_Bitmap slab (of_nat b)) = 0")
  case True
  then show ?thesis by (simp add: SLABFirst_step_def BSF_def slab_consts arch_consts)
next
  case False
  then obtain k where k: "k < 64" "bsf_instr (read64 m (slab_Bitmap slab (of_nat b))) = of_nat k"
    "bit (read64 m (slab_Bitmap slab (of_nat b))) k" "\<forall>l<k. \<not> bit (read64 m (slab_Bitmap slab (of_nat b))) l"
    using bsf_instr_lowest by blast
  have "SLABFirst_step Same_Register m slab b = Found (block_at slab (64 * b + k))"
    using scan_result [OF k(1)] False k(2) by (simp add: SLABFirst_step_def BSF_def block_at_def slab_consts algebra_simps)
  moreover have "block_start n (64 * b + k)" "64 * b + k \<notin> T"
    by (rule first_in_word [OF n f b k(1)]; use k in \<open>auto simp: slot_free_word\<close>)+
  ultimately show ?thesis by auto
qed

section \<open>The invariant\<close>

lemma free_but_take:
  assumes "free_but m slab n T" "block_start n i"
    and "\<forall>j<256. slot_free m' slab j \<longleftrightarrow> (if j \<in> slots_of n i then False else slot_free m slab j)"
  shows "free_but m' slab n (insert i T)"
  unfolding free_but_def
proof (intro allI impI)
  fix j :: nat assume "j < 256"
  then show "slot_free m' slab j \<longleftrightarrow> (\<exists>k. block_start n k \<and> j \<in> slots_of n k \<and> k \<notin> insert i T)"
    using assms block_of_slot [of n i] by (auto simp: free_but_def)
qed

lemma free_but_give:
  assumes "free_but m slab n T" "block_start n i"
    and "\<forall>j<256. slot_free m' slab j \<longleftrightarrow> (if j \<in> slots_of n i then True else slot_free m slab j)"
  shows "free_but m' slab n (T - {i})"
  unfolding free_but_def
proof (intro allI impI)
  fix j :: nat assume "j < 256"
  then show "slot_free m' slab j \<longleftrightarrow> (\<exists>k. block_start n k \<and> j \<in> slots_of n k \<and> k \<notin> T - {i})"
    using assms by (auto simp: free_but_def)
qed

text \<open>Only the header determines the geometry and the bitmap.\<close>

lemma header_agree:
  assumes "\<And>q. q \<in> block slab 64 \<Longrightarrow> m' q = m q"
  shows "slab_geometry m' slab n = slab_geometry m slab n" "free_but m' slab n T = free_but m slab n T"
proof -
  have "m' (slab + of_nat x) = m (slab + of_nat x)" if "x < 64" for x
    using that by (intro assms) (auto simp: block_def)
  from this [of 24] this [of 25] show "slab_geometry m' slab n = slab_geometry m slab n"
    by (simp add: slab_geometry_def slab_ElementLength_def read16_bytes add.assoc)
  have "slot_free m' slab j = slot_free m slab j" if "j < 256" for j
  proof -
    have "j div 64 < 4" using that by simp
    then have "unat (32 + 8 * of_nat (j div 64) :: u64) + 8 \<le> 64"
      by (simp add: unat_word_ariths unat_of_nat take_bit_nat_eq_self)
    then have "read64 m' (slab_Bitmap slab (of_nat (j div 64))) = read64 m (slab_Bitmap slab (of_nat (j div 64)))"
      using word_bytes_block [of _ 64 slab] assms by (intro read64_agree) (auto simp: slab_Bitmap_def add.assoc)
    then show ?thesis by (simp add: slot_free_def)
  qed
  then show "free_but m' slab n T = free_but m slab n T" by (simp add: free_but_def)
qed

lemma slab_invD:
  assumes "slab_inv slab n R s"
  shows "slab_geometry (smem s) slab n" "n \<le> 5" "free_but (smem s) slab n (R \<union> held_blocks slab s)"
    "owner_ok slab n (R \<union> held_blocks slab s) (owner s)" "i < 4 \<Longrightarrow> i \<in> R"
  using assms by (auto simp: slab_inv_def slab_geometry_def)

lemma slab_inv_held:
  assumes "slab_inv slab n R s" "p \<in> held s"
  obtains i where "block_start n i" "i \<notin> R" "p = block_at slab i" "4 \<le> i" "i < 256" "i \<in> held_blocks slab s"
proof -
  obtain i where i: "block_start n i" "i \<notin> R" "p = block_at slab i" using assms by (auto simp: slab_inv_def)
  moreover have "4 \<le> i" using slab_invD(5) [OF assms(1), of i] i(2) by (meson not_less)
  moreover have "i < 256" using i(1) by (simp add: block_start_def)
  ultimately show ?thesis using that assms(2) by (simp add: held_blocks_def)
qed

lemma held_blocks_insert:
  assumes "i < 256"
  shows "held_blocks slab (s\<lparr>held := insert (block_at slab i) (held s)\<rparr>) = insert i (held_blocks slab s)"
    "held_blocks slab (s\<lparr>held := held s - {block_at slab i}\<rparr>) = held_blocks slab s - {i}"
  using assms block_at_inj [OF _ assms] by (auto simp: held_blocks_def)

lemma held_blocks_cong: "held s' = held s \<Longrightarrow> held_blocks slab s' = held_blocks slab s"
  by (simp add: held_blocks_def)

lemma owner_ok_mono: "owner_ok slab n T p \<Longrightarrow> T' \<subseteq> T \<Longrightarrow> owner_ok slab n T' p"
  by (cases p) auto

lemma slab_inv_start: "slab_ready m slab n R \<Longrightarrow> slab_inv slab n R \<lparr>smem = m, owner = Idle, held = {}\<rparr>"
  by (simp add: slab_inv_def slab_ready_def held_blocks_def)

lemma slab_inv_take:
  assumes inv: "slab_inv slab n R s" and own: "owner s = Found p" and run: "SLABSet (smem s) p False = Some m"
  shows "slab_inv slab n R (s\<lparr>smem := m, owner := Idle, held := insert p (held s)\<rparr>)"
proof -
  obtain i where i: "block_start n i" "i \<notin> R" "p = block_at slab i" "i < 256"
    using slab_invD(4) [OF inv] own by (auto simp: block_start_def)
  have "slab_geometry m slab n" "free_but m slab n (insert i (R \<union> held_blocks slab s))"
    using SLABSet_block [OF slab_invD(1) [OF inv] i(1), of False] run i(3) free_but_take [OF slab_invD(3) [OF inv] i(1)] by auto
  moreover have "held_blocks slab (s\<lparr>smem := m, owner := Idle, held := insert p (held s)\<rparr>) = insert i (held_blocks slab s)"
    unfolding held_blocks_insert(1) [OF i(4), of slab s, folded i(3), symmetric] by (rule held_blocks_cong) simp
  ultimately show ?thesis using inv i by (auto simp: slab_inv_def)
qed

lemma slab_inv_give:
  assumes inv: "slab_inv slab n R s" and p: "p \<in> held s" and run: "SLABSet (smem s) p True = Some m"
  shows "slab_inv slab n R (s\<lparr>smem := m, held := held s - {p}\<rparr>)"
proof -
  obtain i where i: "block_start n i" "i \<notin> R" "p = block_at slab i" "i < 256" using inv p by (rule slab_inv_held)
  have "slab_geometry m slab n" "free_but m slab n ((R \<union> held_blocks slab s) - {i})"
    using SLABSet_block [OF slab_invD(1) [OF inv] i(1), of True] run i(3) free_but_give [OF slab_invD(3) [OF inv] i(1)] by auto
  moreover have hb: "held_blocks slab (s\<lparr>smem := m, held := held s - {p}\<rparr>) = held_blocks slab s - {i}"
    unfolding held_blocks_insert(2) [OF i(4), of slab s, folded i(3), symmetric] by (rule held_blocks_cong) simp
  moreover have "(R \<union> held_blocks slab s) - {i} = R \<union> (held_blocks slab s - {i})" using i(2) by auto
  moreover have "owner_ok slab n (R \<union> (held_blocks slab s - {i})) (owner s)"
    using slab_invD(4) [OF inv] by (rule owner_ok_mono) auto
  ultimately show ?thesis using inv by (simp add: slab_inv_def)
qed

lemma slab_inv_store:
  assumes inv: "slab_inv slab n R s" and p: "p \<in> held s" and q: "q \<in> object_bytes (smem s) p"
  shows "slab_inv slab n R (s\<lparr>smem := (smem s)(q := v)\<rparr>)"
proof -
  obtain i where i: "block_start n i" "p = block_at slab i" "4 \<le> i" using inv p by (rule slab_inv_held)
  have "q \<notin> block slab 64" using object_in_page(2) [OF slab_invD(1) [OF inv] i(1,3)] q i(2) by blast
  then have same: "((smem s)(q := v)) x = smem s x" if "x \<in> block slab 64" for x using that by auto
  have "slab_geometry ((smem s)(q := v)) slab n = slab_geometry (smem s) slab n"
    "free_but ((smem s)(q := v)) slab n T = free_but (smem s) slab n T" for T
    by (rule header_agree; rule same; assumption)+
  moreover have "held_blocks slab (s\<lparr>smem := (smem s)(q := v)\<rparr>) = held_blocks slab s" by (rule held_blocks_cong) simp
  ultimately show ?thesis using inv by (simp add: slab_inv_def)
qed

lemma slab_inv_owner:
  assumes "slab_inv slab n R s" "owner_ok slab n (R \<union> held_blocks slab s) p"
  shows "slab_inv slab n R (s\<lparr>owner := p\<rparr>)"
proof -
  have "held_blocks slab (s\<lparr>owner := p\<rparr>) = held_blocks slab s" by (rule held_blocks_cong) simp
  with assms show ?thesis by (simp add: slab_inv_def)
qed

lemma slab_inv_step:
  assumes "slab_step Same_Register slab e s s'" and inv: "slab_inv slab n R s"
  shows "slab_inv slab n R s'"
  using assms(1)
proof cases
  case slab_search
  with slab_inv_owner [OF inv, of "Scan 0"] show ?thesis by simp
next
  case (slab_look b)
  have "b < 4" using slab_invD(4) [OF inv] slab_look by simp
  from SLABFirst_step_ok [OF slab_invD(2,3) [OF inv] this] slab_look show ?thesis by (auto intro: slab_inv_owner [OF inv])
next
  case slab_take
  then show ?thesis using slab_inv_take [OF inv] by simp
next
  case slab_give
  then show ?thesis using slab_inv_give [OF inv] by simp
next
  case slab_store
  then show ?thesis using slab_inv_store [OF inv] by simp
qed

lemma slab_run_inv: "slab_run Same_Register slab m s \<Longrightarrow> slab_ready m slab n R \<Longrightarrow> slab_inv slab n R s"
  by (induction rule: slab_run.induct) (auto intro: slab_inv_start slab_inv_step)

section \<open>One search\<close>

text \<open>The states of a search that began in \<open>s0\<close>, with whatever the other CPUs do until it ends.\<close>

inductive search_run :: "reg_alloc \<Rightarrow> ptr \<Rightarrow> shared_slab \<Rightarrow> shared_slab \<Rightarrow> bool" for ra slab s0 where
  search_begin: "slab_step ra slab Search s0 s \<Longrightarrow> search_run ra slab s0 s"
| search_go: "search_run ra slab s0 s \<Longrightarrow> owner s = Scan b \<Longrightarrow> slab_step ra slab e s s' \<Longrightarrow> search_run ra slab s0 s'"

text \<open>
  A block that is free at the beginning stays free, since only the owner takes blocks; so the search has passed
  none of them.
\<close>

definition passed_none :: "ptr \<Rightarrow> nat \<Rightarrow> nat set \<Rightarrow> owner_pc \<Rightarrow> bool" where
  "passed_none slab n T p \<longleftrightarrow> (\<forall>i. block_start n i \<and> i \<notin> T \<longrightarrow>
     (case p of Idle \<Rightarrow> False | Scan b \<Rightarrow> b \<le> i div 64 | Found _ \<Rightarrow> True))"

lemma SLABFirst_step_passes:
  assumes f: "free_but m slab n T" and b: "b < 4" and p: "passed_none slab n T' (Scan b)" and T: "T \<subseteq> T'"
  shows "passed_none slab n T' (SLABFirst_step Same_Register m slab b)"
proof (cases "read64 m (slab_Bitmap slab (of_nat b)) = 0")
  case True
  have "Suc b \<le> i div 64" if i: "block_start n i" "i \<notin> T'" for i
  proof -
    have "b \<le> i div 64" using p i by (auto simp: passed_none_def)
    moreover have "slot_free m slab i" using i T by (intro free_but_start [OF f]) auto
    then have "i div 64 \<noteq> b" using True by (auto simp: slot_free_def)
    ultimately show ?thesis by simp
  qed
  moreover have "i div 64 < 4" if "block_start n i" for i using that by (auto simp: block_start_def)
  moreover have "SLABFirst_step Same_Register m slab b = (if Suc b < 4 then Scan (Suc b) else Idle)"
    using True by (simp add: SLABFirst_step_def BSF_def slab_consts arch_consts)
  ultimately show ?thesis using b by (fastforce simp: passed_none_def)
next
  case False
  then obtain k where k: "k < 64" "bsf_instr (read64 m (slab_Bitmap slab (of_nat b))) = of_nat k"
    using bsf_instr_lowest by blast
  then show ?thesis using scan_result [OF k(1)] False by (simp add: SLABFirst_step_def BSF_def passed_none_def)
qed

lemma search_run_passed:
  assumes "search_run Same_Register slab s0 s" and "slab_inv slab n R s0"
  shows "slab_inv slab n R s \<and> held_blocks slab s \<subseteq> held_blocks slab s0 \<and>
    passed_none slab n (R \<union> held_blocks slab s0) (owner s)"
  using assms(1)
proof induction
  case (search_begin s)
  then show ?case
    using slab_inv_step [OF search_begin assms(2)] by cases (auto simp: held_blocks_def passed_none_def)
next
  case (search_go s b e s')
  then have inv: "slab_inv slab n R s" and sub: "held_blocks slab s \<subseteq> held_blocks slab s0"
    and p: "passed_none slab n (R \<union> held_blocks slab s0) (Scan b)" by auto
  have inv': "slab_inv slab n R s'" by (rule slab_inv_step [OF search_go(3) inv])
  have b: "b < 4" using slab_invD(4) [OF inv] search_go(2) by simp
  from search_go(3) show ?case
  proof cases
    case (slab_look c)
    then have "owner s' = SLABFirst_step Same_Register (smem s) slab b" using search_go(2) by simp
    moreover have "held_blocks slab s' = held_blocks slab s" using slab_look by (simp add: held_blocks_def)
    moreover have "R \<union> held_blocks slab s \<subseteq> R \<union> held_blocks slab s0" using sub by auto
    ultimately show ?thesis using SLABFirst_step_passes [OF slab_invD(3) [OF inv] b p] inv' sub by simp
  next
    case (slab_give object m)
    then have "held_blocks slab s' \<subseteq> held_blocks slab s" "owner s' = Scan b" using search_go(2) by (auto simp: held_blocks_def)
    then show ?thesis using inv' sub p by auto
  next
    case (slab_store object q v)
    then have "held_blocks slab s' = held_blocks slab s" "owner s' = Scan b" using search_go(2) by (auto simp: held_blocks_def)
    then show ?thesis using inv' sub p by auto
  qed (use search_go(2) in simp_all)
qed

section \<open>Properties\<close>

fun search_alone :: "reg_alloc \<Rightarrow> mem \<Rightarrow> ptr \<Rightarrow> nat \<Rightarrow> owner_pc \<Rightarrow> owner_pc" where
  "search_alone ra m slab (Suc k) (Scan b) = search_alone ra m slab k (SLABFirst_step ra m slab b)"
| "search_alone ra m slab k p = p"

lemma SLABFirst_loop_steps:
  assumes "b + k = 4" "0 < k"
  shows "search_alone ra m slab k (Scan b) =
    (if fst (SLABFirst_loop ra m slab b k slot0) = - 1 then Idle else Found (first_address slab (SLABFirst_loop ra m slab b k slot0)))"
  using assms
proof (induction k arbitrary: b slot0)
  case (Suc k)
  define slot where "slot = BSF ra (read64 m (slab_Bitmap slab (of_nat b)))"
  have "unat SLABS_BITMAP_COUNT = 4" by (simp add: slab_consts arch_consts)
  then have step: "SLABFirst_step ra m slab b = (if slot \<noteq> - 1 then Found (slab + (slot + 8 * 8 * of_nat b) * SLABS_MIN_ALLOC)
      else if Suc b < 4 then Scan (Suc b) else Idle)"
    by (simp add: SLABFirst_step_def slot_def)
  have loop: "SLABFirst_loop ra m slab b (Suc k) slot0 =
      (if slot \<noteq> - 1 then (slot, of_nat b) else SLABFirst_loop ra m slab (Suc b) k slot)"
    by (simp add: slot_def Let_def)
  consider "slot \<noteq> - 1" | "slot = - 1" "k = 0" | "slot = - 1" "0 < k" by auto
  then show ?case
  proof cases
    case 1
    then show ?thesis unfolding loop by (cases k) (simp_all add: step first_address_def)
  next
    case 2
    then show ?thesis using Suc.prems(1) unfolding loop search_alone.simps(1) step by simp
  next
    case 3
    then show ?thesis using Suc.IH [of "Suc b" slot] Suc.prems unfolding loop by (simp add: step)
  qed
qed simp

text \<open>Without interference the steps of the search are the loop of \<open>SLABFirst\<close>.\<close>

theorem SLABFirst_steps:
  assumes "SLABFirst ra m slab slot0 = p"
  shows "search_alone ra m slab 4 (Scan 0) = Found p \<or> search_alone ra m slab 4 (Scan 0) = Idle \<and> p = NULL"
proof -
  have "unat SLABS_BITMAP_COUNT = 4" by (simp add: slab_consts arch_consts)
  then have "p = first_address slab (SLABFirst_loop ra m slab 0 4 slot0)"
    using assms by (simp add: SLABFirst_def first_address_def)
  then show ?thesis
    using SLABFirst_loop_steps [of 0 4 ra m slab slot0] by (auto simp: first_address_def split: if_splits prod.splits)
qed

theorem SLABFirst_steps_witness: "search_alone Same_Register (\<lambda>_. 1) 0x1000 4 (Scan 0) = Found 0x1000"
proof -
  have "read64 (\<lambda>_. 1) 0x1020 = 0x0101010101010101" by (simp add: read64_halves read32_bytes)
  moreover have "bsf_instr 0x0101010101010101 = 0" by code_simp
  moreover have e: "unat SLABS_BITMAP_COUNT = Suc 3" by (simp add: slab_consts arch_consts)
  ultimately have "SLABFirst Same_Register (\<lambda>_. 1) 0x1000 0 = 0x1000"
    unfolding SLABFirst_def e SLABFirst_loop.simps(2) by (simp add: BSF_def slab_Bitmap_def SLABS_MIN_ALLOC_def)
  from SLABFirst_steps [OF this] show ?thesis by simp
qed

text \<open>
  C5: One owner that searches and takes while other CPUs free and use their blocks: in every interleaving
  the blocks that are held do not overlap one another or the header and lie in the page; a block the owner has
  found is held by nobody and can be taken; every held block can be freed; and a slot is marked free iff it is
  part of a block that is neither held nor reserved, so no free is lost. This holds if the compiler assigns one
  register to both operands of the bit scan (\<open>Same_Register\<close>), whose order in the assembly text is wrong; with two
  it does not (\<open>SLAB_blocks_unsafe_distinct_registers\<close>).
\<close>

theorem SLAB_blocks_safe:
  assumes "ra = Same_Register" and "slab_ready m slab n R" and "slab_run ra slab m s"
  shows "(\<forall>p\<in>held s. \<forall>q\<in>held s. p \<noteq> q \<longrightarrow> object_bytes (smem s) p \<inter> object_bytes (smem s) q = {}) \<and>
    (\<forall>p\<in>held s. object_bytes (smem s) p \<subseteq> block slab 4096 - block slab 64 \<and> SLABSet (smem s) p True \<noteq> None) \<and>
    (\<forall>p. owner s = Found p \<longrightarrow> p \<notin> held s \<and> SLABSet (smem s) p False \<noteq> None \<and>
      (\<forall>q\<in>held s. object_bytes (smem s) p \<inter> object_bytes (smem s) q = {})) \<and>
    (\<forall>j<256. slot_free (smem s) slab j \<longleftrightarrow>
      (\<exists>i. block_start n i \<and> j \<in> slots_of n i \<and> i \<notin> R \<and> block_at slab i \<notin> held s))"
proof (intro conjI)
  have inv: "slab_inv slab n R s" using assms(2,3) unfolding assms(1) by (intro slab_run_inv)
  note g = slab_invD(1) [OF inv]
  show "\<forall>p\<in>held s. \<forall>q\<in>held s. p \<noteq> q \<longrightarrow> object_bytes (smem s) p \<inter> object_bytes (smem s) q = {}"
  proof (intro ballI impI)
    fix p q assume "p \<in> held s" "q \<in> held s" "p \<noteq> q"
    moreover from this obtain i j where "block_start n i" "p = block_at slab i" "block_start n j" "q = block_at slab j"
      by (metis slab_inv_held [OF inv])
    ultimately show "object_bytes (smem s) p \<inter> object_bytes (smem s) q = {}" by (metis objects_disjoint [OF g])
  qed
  show "\<forall>p\<in>held s. object_bytes (smem s) p \<subseteq> block slab 4096 - block slab 64 \<and> SLABSet (smem s) p True \<noteq> None"
    using object_in_page [OF g] SLABSet_block [OF g, of _ True] by (blast elim: slab_inv_held [OF inv])
  show "\<forall>p. owner s = Found p \<longrightarrow> p \<notin> held s \<and> SLABSet (smem s) p False \<noteq> None \<and>
      (\<forall>q\<in>held s. object_bytes (smem s) p \<inter> object_bytes (smem s) q = {})"
  proof (intro allI impI)
    fix p assume "owner s = Found p"
    then obtain i where i: "block_start n i" "i \<notin> R \<union> held_blocks slab s" "p = block_at slab i"
      using slab_invD(4) [OF inv] by auto
    moreover from this have "p \<notin> held s" by (auto simp: held_blocks_def block_start_def)
    moreover from this have "object_bytes (smem s) p \<inter> object_bytes (smem s) q = {}" if "q \<in> held s" for q
      using that objects_disjoint [OF g i(1)] i(3) by (metis slab_inv_held [OF inv])
    ultimately show "p \<notin> held s \<and> SLABSet (smem s) p False \<noteq> None \<and>
        (\<forall>q\<in>held s. object_bytes (smem s) p \<inter> object_bytes (smem s) q = {})"
      using SLABSet_block [OF g i(1), of False] by auto
  qed
  show "\<forall>j<256. slot_free (smem s) slab j \<longleftrightarrow>
      (\<exists>i. block_start n i \<and> j \<in> slots_of n i \<and> i \<notin> R \<and> block_at slab i \<notin> held s)"
    using slab_invD(3) [OF inv] by (auto simp: free_but_def held_blocks_def block_start_def)
qed

text \<open>An example slab at 0x1000 with elements of 64 bytes, of which only the one at 0x1040 can be handed out.\<close>

definition ex_shared :: mem where
  "ex_shared = (\<lambda>_. 0)(0x1018 := 64, 0x1020 := 0xF0)"

lemma ex_shared_words:
  "read64 ex_shared 0x1020 = 0xF0" "read64 ex_shared 0x1028 = 0" "read64 ex_shared 0x1030 = 0" "read64 ex_shared 0x1038 = 0"
  by (simp_all add: read64_halves read32_bytes ex_shared_def)

lemma ex_shared_slots:
  assumes "j < 256"
  shows "slot_free ex_shared 0x1000 j \<longleftrightarrow> j \<in> {4..<8}"
proof (cases "j < 64")
  case True
  have "(0xF0 :: u64) = push_bit 4 (push_bit 4 1 - 1)" by code_simp
  then have "bit (0xF0 :: u64) j \<longleftrightarrow> j \<in> {4..<8}" using bit_slots_mask [of 4 4 j] by auto
  with True show ?thesis by (simp add: slot_free_def slab_Bitmap_def ex_shared_words)
next
  case False
  then have "j div 64 \<in> {1, 2, 3}" using assms by auto
  then have "read64 ex_shared (slab_Bitmap 0x1000 (of_nat (j div 64))) = 0"
    by (auto simp: slab_Bitmap_def ex_shared_words)
  with False show ?thesis by (simp add: slot_free_def)
qed

lemma ex_shared_ready: "slab_ready ex_shared 0x1000 2 (- {4})"
proof -
  have "slots_of 2 4 = {4..<8}" by (auto simp: slots_of_def block_slots_def)
  moreover have "block_start 2 4" by (rule block_start_multiple) simp_all
  ultimately have "free_but ex_shared 0x1000 2 (- {4})" using ex_shared_slots by (auto simp: free_but_def)
  moreover have "slab_geometry ex_shared 0x1000 2"
    by (simp add: slab_geometry_def slab_ElementLength_def read16_bytes ex_shared_def)
  ultimately show ?thesis by (auto simp: slab_ready_def)
qed

lemma ex_shared_look: "SLABFirst_step Same_Register ex_shared 0x1000 0 = Found 0x1040"
proof -
  have "bsf_instr 0xF0 = 4" by code_simp
  then show ?thesis by (simp add: SLABFirst_step_def BSF_def slab_Bitmap_def ex_shared_words SLABS_MIN_ALLOC_def)
qed

lemma ex_shared_run: "\<exists>s. slab_run Same_Register 0x1000 ex_shared s \<and> held s = {0x1040} \<and> owner s = Idle"
proof -
  note found = ex_shared_look
  have "slab_geometry ex_shared 0x1000 2" "block_start 2 4" "block_at 0x1000 4 = 0x1040"
    using ex_shared_ready by (simp_all add: slab_ready_def block_at_def block_start_multiple)
  then obtain m where m: "SLABSet ex_shared 0x1040 False = Some m" using SLABSet_block [of ex_shared "0x1000" 2 4 False] by auto
  note start = slab_start [of Same_Register "0x1000" ex_shared]
  note search = slab_next [OF start slab_search, simplified]
  note look = slab_next [OF search slab_look, simplified]
  have "slab_run Same_Register 0x1000 ex_shared \<lparr>smem = m, owner = Idle, held = {0x1040}\<rparr>"
    by (rule slab_next [OF look slab_take, simplified, OF refl found m])
  then show ?thesis by fastforce
qed

theorem SLAB_blocks_safe_witness:
  "\<exists>s. slab_run Same_Register 0x1000 ex_shared s \<and> held s = {0x1040} \<and>
    object_bytes (smem s) 0x1040 \<subseteq> block 0x1000 4096 - block 0x1000 64 \<and> SLABSet (smem s) 0x1040 True \<noteq> None"
proof -
  obtain s where s: "slab_run Same_Register 0x1000 ex_shared s" "held s = {0x1040}" using ex_shared_run by blast
  from SLAB_blocks_safe [OF refl ex_shared_ready s(1)] s show ?thesis by auto
qed

text \<open>
  C15: The bytes of a block belong to the CPU that holds it: in every interleaving, a step that changes a byte
  of a held block is a store by its holder. Neither taking nor freeing other blocks nor the other holders'
  stores touch it. As before, one register is assumed for both operands of the bit scan.
\<close>

theorem SLAB_blocks_private:
  assumes "ra = Same_Register" and "slab_ready m slab n R" and "slab_run ra slab m s" and "slab_step ra slab e s s'"
    and "p \<in> held s" and "q \<in> object_bytes (smem s) p" and "smem s' q \<noteq> smem s q"
  shows "e = Store p"
proof -
  have inv: "slab_inv slab n R s" using assms(2,3) unfolding assms(1) by (intro slab_run_inv)
  note g = slab_invD(1) [OF inv]
  obtain i where i: "block_start n i" "p = block_at slab i" "4 \<le> i" using inv assms(5) by (rule slab_inv_held)
  have q: "q \<notin> block slab 64" using object_in_page(2) [OF g i(1,3)] assms(6) i(2) by blast
  have unmarked: "m' q = smem s q" if "SLABSet (smem s) (block_at slab j) free = Some m'" "block_start n j" for j free m'
    using SLABSet_block [OF g that(2), of free] that(1) q by auto
  from assms(4) show ?thesis
  proof cases
    case (slab_take object m')
    then obtain j where "block_start n j" "object = block_at slab j" using slab_invD(4) [OF inv] by auto
    with unmarked slab_take assms(7) show ?thesis by auto
  next
    case (slab_give object m')
    obtain j where "block_start n j" "object = block_at slab j" using inv slab_give(3) by (rule slab_inv_held)
    with unmarked slab_give assms(7) show ?thesis by auto
  next
    case (slab_store object r v)
    obtain j where j: "block_start n j" "object = block_at slab j" using inv slab_store(3) by (rule slab_inv_held)
    have "q = r" using slab_store(2) assms(7) by (auto split: if_splits)
    then have "i = j" using objects_disjoint [OF g i(1) j(1)] assms(6) slab_store(4) i(2) j(2) by blast
    with slab_store(1) i(2) j(2) show ?thesis by simp
  qed (use assms(7) in simp_all)
qed

theorem SLAB_blocks_private_witness:
  "\<exists>s s' e. slab_run Same_Register 0x1000 ex_shared s \<and> slab_step Same_Register 0x1000 e s s' \<and> smem s' 0x1041 \<noteq> smem s 0x1041 \<and> e = Store 0x1040"
proof -
  obtain s where s: "slab_run Same_Register 0x1000 ex_shared s" "held s = {0x1040}" using ex_shared_run by blast
  have g: "slab_geometry (smem s) 0x1000 2" by (rule slab_invD(1) [OF slab_run_inv [OF s(1) ex_shared_ready]])
  have "block_start 2 4" by (rule block_start_multiple) simp_all
  from object_bytes_block [OF g this] have q: "0x1041 \<in> object_bytes (smem s) 0x1040"
    by (auto simp: block_at_def block_slots_def intro!: image_eqI [of _ _ "0x41"])
  define s' where "s' = s\<lparr>smem := (smem s)(0x1041 := smem s 0x1041 + 1)\<rparr>"
  have p: "0x1040 \<in> held s" by (simp add: s(2))
  have step: "slab_step Same_Register 0x1000 (Store 0x1040) s s'" unfolding s'_def by (rule slab_store [OF p q])
  have ne: "smem s' 0x1041 \<noteq> smem s 0x1041" by (simp add: s'_def)
  from SLAB_blocks_private [OF refl ex_shared_ready s(1) step p q ne] s(1) step ne show ?thesis by blast
qed

text \<open>
  C16: A search does not miss a block: if any slot of the page was free when the search began, then whatever the
  other CPUs do meanwhile, when it has ended it has found a block that nobody holds, and not NULL. As before, one
  register is assumed for both operands of the bit scan.
\<close>

theorem SLAB_search_complete:
  assumes "ra = Same_Register" and "slab_ready m slab n R" and "slab_run ra slab m s0" and "search_run ra slab s0 s" and "\<forall>b. owner s \<noteq> Scan b"
    and "j < 256" and "slot_free (smem s0) slab j"
  shows "\<exists>p. owner s = Found p \<and> p \<notin> held s \<and> SLABSet (smem s) p False \<noteq> None"
proof -
  have inv0: "slab_inv slab n R s0" using assms(2,3) unfolding assms(1) by (intro slab_run_inv)
  obtain i where i: "block_start n i" "i \<notin> R \<union> held_blocks slab s0"
    using slab_invD(3) [OF inv0] assms(6,7) by (auto simp: free_but_def)
  note passed = search_run_passed [OF assms(4) [unfolded assms(1)] inv0]
  then obtain p where p: "owner s = Found p"
    using i assms(5) by (cases "owner s") (auto simp: passed_none_def)
  have inv: "slab_inv slab n R s" using passed by blast
  obtain k where k: "block_start n k" "k \<notin> R \<union> held_blocks slab s" "p = block_at slab k"
    using slab_invD(4) [OF inv] p by auto
  then have "p \<notin> held s" by (auto simp: held_blocks_def block_start_def)
  with p show ?thesis using SLABSet_block [OF slab_invD(1) [OF inv] k(1), of False] k(3) by auto
qed

theorem SLAB_search_complete_witness:
  "\<exists>s p. search_run Same_Register 0x1000 \<lparr>smem = ex_shared, owner = Idle, held = {}\<rparr> s \<and> owner s = Found p \<and> p \<notin> held s"
proof -
  let ?s0 = "\<lparr>smem = ex_shared, owner = Idle, held = {}\<rparr>"
  have found: "SLABFirst_step Same_Register ex_shared 0x1000 0 = Found 0x1040" by (rule ex_shared_look)
  have "search_run Same_Register 0x1000 ?s0 (?s0\<lparr>owner := Scan 0\<rparr>)" by (rule search_begin [OF slab_search]) simp
  from search_go [OF this _ slab_look, of 0 0] have run: "search_run Same_Register 0x1000 ?s0 (?s0\<lparr>owner := Found 0x1040\<rparr>)"
    by (simp add: found)
  have "slot_free ex_shared 0x1000 4" by (simp add: ex_shared_slots)
  with SLAB_search_complete [OF refl ex_shared_ready slab_start run, of 4] run show ?thesis by auto
qed

text \<open>
  With two registers the three properties fail: a search that finds a free slot in the first word always
  answers with the block that the register's old content names. Here it names the block at 0x1040, which is
  handed out a second time while it is held.
\<close>

definition ex_pair :: mem where
  "ex_pair = (\<lambda>_. 0)(0x1018 := 64, 0x1020 := 0xF0, 0x1021 := 0x0F)"

lemma ex_pair_words:
  "read64 ex_pair 0x1020 = 0xFF0" "read64 ex_pair 0x1028 = 0" "read64 ex_pair 0x1030 = 0" "read64 ex_pair 0x1038 = 0"
  by (simp_all add: read64_halves read32_bytes ex_pair_def)

lemma ex_pair_slots:
  assumes "j < 256"
  shows "slot_free ex_pair 0x1000 j \<longleftrightarrow> j \<in> {4..<12}"
proof (cases "j < 64")
  case True
  have "(0xFF0 :: u64) = push_bit 4 (push_bit 8 1 - 1)" by code_simp
  then have "bit (0xFF0 :: u64) j \<longleftrightarrow> j \<in> {4..<12}" using bit_slots_mask [of 4 8 j] by auto
  with True show ?thesis by (simp add: slot_free_def slab_Bitmap_def ex_pair_words)
next
  case False
  then have "j div 64 \<in> {1, 2, 3}" using assms by auto
  then have "read64 ex_pair (slab_Bitmap 0x1000 (of_nat (j div 64))) = 0"
    by (auto simp: slab_Bitmap_def ex_pair_words)
  with False show ?thesis by (simp add: slot_free_def)
qed

lemma ex_pair_ready: "slab_ready ex_pair 0x1000 2 (- {4, 8})"
proof -
  have "slots_of 2 4 = {4..<8}" "slots_of 2 8 = {8..<12}" by (auto simp: slots_of_def block_slots_def)
  then have "j \<in> {4..<12} \<longleftrightarrow> j \<in> slots_of 2 4 \<or> j \<in> slots_of 2 8" for j by auto
  moreover have "block_start 2 4" "block_start 2 8" by (rule block_start_multiple; simp)+
  ultimately have "free_but ex_pair 0x1000 2 (- {4, 8})" using ex_pair_slots unfolding free_but_def by blast
  moreover have "slab_geometry ex_pair 0x1000 2"
    by (simp add: slab_geometry_def slab_ElementLength_def read16_bytes ex_pair_def)
  ultimately show ?thesis by (auto simp: slab_ready_def)
qed

lemma distinct_look:
  assumes "slot_free m 0x1000 j" "j < 64"
  shows "SLABFirst_step (Distinct_Registers 4) m 0x1000 0 = Found 0x1040"
proof -
  have "read64 m (slab_Bitmap 0x1000 0) \<noteq> 0" using assms by (auto simp: slot_free_def)
  then show ?thesis by (simp add: SLABFirst_step_def BSF_def SLABS_MIN_ALLOC_def)
qed

theorem SLAB_blocks_unsafe_distinct_registers:
  "slab_ready ex_pair 0x1000 2 (- {4, 8}) \<and>
    (\<exists>s. slab_run (Distinct_Registers 4) 0x1000 ex_pair s \<and> owner s = Found 0x1040 \<and> 0x1040 \<in> held s)"
proof
  have at: "block_at 0x1000 4 = 0x1040" "block_start 2 4" by (simp_all add: block_at_def block_start_multiple)
  have "slab_geometry ex_pair 0x1000 2" using ex_pair_ready by (simp add: slab_ready_def)
  from SLABSet_block [OF this at(2), of False] obtain m where m: "SLABSet ex_pair 0x1040 False = Some m"
    "\<forall>j<256. slot_free m 0x1000 j \<longleftrightarrow> (if j \<in> slots_of 2 4 then False else slot_free ex_pair 0x1000 j)"
    unfolding at(1) by blast
  have "slot_free ex_pair 0x1000 4" "slot_free m 0x1000 8" using m(2) by (simp_all add: ex_pair_slots slots_of_def block_slots_def)
  then have look: "SLABFirst_step (Distinct_Registers 4) ex_pair 0x1000 0 = Found 0x1040"
    "SLABFirst_step (Distinct_Registers 4) m 0x1000 0 = Found 0x1040" by (auto intro: distinct_look)
  let ?ra = "Distinct_Registers 4"
  have "slab_run ?ra 0x1000 ex_pair \<lparr>smem = ex_pair, owner = Scan 0, held = {}\<rparr>"
    using slab_next [OF slab_start slab_search] by fastforce
  from slab_next [OF this slab_look] look(1)
  have "slab_run ?ra 0x1000 ex_pair \<lparr>smem = ex_pair, owner = Found 0x1040, held = {}\<rparr>" by fastforce
  from slab_next [OF this slab_take] m(1)
  have "slab_run ?ra 0x1000 ex_pair \<lparr>smem = m, owner = Idle, held = {0x1040}\<rparr>" by fastforce
  from slab_next [OF this slab_search]
  have "slab_run ?ra 0x1000 ex_pair \<lparr>smem = m, owner = Scan 0, held = {0x1040}\<rparr>" by fastforce
  from slab_next [OF this slab_look] look(2)
  have "slab_run ?ra 0x1000 ex_pair \<lparr>smem = m, owner = Found 0x1040, held = {0x1040}\<rparr>" by fastforce
  then show "\<exists>s. slab_run ?ra 0x1000 ex_pair s \<and> owner s = Found 0x1040 \<and> 0x1040 \<in> held s" by fastforce
qed (rule ex_pair_ready)

end
