(* ===== verification/Elf_Loader.thy ===== *)
theory Elf_Loader
  imports Byte_Memory
begin

text \<open>
  The ELF part of the boot loader, \<open>loader/elf.c\<close>, on byte memory. Header fields are read at the
  offsets of \<open>loader/elf.h\<close>. \<open>memcmp\<close>, \<open>memset\<close> and \<open>memcpy\<close> are those of the C library (the
  ranges of \<open>memcpy\<close> do not overlap where it is defined); the diagnostics \<open>ValidateELF\<close> prints are
  left out. \<open>max\<close> and \<open>min\<close> are not defined in the sources of the loader and are parameters \<open>mx\<close> and
  \<open>mn\<close>.
\<close>

section \<open>Headers\<close>

abbreviation ELFCLASS64 :: u8 where
  "ELFCLASS64 \<equiv> 2"

abbreviation ELFDATA2LSB :: u8 where
  "ELFDATA2LSB \<equiv> 1"

abbreviation ELFOSABI_SYSV :: u8 where
  "ELFOSABI_SYSV \<equiv> 0"

abbreviation EV_CURRENT :: u8 where
  "EV_CURRENT \<equiv> 1"

definition VALID_ELF_IDENT :: "u8 list" where
  "VALID_ELF_IDENT = [0x7F, 0x45, 0x4C, 0x46, ELFCLASS64, ELFDATA2LSB, EV_CURRENT, ELFOSABI_SYSV, 0]"

definition ET_DYN :: u16 where
  "ET_DYN = 3"

definition PT_LOAD :: u32 where
  "PT_LOAD = 1"

definition elf_type :: "mem \<Rightarrow> ptr \<Rightarrow> u16" where
  "elf_type m elf = read16 m (elf + 16)"

definition elf_entry :: "mem \<Rightarrow> ptr \<Rightarrow> u64" where
  "elf_entry m elf = read64 m (elf + 24)"

definition elf_programHeaderOffset :: "mem \<Rightarrow> ptr \<Rightarrow> u64" where
  "elf_programHeaderOffset m elf = read64 m (elf + 32)"

definition elf_programHeaderSize :: "mem \<Rightarrow> ptr \<Rightarrow> u16" where
  "elf_programHeaderSize m elf = read16 m (elf + 54)"

definition elf_programHeaderCount :: "mem \<Rightarrow> ptr \<Rightarrow> u16" where
  "elf_programHeaderCount m elf = read16 m (elf + 56)"

definition ph_type :: "mem \<Rightarrow> ptr \<Rightarrow> u32" where
  "ph_type m p = read32 m p"

definition ph_dataOffset :: "mem \<Rightarrow> ptr \<Rightarrow> u64" where
  "ph_dataOffset m p = read64 m (p + 8)"

definition ph_vAddr :: "mem \<Rightarrow> ptr \<Rightarrow> u64" where
  "ph_vAddr m p = read64 m (p + 16)"

definition ph_sizeInFile :: "mem \<Rightarrow> ptr \<Rightarrow> u64" where
  "ph_sizeInFile m p = read64 m (p + 32)"

definition ph_sizeInMemory :: "mem \<Rightarrow> ptr \<Rightarrow> u64" where
  "ph_sizeInMemory m p = read64 m (p + 40)"

record ELFInfo =
  executiveSize :: u64
  executiveBase :: u64

section \<open>Validation\<close>

definition IsValidELF :: "mem \<Rightarrow> ptr \<Rightarrow> bool" where
  "IsValidELF m header \<longleftrightarrow> bytes_at m header (length VALID_ELF_IDENT) = VALID_ELF_IDENT"

definition IsDYNELF :: "mem \<Rightarrow> ptr \<Rightarrow> bool" where
  "IsDYNELF m header \<longleftrightarrow> elf_type m header = ET_DYN"

definition ValidateELF :: "mem \<Rightarrow> ptr \<Rightarrow> bool" where
  "ValidateELF m elf \<longleftrightarrow> IsValidELF m elf \<and> IsDYNELF m elf"

section \<open>Size of the image\<close>

lemma countdown: "0 < h - 1 \<Longrightarrow> unat (h - 2) < unat (h - 1 :: u32)"
proof -
  assume "0 < h - 1"
  then have "h - 1 \<noteq> 0" "0 < unat (h - 1)" by (auto simp: word_less_nat_alt)
  then have "unat (h - 1 - 1) = unat (h - 1) - 1" by (intro unat_minus_one)
  with \<open>0 < unat (h - 1)\<close> show ?thesis by simp
qed

text \<open>\<open>do { ... } while( --headersLeft > 0 )\<close> with the pair \<open>(highestMem, lowestMem)\<close>.\<close>

function RetrieveELFInfo_loop ::
    "(u64 \<Rightarrow> u64 \<Rightarrow> u64) \<Rightarrow> (u64 \<Rightarrow> u64 \<Rightarrow> u64) \<Rightarrow> mem \<Rightarrow> ptr \<Rightarrow> ptr \<Rightarrow> u32 \<Rightarrow> u64 \<times> u64 \<Rightarrow> u64 \<times> u64" where
  "RetrieveELFInfo_loop mx mn m elf program headersLeft hl =
     (let hl' = (if ph_type m program = PT_LOAD
                 then (mx (fst hl) (ph_vAddr m program + ph_sizeInMemory m program), mn (snd hl) (ph_vAddr m program))
                 else hl);
          program' = program + ucast (elf_programHeaderSize m elf)
      in if headersLeft - 1 > 0 then RetrieveELFInfo_loop mx mn m elf program' (headersLeft - 1) hl' else hl')"
  by pat_completeness auto
termination
  by (relation "measure (\<lambda>(mx, mn, m, elf, program, h, hl). unat (h - 1))")
    (auto simp: countdown)

declare RetrieveELFInfo_loop.simps [simp del]

definition RetrieveELFInfo :: "(u64 \<Rightarrow> u64 \<Rightarrow> u64) \<Rightarrow> (u64 \<Rightarrow> u64 \<Rightarrow> u64) \<Rightarrow> mem \<Rightarrow> ptr \<Rightarrow> ELFInfo" where
  "RetrieveELFInfo mx mn m elf =
     (let program = elf + elf_programHeaderOffset m elf;
          (highestMem, lowestMem) =
            RetrieveELFInfo_loop mx mn m elf program (ucast (elf_programHeaderCount m elf)) (0, - 1)
      in \<lparr>executiveSize = highestMem - lowestMem, executiveBase = lowestMem\<rparr>)"

section \<open>Loading\<close>

definition memset :: "mem \<Rightarrow> ptr \<Rightarrow> u8 \<Rightarrow> u64 \<Rightarrow> mem" where
  "memset m p c n = (\<lambda>q. if q - p < n then c else m q)"

definition memcpy :: "mem \<Rightarrow> ptr \<Rightarrow> ptr \<Rightarrow> u64 \<Rightarrow> mem" where
  "memcpy m dst src n = (\<lambda>q. if q - dst < n then m (src + (q - dst)) else m q)"

definition load_segment :: "mem \<Rightarrow> ptr \<Rightarrow> ptr \<Rightarrow> u64 \<Rightarrow> ptr \<Rightarrow> mem" where
  "load_segment m elf trg base program =
     (if ph_type m program = PT_LOAD
      then let loadAddr = trg + ph_vAddr m program - base;
               m1 = (if ph_sizeInMemory m program > ph_sizeInFile m program
                     then memset m (loadAddr + ph_sizeInFile m program) 0
                            (ph_sizeInMemory m program - ph_sizeInFile m program)
                     else m)
        in memcpy m1 loadAddr (elf + ph_dataOffset m1 program) (ph_sizeInFile m1 program)
      else m)"

function LoadELF_loop :: "mem \<Rightarrow> ptr \<Rightarrow> ptr \<Rightarrow> u64 \<Rightarrow> ptr \<Rightarrow> u32 \<Rightarrow> mem" where
  "LoadELF_loop m elf trg base program headersLeft =
     (let m' = load_segment m elf trg base program;
          program' = program + ucast (elf_programHeaderSize m' elf)
      in if headersLeft - 1 > 0 then LoadELF_loop m' elf trg base program' (headersLeft - 1) else m')"
  by pat_completeness auto
termination
  by (relation "measure (\<lambda>(m, elf, trg, base, program, h). unat (h - 1))")
    (auto simp: countdown)

declare LoadELF_loop.simps [simp del]

definition LoadELF :: "mem \<Rightarrow> ptr \<Rightarrow> ptr \<Rightarrow> ELFInfo \<Rightarrow> mem \<times> ptr" where
  "LoadELF m elf trg info =
     (let base = executiveBase info;
          program = elf + elf_programHeaderOffset m elf;
          m' = LoadELF_loop m elf trg base program (ucast (elf_programHeaderCount m elf))
      in (m', trg + elf_entry m' elf - base))"

section \<open>The loops as iterations\<close>

text \<open>The program headers, and the number of times the loops run: 2^32 times for a count of 0.\<close>

definition ph :: "mem \<Rightarrow> ptr \<Rightarrow> nat \<Rightarrow> ptr" where
  "ph m elf i = elf + elf_programHeaderOffset m elf + of_nat i * ucast (elf_programHeaderSize m elf)"

definition iterations :: "u32 \<Rightarrow> nat" where
  "iterations h = (if h = 0 then 2 ^ 32 else unat h)"

definition info_step :: "(u64 \<Rightarrow> u64 \<Rightarrow> u64) \<Rightarrow> (u64 \<Rightarrow> u64 \<Rightarrow> u64) \<Rightarrow> mem \<Rightarrow> u64 \<times> u64 \<Rightarrow> ptr \<Rightarrow> u64 \<times> u64" where
  "info_step mx mn m hl p = (if ph_type m p = PT_LOAD
     then (mx (fst hl) (ph_vAddr m p + ph_sizeInMemory m p), mn (snd hl) (ph_vAddr m p)) else hl)"

lemma iterations_step:
  "h - 1 > 0 \<Longrightarrow> iterations h = Suc (iterations (h - 1))" "\<not> h - 1 > 0 \<Longrightarrow> iterations h = 1"
proof -
  have u: "unat h = Suc (unat (h - 1))" if "h \<noteq> 0" using that by (simp add: unat_minus_one unat_gt_0)
  show "iterations h = Suc (iterations (h - 1))" if "h - 1 > 0"
  proof (cases "h = 0")
    case True
    then show ?thesis by (simp add: iterations_def unsigned_minus_1_eq_mask mask_eq_exp_minus_1)
  next
    case False
    then show ?thesis using u that by (simp add: iterations_def word_gt_0)
  qed
  show "iterations h = 1" if "\<not> h - 1 > 0"
  proof -
    have "h = 1" using that by (simp add: word_gt_0)
    then show ?thesis by (simp add: iterations_def)
  qed
qed

lemma RetrieveELFInfo_loop_foldl:
  "RetrieveELFInfo_loop mx mn m elf (ph m elf i) h hl =
     foldl (info_step mx mn m) hl (map (ph m elf) [i..<i + iterations h])"
proof (induction "unat (h - 1)" arbitrary: i h hl rule: less_induct)
  case less
  define hl' where "hl' = info_step mx mn m hl (ph m elf i)"
  have nxt: "ph m elf i + ucast (elf_programHeaderSize m elf) = ph m elf (Suc i)"
    by (simp add: ph_def algebra_simps)
  show ?case
  proof (cases "h - 1 > 0")
    case True
    then have "unat (h - 1 - 1) < unat (h - 1)" using countdown [of h] by simp
    then have "RetrieveELFInfo_loop mx mn m elf (ph m elf (Suc i)) (h - 1) hl' =
        foldl (info_step mx mn m) hl' (map (ph m elf) [Suc i..<Suc i + iterations (h - 1)])"
      by (rule less)
    with True show ?thesis
      by (subst RetrieveELFInfo_loop.simps)
        (simp add: Let_def nxt iterations_step(1) upt_add_Suc hl'_def info_step_def del: upt_Suc)
  next
    case False
    then show ?thesis
      by (subst RetrieveELFInfo_loop.simps) (simp add: Let_def iterations_step(2) info_step_def)
  qed
qed

section \<open>Bounds of the image\<close>

definition is_load :: "mem \<Rightarrow> ptr \<Rightarrow> bool" where
  "is_load m p \<longleftrightarrow> ph_type m p = PT_LOAD"

lemma foldl_info_bounds:
  assumes "(hi, lo) = foldl (info_step max min m) hl ps"
  shows "fst hl \<le> hi \<and> lo \<le> snd hl \<and> (\<forall>p\<in>set ps. is_load m p \<longrightarrow> ph_vAddr m p + ph_sizeInMemory m p \<le> hi \<and> lo \<le> ph_vAddr m p)"
  using assms
proof (induction ps arbitrary: hl)
  case Nil
  then show ?case by (cases hl) simp
next
  case (Cons p ps)
  have "(hi, lo) = foldl (info_step max min m) (info_step max min m hl p) ps" using Cons.prems by simp
  from Cons.IH [OF this] show ?case
    by (cases "ph_type m p = PT_LOAD") (auto simp: info_step_def is_load_def)
qed

lemma foldl_info_attained:
  assumes "(hi, lo) = foldl (info_step max min m) hl ps" "hl = (0, - 1)" "\<exists>p\<in>set ps. is_load m p"
  shows "\<exists>p\<in>set ps. is_load m p \<and> lo = ph_vAddr m p"
proof -
  have gen: "lo = snd hl \<or> (\<exists>p\<in>set ps. is_load m p \<and> lo = ph_vAddr m p)"
    if "(hi, lo) = foldl (info_step max min m) hl ps" for hl ps
    using that
  proof (induction ps arbitrary: hl)
    case Nil
    then show ?case by (cases hl) simp
  next
    case (Cons p ps)
    have "(hi, lo) = foldl (info_step max min m) (info_step max min m hl p) ps" using Cons.prems by simp
    from Cons.IH [OF this] show ?case by (auto simp: info_step_def is_load_def min_def split: if_splits)
  qed
  obtain p where p: "p \<in> set ps" "is_load m p" using assms(3) by blast
  from gen [OF assms(1)] show ?thesis
  proof
    assume "lo = snd hl"
    then have "lo = - 1" by (simp add: assms(2))
    moreover have "lo \<le> ph_vAddr m p" using foldl_info_bounds [OF assms(1)] p by blast
    ultimately have "ph_vAddr m p = - 1" by (metis word_order.extremum_unique)
    with p \<open>lo = - 1\<close> show ?thesis by auto
  qed
qed

section \<open>Writing one segment\<close>

text \<open>The bytes of a segment in the target, and what they should hold.\<close>

definition seg_addr :: "mem \<Rightarrow> ptr \<Rightarrow> u64 \<Rightarrow> ptr \<Rightarrow> ptr" where
  "seg_addr m trg base p = trg + ph_vAddr m p - base"

definition seg_bytes :: "mem \<Rightarrow> ptr \<Rightarrow> u64 \<Rightarrow> ptr \<Rightarrow> ptr set" where
  "seg_bytes m trg base p = {q. q - seg_addr m trg base p < ph_sizeInMemory m p}"

definition seg_content :: "mem \<Rightarrow> ptr \<Rightarrow> ptr \<Rightarrow> u64 \<Rightarrow> u8" where
  "seg_content m elf p x = (if x < ph_sizeInFile m p then m (elf + ph_dataOffset m p + x) else 0)"

lemma tail_range:
  assumes "fs \<le> ms"
  shows "x - fs < ms - fs \<longleftrightarrow> fs \<le> x \<and> x < (ms :: u64)"
proof -
  have ms: "unat (ms - fs) = unat ms - unat fs" using assms by (simp add: unat_sub word_le_nat_alt)
  show ?thesis
  proof (cases "fs \<le> x")
    case True
    then have "unat (x - fs) = unat x - unat fs" by (simp add: unat_sub word_le_nat_alt)
    with True assms ms show ?thesis by (auto simp: word_less_nat_alt word_le_nat_alt)
  next
    case False
    then have "unat (x - fs) = 2 ^ 64 + unat x - unat fs"
      by (simp add: unat_sub_if_size word_size word_le_nat_alt)
    moreover have "unat ms < 2 ^ 64" using unsigned_less [of ms] by simp
    ultimately have "\<not> x - fs < ms - fs" using ms assms by (simp add: word_less_nat_alt word_le_nat_alt)
    with False show ?thesis by simp
  qed
qed

text \<open>The headers and the file are not among the bytes written.\<close>

definition header_bytes :: "ptr \<Rightarrow> nat \<Rightarrow> ptr set" where
  "header_bytes p n = (\<lambda>i. p + of_nat i) ` {..<n}"

definition data_bytes :: "mem \<Rightarrow> ptr \<Rightarrow> ptr \<Rightarrow> ptr set" where
  "data_bytes m elf p = {q. q - (elf + ph_dataOffset m p) < ph_sizeInFile m p}"

definition agree :: "ptr set \<Rightarrow> mem \<Rightarrow> mem \<Rightarrow> bool" where
  "agree F m m' \<longleftrightarrow> (\<forall>q\<in>F. m q = m' q)"

lemma read_le_agree:
  assumes "agree F m m'" "header_bytes b n \<subseteq> F" "k + c \<le> n"
  shows "read_le c m (b + of_nat k) = read_le c m' (b + of_nat k)"
proof (rule read_le_cong)
  fix i assume "i < c"
  then have "b + of_nat (k + i) \<in> header_bytes b n" using assms(3) by (auto simp: header_bytes_def simp del: of_nat_add)
  then show "m (b + of_nat k + of_nat i) = m' (b + of_nat k + of_nat i)"
    using assms(1,2) by (auto simp: agree_def add.assoc)
qed

lemma ph_fields_agree:
  assumes "agree F m m'" "header_bytes p 56 \<subseteq> F"
  shows "ph_type m p = ph_type m' p" "ph_dataOffset m p = ph_dataOffset m' p" "ph_vAddr m p = ph_vAddr m' p"
    "ph_sizeInFile m p = ph_sizeInFile m' p" "ph_sizeInMemory m p = ph_sizeInMemory m' p"
  using read_le_agree [OF assms, of 0 4] read_le_agree [OF assms, of 8 8] read_le_agree [OF assms, of 16 8]
    read_le_agree [OF assms, of 32 8] read_le_agree [OF assms, of 40 8]
  by (simp_all add: ph_type_def ph_dataOffset_def ph_vAddr_def ph_sizeInFile_def ph_sizeInMemory_def read32_def read64_def)

lemma elf_fields_agree:
  assumes "agree F m m'" "header_bytes elf 64 \<subseteq> F"
  shows "elf_entry m elf = elf_entry m' elf" "elf_programHeaderOffset m elf = elf_programHeaderOffset m' elf"
    "elf_programHeaderSize m elf = elf_programHeaderSize m' elf"
  using read_le_agree [OF assms, of 24 8] read_le_agree [OF assms, of 32 8] read_le_agree [OF assms, of 54 2]
  by (simp_all add: elf_entry_def elf_programHeaderOffset_def elf_programHeaderSize_def read16_def read64_def)

text \<open>The part of a segment that is not in the file is cleared first.\<close>

lemma clear_tail:
  assumes "fs \<le> ms"
  shows "(if ms > fs then memset m (a + fs) 0 (ms - fs) else m) q = (if fs \<le> q - a \<and> q - a < ms then 0 else m q)"
proof -
  have e: "q - (a + fs) = q - a - fs" by simp
  have "q - (a + fs) < ms - fs \<longleftrightarrow> fs \<le> q - a \<and> q - a < ms" unfolding e by (rule tail_range [OF assms])
  then show ?thesis by (auto simp: memset_def)
qed

lemma load_segment_eq:
  assumes ag: "agree F m m0" and hd: "header_bytes p 56 \<subseteq> F" and load: "is_load m0 p"
    and data: "data_bytes m0 elf p \<subseteq> F" and dis: "seg_bytes m0 trg base p \<inter> F = {}"
    and sz: "ph_sizeInFile m0 p \<le> ph_sizeInMemory m0 p"
  shows "load_segment m elf trg base p = (\<lambda>q. if q \<in> seg_bytes m0 trg base p
    then seg_content m0 elf p (q - seg_addr m0 trg base p) else m q)"
proof -
  define a where "a = seg_addr m0 trg base p"
  define fs where "fs = ph_sizeInFile m0 p"
  define ms where "ms = ph_sizeInMemory m0 p"
  note f0 = ph_fields_agree [OF ag hd]
  define m1 where "m1 = (if ms > fs then memset m (a + fs) 0 (ms - fs) else m)"
  have m1: "m1 q = (if fs \<le> q - a \<and> q - a < ms then 0 else m q)" for q
    unfolding m1_def by (rule clear_tail) (use sz in \<open>simp add: fs_def ms_def\<close>)
  have out: "m1 q = m q" if "q \<in> F" for q
  proof -
    have "q \<notin> seg_bytes m0 trg base p" using dis that by blast
    then show ?thesis by (simp add: m1 seg_bytes_def a_def ms_def)
  qed
  have ag1: "agree F m1 m0" using ag out by (simp add: agree_def)
  note f1 = ph_fields_agree [OF ag1 hd]
  have a: "trg + ph_vAddr m p - base = a" by (simp add: a_def seg_addr_def f0)
  have e1: "(if ph_sizeInMemory m p > ph_sizeInFile m p
      then memset m (a + ph_sizeInFile m p) 0 (ph_sizeInMemory m p - ph_sizeInFile m p) else m) = m1"
    unfolding m1_def fs_def ms_def by (simp only: f0)
  have run: "load_segment m elf trg base p = memcpy m1 a (elf + ph_dataOffset m0 p) fs"
    using load f0(1) f1 unfolding load_segment_def Let_def a e1 is_load_def by (simp add: fs_def)
  show ?thesis
  proof
    fix q
    show "load_segment m elf trg base p q = (if q \<in> seg_bytes m0 trg base p
        then seg_content m0 elf p (q - seg_addr m0 trg base p) else m q)"
    proof (cases "q - a < fs")
      case True
      then have "elf + ph_dataOffset m0 p + (q - a) \<in> data_bytes m0 elf p" by (simp add: data_bytes_def fs_def)
      then have "m1 (elf + ph_dataOffset m0 p + (q - a)) = m0 (elf + ph_dataOffset m0 p + (q - a))"
        using ag1 data by (auto simp: agree_def)
      moreover have "q - a < ms" using True sz by (simp add: fs_def ms_def)
      ultimately show ?thesis
        using True unfolding run
        by (simp add: memcpy_def seg_bytes_def seg_content_def a_def [symmetric] ms_def [symmetric] fs_def [symmetric])
    next
      case False
      then show ?thesis
        unfolding run
        by (auto simp: memcpy_def m1 seg_bytes_def seg_content_def a_def [symmetric] ms_def [symmetric] fs_def [symmetric])
    qed
  qed
qed

section \<open>Writing all segments\<close>

lemma LoadELF_loop_foldl:
  assumes stable: "\<And>m. P m \<Longrightarrow> elf_programHeaderSize m elf = elf_programHeaderSize m0 elf"
    and step: "\<And>m j. P m \<Longrightarrow> i \<le> j \<Longrightarrow> j < i + iterations h \<Longrightarrow> P (load_segment m elf trg base (ph m0 elf j))"
    and "P m"
  shows "LoadELF_loop m elf trg base (ph m0 elf i) h =
      foldl (\<lambda>m p. load_segment m elf trg base p) m (map (ph m0 elf) [i..<i + iterations h])"
  using step assms(3)
proof (induction "unat (h - 1)" arbitrary: i h m rule: less_induct)
  case less
  define m' where "m' = load_segment m elf trg base (ph m0 elf i)"
  have it: "0 < iterations h" by (cases "h - 1 > 0") (simp_all add: iterations_step)
  then have "P m'" unfolding m'_def using less.prems(1) [of m i] less.prems(2) by simp
  then have nxt: "ph m0 elf i + ucast (elf_programHeaderSize m' elf) = ph m0 elf (Suc i)"
    using stable by (simp add: ph_def algebra_simps)
  show ?case
  proof (cases "h - 1 > 0")
    case True
    then have "unat (h - 1 - 1) < unat (h - 1)" using countdown [of h] by simp
    then have "LoadELF_loop m' elf trg base (ph m0 elf (Suc i)) (h - 1) =
        foldl (\<lambda>m p. load_segment m elf trg base p) m' (map (ph m0 elf) [Suc i..<Suc i + iterations (h - 1)])"
      using less.prems(1) \<open>P m'\<close> iterations_step(1) [OF True] by (intro less.hyps) auto
    with True show ?thesis
      by (subst LoadELF_loop.simps)
        (simp add: Let_def m'_def [symmetric] nxt iterations_step(1) upt_add_Suc del: upt_Suc)
  next
    case False
    then show ?thesis
      by (subst LoadELF_loop.simps) (simp add: Let_def iterations_step(2) m'_def)
  qed
qed

text \<open>A well-formed image for a target: the file is apart from the target and the segments from each other.\<close>

definition image_ok :: "mem \<Rightarrow> ptr \<Rightarrow> ptr \<Rightarrow> u64 \<Rightarrow> nat \<Rightarrow> ptr set \<Rightarrow> bool" where
  "image_ok m elf trg base n F \<longleftrightarrow> header_bytes elf 64 \<subseteq> F \<and>
     (\<forall>i<n. header_bytes (ph m elf i) 56 \<subseteq> F) \<and>
     (\<forall>i<n. is_load m (ph m elf i) \<longrightarrow> data_bytes m elf (ph m elf i) \<subseteq> F \<and>
        seg_bytes m trg base (ph m elf i) \<inter> F = {} \<and>
        ph_sizeInFile m (ph m elf i) \<le> ph_sizeInMemory m (ph m elf i)) \<and>
     (\<forall>i<n. \<forall>j<i. is_load m (ph m elf i) \<and> is_load m (ph m elf j) \<longrightarrow>
        seg_bytes m trg base (ph m elf i) \<inter> seg_bytes m trg base (ph m elf j) = {})"

lemma load_step:
  assumes ok: "image_ok m0 elf trg base n F" and j: "j < n" and ag: "agree F m m0"
  shows "load_segment m elf trg base (ph m0 elf j) = (\<lambda>q.
      if is_load m0 (ph m0 elf j) \<and> q \<in> seg_bytes m0 trg base (ph m0 elf j)
      then seg_content m0 elf (ph m0 elf j) (q - seg_addr m0 trg base (ph m0 elf j)) else m q)"
    "agree F (load_segment m elf trg base (ph m0 elf j)) m0"
proof -
  have hd: "header_bytes (ph m0 elf j) 56 \<subseteq> F" using ok j by (simp add: image_ok_def)
  have eq: "load_segment m elf trg base (ph m0 elf j) = (\<lambda>q.
      if is_load m0 (ph m0 elf j) \<and> q \<in> seg_bytes m0 trg base (ph m0 elf j)
      then seg_content m0 elf (ph m0 elf j) (q - seg_addr m0 trg base (ph m0 elf j)) else m q)"
  proof (cases "is_load m0 (ph m0 elf j)")
    case True
    then show ?thesis
      using load_segment_eq [OF ag hd True, of elf trg base] ok j by (simp add: image_ok_def)
  next
    case False
    then have "ph_type m (ph m0 elf j) \<noteq> PT_LOAD" using ph_fields_agree(1) [OF ag hd] by (simp add: is_load_def)
    with False show ?thesis by (simp add: load_segment_def)
  qed
  then show "load_segment m elf trg base (ph m0 elf j) = (\<lambda>q.
      if is_load m0 (ph m0 elf j) \<and> q \<in> seg_bytes m0 trg base (ph m0 elf j)
      then seg_content m0 elf (ph m0 elf j) (q - seg_addr m0 trg base (ph m0 elf j)) else m q)" .
  show "agree F (load_segment m elf trg base (ph m0 elf j)) m0"
    unfolding eq agree_def using ok j ag by (fastforce simp: image_ok_def agree_def)
qed

lemma foldl_load:
  assumes ok: "image_ok m0 elf trg base n F" and k: "k \<le> n"
    and r: "r = foldl (\<lambda>m p. load_segment m elf trg base p) m0 (map (ph m0 elf) [0..<k])"
  shows "agree F r m0 \<and>
    (\<forall>i<k. is_load m0 (ph m0 elf i) \<longrightarrow> (\<forall>q\<in>seg_bytes m0 trg base (ph m0 elf i).
       r q = seg_content m0 elf (ph m0 elf i) (q - seg_addr m0 trg base (ph m0 elf i)))) \<and>
    (\<forall>q. (\<forall>i<k. is_load m0 (ph m0 elf i) \<longrightarrow> q \<notin> seg_bytes m0 trg base (ph m0 elf i)) \<longrightarrow> r q = m0 q)"
  using k r
proof (induction k arbitrary: r)
  case 0
  then show ?case by (simp add: agree_def)
next
  case (Suc k)
  define r0 where "r0 = foldl (\<lambda>m p. load_segment m elf trg base p) m0 (map (ph m0 elf) [0..<k])"
  have IH: "agree F r0 m0"
    "\<And>i q. i < k \<Longrightarrow> is_load m0 (ph m0 elf i) \<Longrightarrow> q \<in> seg_bytes m0 trg base (ph m0 elf i) \<Longrightarrow>
       r0 q = seg_content m0 elf (ph m0 elf i) (q - seg_addr m0 trg base (ph m0 elf i))"
    "\<And>q. (\<forall>i<k. is_load m0 (ph m0 elf i) \<longrightarrow> q \<notin> seg_bytes m0 trg base (ph m0 elf i)) \<Longrightarrow> r0 q = m0 q"
    using Suc.IH [OF _ r0_def] Suc.prems(1) by auto
  have r: "r = load_segment r0 elf trg base (ph m0 elf k)" using Suc.prems(2) by (simp add: r0_def)
  have kn: "k < n" using Suc.prems(1) by simp
  note st = load_step [OF ok kn IH(1)]
  have dis: "seg_bytes m0 trg base (ph m0 elf k) \<inter> seg_bytes m0 trg base (ph m0 elf i) = {}"
    if "i < k" "is_load m0 (ph m0 elf k)" "is_load m0 (ph m0 elf i)" for i
    using ok kn that by (simp add: image_ok_def)
  have "r q = seg_content m0 elf (ph m0 elf i) (q - seg_addr m0 trg base (ph m0 elf i))"
    if "i < Suc k" "is_load m0 (ph m0 elf i)" "q \<in> seg_bytes m0 trg base (ph m0 elf i)" for i q
  proof (cases "i = k")
    case True
    then show ?thesis using that st(1) by (simp add: r)
  next
    case False
    then have "i < k" using that(1) by simp
    moreover have "\<not> (is_load m0 (ph m0 elf k) \<and> q \<in> seg_bytes m0 trg base (ph m0 elf k))"
      using dis [OF \<open>i < k\<close> _ that(2)] that(3) by blast
    ultimately show ?thesis using IH(2) that(2,3) st(1) by (auto simp: r)
  qed
  moreover have "r q = m0 q" if q: "\<forall>i<Suc k. is_load m0 (ph m0 elf i) \<longrightarrow> q \<notin> seg_bytes m0 trg base (ph m0 elf i)" for q
  proof -
    have "r0 q = m0 q" using q by (intro IH(3)) auto
    moreover have "\<not> (is_load m0 (ph m0 elf k) \<and> q \<in> seg_bytes m0 trg base (ph m0 elf k))" using q by blast
    ultimately show ?thesis using st(1) by (auto simp: r)
  qed
  ultimately show ?case using st(2) unfolding r [symmetric] by blast
qed

lemma LoadELF_foldl:
  assumes ok: "image_ok m elf trg (executiveBase info) n F" and n: "n = iterations (ucast (elf_programHeaderCount m elf))"
  shows "fst (LoadELF m elf trg info) =
    foldl (\<lambda>m p. load_segment m elf trg (executiveBase info) p) m (map (ph m elf) [0..<n])"
proof -
  have start: "ph m elf 0 = elf + elf_programHeaderOffset m elf" by (simp add: ph_def)
  have hd: "header_bytes elf 64 \<subseteq> F" using ok by (simp add: image_ok_def)
  have "LoadELF_loop m elf trg (executiveBase info) (ph m elf 0) (ucast (elf_programHeaderCount m elf)) =
      foldl (\<lambda>m p. load_segment m elf trg (executiveBase info) p) m
        (map (ph m elf) [0..<0 + iterations (ucast (elf_programHeaderCount m elf))])"
  proof (rule LoadELF_loop_foldl [where P = "\<lambda>x. agree F x m"])
    show "elf_programHeaderSize x elf = elf_programHeaderSize m elf" if "agree F x m" for x
      by (rule elf_fields_agree(3) [OF that hd])
    show "agree F (load_segment x elf trg (executiveBase info) (ph m elf j)) m"
      if "agree F x m" "0 \<le> j" "j < 0 + iterations (ucast (elf_programHeaderCount m elf))" for x j
      using that n by (intro load_step(2) [OF ok]) auto
    show "agree F m m" by (simp add: agree_def)
  qed
  then show ?thesis by (simp add: LoadELF_def Let_def start n)
qed

section \<open>Properties\<close>

text \<open>
  The buffer of \<open>executiveSize\<close> bytes that \<open>main\<close> allocates is large enough. With \<open>max\<close> and \<open>min\<close> as
  usual and segments that do not wrap around, every PT_LOAD segment lies within the first
  \<open>executiveSize\<close> bytes of the target when it is placed relative to \<open>executiveBase\<close>.
\<close>

lemma RetrieveELFInfo_covers:
  assumes "\<forall>a b. mx a b = max a b" and "\<forall>a b. mn a b = min a b"
    and "info = RetrieveELFInfo mx mn m elf"
    and "i < iterations (ucast (elf_programHeaderCount m elf))" and "is_load m (ph m elf i)"
    and "unat (ph_vAddr m (ph m elf i)) + unat (ph_sizeInMemory m (ph m elf i)) < 2 ^ 64"
  shows "seg_bytes m trg (executiveBase info) (ph m elf i) \<subseteq> {q. q - trg < executiveSize info}"
proof -
  define n where "n = iterations (ucast (elf_programHeaderCount m elf))"
  have mm: "mx = max" "mn = min" using assms(1,2) by (auto simp: fun_eq_iff)
  obtain hi lo where hl: "(hi, lo) = foldl (info_step max min m) (0, - 1) (map (ph m elf) [0..<n])"
    by (metis surj_pair)
  have "RetrieveELFInfo_loop max min m elf (ph m elf 0) (ucast (elf_programHeaderCount m elf)) (0, - 1) = (hi, lo)"
    using hl RetrieveELFInfo_loop_foldl [of max min m elf 0] by (simp add: n_def)
  then have info: "executiveSize info = hi - lo" "executiveBase info = lo"
    using assms(3) by (simp_all add: mm RetrieveELFInfo_def ph_def Let_def)
  define v where "v = ph_vAddr m (ph m elf i)"
  define ms where "ms = ph_sizeInMemory m (ph m elf i)"
  have "ph m elf i \<in> set (map (ph m elf) [0..<n])" using assms(4) by (simp add: n_def)
  then have b: "v + ms \<le> hi" "lo \<le> v" using foldl_info_bounds [OF hl] assms(5) by (auto simp: v_def ms_def)
  have w: "unat (v + ms) = unat v + unat ms" "unat v + unat ms < 2 ^ 64"
    using assms(6) by (simp_all add: v_def ms_def unat_word_ariths)
  show ?thesis
  proof
    fix q assume "q \<in> seg_bytes m trg (executiveBase info) (ph m elf i)"
    then have y: "q - (trg + v - lo) < ms" by (simp add: seg_bytes_def seg_addr_def info v_def ms_def)
    define y where "y = q - (trg + v - lo)"
    have "unat (v - lo) = unat v - unat lo" "unat (hi - lo) = unat hi - unat lo"
      using b w by (auto simp: unat_sub word_le_nat_alt)
    moreover have "unat y < unat ms" "unat v + unat ms \<le> unat hi" "unat lo \<le> unat v"
      using y b w by (auto simp: y_def word_less_nat_alt word_le_nat_alt)
    moreover have "q - trg = y + (v - lo)" by (simp add: y_def)
    ultimately have "unat (q - trg) < unat (hi - lo)"
      using w(2) by (simp add: unat_word_ariths)
    then show "q \<in> {q. q - trg < executiveSize info}" by (simp add: info word_less_nat_alt)
  qed
qed

definition ex_elf :: mem where
  "ex_elf = (\<lambda>_. 0)(0x20 := 64, 0x36 := 56, 0x38 := 1, 0x18 := 5,
     0x40 := 1, 0x48 := 0x80, 0x50 := 0x20, 0x60 := 2, 0x68 := 4, 0x80 := 11, 0x81 := 22)"

lemma ex_elf_fields:
  "ph ex_elf 0 0 = 0x40" "iterations (ucast (elf_programHeaderCount ex_elf 0)) = 1" "is_load ex_elf 0x40"
  "ph_vAddr ex_elf 0x40 = 0x20" "ph_sizeInMemory ex_elf 0x40 = 4" "ph_sizeInFile ex_elf 0x40 = 2"
  "ph_dataOffset ex_elf 0x40 = 0x80"
  by (simp_all add: ex_elf_def ph_def elf_programHeaderOffset_def elf_programHeaderCount_def iterations_def is_load_def
      ph_type_def ph_vAddr_def ph_sizeInMemory_def ph_sizeInFile_def ph_dataOffset_def PT_LOAD_def
      read64_halves read32_bytes read16_bytes)

lemma ex_elf_info: "RetrieveELFInfo max min ex_elf 0 = \<lparr>executiveSize = 4, executiveBase = 0x20\<rparr>"
proof -
  have "RetrieveELFInfo_loop max min ex_elf 0 0x40 1 (0, - 1) = (0x24, 0x20)"
    by (subst RetrieveELFInfo_loop.simps) (simp add: ex_elf_fields [unfolded is_load_def])
  moreover have "elf_programHeaderOffset ex_elf 0 = 0x40" "elf_programHeaderCount ex_elf 0 = 1"
    by (simp_all add: ex_elf_def elf_programHeaderOffset_def elf_programHeaderCount_def read64_halves read32_bytes read16_bytes)
  ultimately show ?thesis by (simp add: RetrieveELFInfo_def)
qed

lemma LoadELF_effect:
  assumes "n = iterations (ucast (elf_programHeaderCount m elf))"
    and "image_ok m elf trg (executiveBase info) n F" and "LoadELF m elf trg info = (m', entry)"
  shows "entry = trg + elf_entry m elf - executiveBase info \<and>
    (\<forall>i<n. is_load m (ph m elf i) \<longrightarrow> (\<forall>q\<in>seg_bytes m trg (executiveBase info) (ph m elf i).
       m' q = seg_content m elf (ph m elf i) (q - seg_addr m trg (executiveBase info) (ph m elf i)))) \<and>
    (\<forall>q. (\<forall>i<n. is_load m (ph m elf i) \<longrightarrow> q \<notin> seg_bytes m trg (executiveBase info) (ph m elf i)) \<longrightarrow> m' q = m q)"
proof -
  have m': "m' = foldl (\<lambda>m p. load_segment m elf trg (executiveBase info) p) m (map (ph m elf) [0..<n])"
    using LoadELF_foldl [OF assms(2,1)] assms(3) by simp
  note res = foldl_load [OF assms(2) order_refl m']
  have "header_bytes elf 64 \<subseteq> F" using assms(2) by (simp add: image_ok_def)
  then have "elf_entry m' elf = elf_entry m elf" using elf_fields_agree(1) res by blast
  moreover have "entry = trg + elf_entry m' elf - executiveBase info"
    using assms(3) by (auto simp: LoadELF_def Let_def)
  ultimately show ?thesis using res by simp
qed

text \<open>
  C13: \<open>LoadELF\<close> loads the image. If the file lies apart from the target, each segment is at most as long in
  the file as in memory and the segments are apart from each other, then after the call every
  PT_LOAD segment holds its bytes of the file followed by zeroes, no other byte of memory has
  changed, and the entry point is returned relative to the base.
\<close>

theorem LoadELF_correct:
  assumes "n = iterations (ucast (elf_programHeaderCount m elf))"
    and "image_ok m elf trg (executiveBase info) n F" and "LoadELF m elf trg info = (m', entry)"
  shows "entry = trg + elf_entry m elf - executiveBase info \<and>
    (\<forall>i<n. is_load m (ph m elf i) \<longrightarrow> (\<forall>q\<in>seg_bytes m trg (executiveBase info) (ph m elf i).
       m' q = seg_content m elf (ph m elf i) (q - seg_addr m trg (executiveBase info) (ph m elf i)))) \<and>
    (\<forall>q. (\<forall>i<n. is_load m (ph m elf i) \<longrightarrow> q \<notin> seg_bytes m trg (executiveBase info) (ph m elf i)) \<longrightarrow> m' q = m q)"
  using assms by (rule LoadELF_effect)

lemma ex_elf_seg: "seg_bytes ex_elf 0x1000 0x20 0x40 = {q. q - 0x1000 < 4}"
  by (simp add: seg_bytes_def seg_addr_def ex_elf_fields)

lemma ex_elf_image: "image_ok ex_elf 0 0x1000 0x20 1 {q. q < 0x1000}"
proof -
  define F :: "ptr set" where "F = {q. q < 0x1000}"
  have hb: "header_bytes p k \<subseteq> F" if "unat p + k \<le> 0x1000" for p k
  proof -
    have "p + of_nat i < 0x1000" if "i < k" for i
      using that \<open>unat p + k \<le> 0x1000\<close> by (simp add: word_less_nat_alt unat_word_ariths unat_of_nat take_bit_nat_eq_self)
    then show ?thesis by (auto simp: header_bytes_def F_def)
  qed
  have "\<not> q - 0x1000 < 4" if "q < (0x1000 :: ptr)" for q
  proof -
    have "unat (q - 0x1000) = 2 ^ 64 + unat q - 0x1000"
      using that by (simp add: unat_sub_if_size word_size word_le_nat_alt word_less_nat_alt)
    then show ?thesis by (simp add: word_less_nat_alt)
  qed
  then have dis: "seg_bytes ex_elf 0x1000 0x20 0x40 \<inter> F = {}" by (auto simp: ex_elf_seg F_def)
  have data: "data_bytes ex_elf 0 0x40 \<subseteq> F"
  proof
    fix q assume "q \<in> data_bytes ex_elf 0 0x40"
    then have lt: "q - 0x80 < 2" by (simp add: data_bytes_def ex_elf_fields)
    have "unat (0x80 + (q - 0x80)) < 0x1000" using lt by (subst unat_word_ariths) (simp add: word_less_nat_alt)
    then show "q \<in> F" by (simp add: F_def word_less_nat_alt)
  qed
  show ?thesis using hb dis data unfolding F_def [symmetric] by (simp add: image_ok_def ex_elf_fields)
qed

theorem LoadELF_correct_witness:
  "fst (LoadELF ex_elf 0 0x1000 \<lparr>executiveSize = 4, executiveBase = 0x20\<rparr>) 0x1001 = 22 \<and>
   fst (LoadELF ex_elf 0 0x1000 \<lparr>executiveSize = 4, executiveBase = 0x20\<rparr>) 0x1002 = 0"
proof -
  let ?info = "\<lparr>executiveSize = 4, executiveBase = 0x20\<rparr>"
  have ok: "image_ok ex_elf 0 0x1000 (executiveBase ?info) 1 {q. q < 0x1000}" using ex_elf_image by simp
  obtain m' entry where run: "LoadELF ex_elf 0 0x1000 ?info = (m', entry)" by (cases "LoadELF ex_elf 0 0x1000 ?info")
  have "(1 :: nat) = iterations (ucast (elf_programHeaderCount ex_elf 0))" by (simp add: ex_elf_fields)
  from LoadELF_correct [OF this ok run] have "\<forall>q\<in>{q. q - 0x1000 < 4}. m' q = seg_content ex_elf 0 0x40 (q - 0x1000)"
    by (simp add: ex_elf_fields ex_elf_seg) (simp add: seg_addr_def ex_elf_fields)
  then have "m' 0x1001 = 22" "m' 0x1002 = 0"
    by (simp_all add: seg_content_def ex_elf_fields) (simp add: ex_elf_def)
  with run show ?thesis by simp
qed

text \<open>
  A program header count of 0 is not handled: the loop decrements the 32-bit counter before it tests
  it, so \<open>RetrieveELFInfo\<close> goes through 2^32 program headers.
\<close>

theorem RetrieveELFInfo_count_zero:
  assumes "elf_programHeaderCount m elf = 0"
  shows "(executiveSize (RetrieveELFInfo mx mn m elf) + executiveBase (RetrieveELFInfo mx mn m elf),
     executiveBase (RetrieveELFInfo mx mn m elf)) =
    foldl (info_step mx mn m) (0, - 1) (map (ph m elf) [0..<2 ^ 32])"
proof -
  have start: "ph m elf 0 = elf + elf_programHeaderOffset m elf" by (simp add: ph_def)
  have "iterations 0 = 2 ^ 32" by (simp add: iterations_def)
  then have "RetrieveELFInfo_loop mx mn m elf (ph m elf 0) 0 (0, - 1) =
      foldl (info_step mx mn m) (0, - 1) (map (ph m elf) [0..<2 ^ 32])"
    using RetrieveELFInfo_loop_foldl [of mx mn m elf 0 0] by (simp only: add_0)
  then show ?thesis using assms unfolding RetrieveELFInfo_def start [symmetric] by (simp add: split_beta)
qed

theorem RetrieveELFInfo_count_zero_witness:
  "executiveBase (RetrieveELFInfo max min (\<lambda>_. 0) 0) =
    snd (foldl (info_step max min (\<lambda>_. 0)) (0, - 1) (map (ph (\<lambda>_. 0) 0) [0..<2 ^ 32]))"
proof -
  have "elf_programHeaderCount (\<lambda>_. 0) 0 = 0" by (simp add: elf_programHeaderCount_def read16_bytes)
  from RetrieveELFInfo_count_zero [OF this, of max min] show ?thesis by (metis snd_conv)
qed

end
