(* ===== verification/Uefi_Loader.thy ===== *)
theory Uefi_Loader
  imports Elf_Loader "HOL-Library.Monad_Syntax"
begin

text \<open>
  The boot loader of \<open>loader/utils.c\<close> and \<open>loader/loader.c\<close>. The firmware is not part of the
  sources: its services, constants and structures are the fields of the record \<open>firmware\<close>, functions
  on a firmware world \<open>'w\<close> that also holds the memory. A trap (a division by zero) is
  \<^const>\<open>None\<close>.
\<close>

section \<open>The firmware\<close>

record efi_memory_descriptor =
  PhysicalStart :: u64
  NumberOfPages :: u64
  Type :: u64

record gop_mode =
  HorizontalResolution :: u64
  VerticalResolution :: u64
  PixelsPerScanLine :: u64
  PixelFormat :: u64
  FrameBufferBase :: u64
  FrameBufferSize :: u64

record efi_constants =
  PixelBlueGreenRed :: u64
  EFI_SUCCESS :: u64
  EFI_BUFFER_TOO_SMALL :: u64
  EfiLoaderCode :: u64
  EfiLoaderData :: u64
  EfiBootServicesCode :: u64
  EfiBootServicesData :: u64
  EfiConventionalMemory :: u64
  EfiPersistentMemory :: u64
  EfiUnacceptedMemoryType :: u64
  ACPI_20_TABLE_GUID :: "u8 list"
  SIMPLE_FILE_SYSTEM_GUID :: "u8 list"
  GRAPHICS_OUTPUT_GUID :: "u8 list"

record 'w firmware =
  get_mem :: "'w \<Rightarrow> mem"
  put_mem :: "mem \<Rightarrow> 'w \<Rightarrow> 'w"
  efi :: efi_constants
  LocateProtocol :: "u8 list \<Rightarrow> 'w \<Rightarrow> 'w \<times> ptr"
  BS_AllocatePages :: "u64 \<Rightarrow> u64 \<Rightarrow> 'w \<Rightarrow> 'w \<times> ptr"
  BS_FreePages :: "ptr \<Rightarrow> u64 \<Rightarrow> 'w \<Rightarrow> 'w"
  GetMemoryMap :: "u64 \<Rightarrow> ptr \<Rightarrow> 'w \<Rightarrow> 'w \<times> u64 \<times> u64 \<times> u64"
  OpenVolume :: "ptr \<Rightarrow> 'w \<Rightarrow> 'w \<times> ptr"
  Open :: "ptr \<Rightarrow> string \<Rightarrow> 'w \<Rightarrow> 'w \<times> u64 \<times> ptr"
  GetInfo :: "ptr \<Rightarrow> u64 \<Rightarrow> ptr \<Rightarrow> 'w \<Rightarrow> 'w \<times> u64"
  Read :: "ptr \<Rightarrow> u64 \<Rightarrow> ptr \<Rightarrow> 'w \<Rightarrow> 'w \<times> u64"
  exit_bs :: "'w \<Rightarrow> 'w"
  FileSize :: "mem \<Rightarrow> ptr \<Rightarrow> u64"
  descriptor_at :: "mem \<Rightarrow> ptr \<Rightarrow> efi_memory_descriptor"
  gop_at :: "mem \<Rightarrow> ptr \<Rightarrow> gop_mode"
  ConfigurationTable :: "'w \<Rightarrow> (u8 list \<times> ptr) list"

section \<open>Utilities\<close>

record AllocatedSpace =
  Begin :: ptr
  Pages :: u64

definition INVALID_ALLOCATION :: AllocatedSpace where
  "INVALID_ALLOCATION = \<lparr>Begin = NULL, Pages = 0\<rparr>"

definition RequestProtocol :: "'w firmware \<Rightarrow> u8 list \<Rightarrow> 'w \<Rightarrow> 'w \<times> ptr" where
  "RequestProtocol fw protocol w = LocateProtocol fw protocol w"

text \<open>\<open>bytes / PAGE_SIZE + (bytes % PAGE_SIZE != 0)\<close>\<close>

definition page_count :: "u64 \<Rightarrow> u64" where
  "page_count bytes = bytes div 4096 + (if bytes mod 4096 \<noteq> 0 then 1 else 0)"

definition AllocateBytes :: "'w firmware \<Rightarrow> u64 \<Rightarrow> 'w \<Rightarrow> 'w \<times> AllocatedSpace" where
  "AllocateBytes fw bytes w =
     (let pages = page_count bytes;
          (w', buffer) = BS_AllocatePages fw (EfiLoaderData (efi fw)) pages w
      in (w', \<lparr>Begin = buffer, Pages = pages\<rparr>))"

definition AllocateLoaderBytes :: "'w firmware \<Rightarrow> u64 \<Rightarrow> 'w \<Rightarrow> 'w \<times> AllocatedSpace" where
  "AllocateLoaderBytes fw bytes w =
     (let pages = page_count bytes;
          (w', buffer) = BS_AllocatePages fw (EfiBootServicesData (efi fw)) pages w
      in (w', \<lparr>Begin = buffer, Pages = pages\<rparr>))"

definition DownloadFileToMemory :: "'w firmware \<Rightarrow> string \<Rightarrow> 'w \<Rightarrow> 'w \<times> AllocatedSpace" where
  "DownloadFileToMemory fw path w0 =
     (let (w1, simpleFS) = RequestProtocol fw (SIMPLE_FILE_SYSTEM_GUID (efi fw)) w0;
          (w2, volume) = OpenVolume fw simpleFS w1;
          (w3, status, file) = Open fw volume path w2
      in if status \<noteq> EFI_SUCCESS (efi fw) then (w3, INVALID_ALLOCATION)
         else let (w4, bufferSize) = GetInfo fw file 0 NULL w3;
                  (w5, infoBuffer) = AllocateLoaderBytes fw bufferSize w4;
                  (w6, bufferSize') = GetInfo fw file bufferSize (Begin infoBuffer) w5;
                  fileSize = FileSize fw (get_mem fw w6) (Begin infoBuffer);
                  w7 = BS_FreePages fw (Begin infoBuffer) (Pages infoBuffer) w6;
                  (w8, fileBuffer) = AllocateLoaderBytes fw fileSize w7;
                  (w9, size') = Read fw file (Pages fileBuffer * 4096) (Begin fileBuffer) w8
           in (w9, fileBuffer))"

section \<open>The root table\<close>

text \<open>
  \<open>RootTable\<close>: \<open>XSDP\<close> at 0, \<open>MemoryMapEntryCount\<close> at 8, \<open>MemoryMap\<close> at 16, \<open>Video\<close> at 24 (48 bytes),
  \<open>BlockSizeInPages\<close> at 72. A \<open>MemoryEntry\<close> has 16 bytes: \<open>Begin\<close>, 56 bits \<open>Pages\<close>, 8 bits \<open>Type\<close>.
\<close>

definition sizeof_VideoInfo :: u64 where
  "sizeof_VideoInfo = 48"

definition sizeof_RootTable :: u64 where
  "sizeof_RootTable = 8 + 8 + 8 + sizeof_VideoInfo + 8"

definition sizeof_MemoryEntry :: u64 where
  "sizeof_MemoryEntry = 16"

definition FormRootTable :: "'w firmware \<Rightarrow> 'w \<Rightarrow> ('w \<times> ptr) option" where
  "FormRootTable fw w0 =
     (let (w1, status, memoryMapSize, descriptorSize) = GetMemoryMap fw 0 NULL w0
      in if descriptorSize = 0 then None
         else let memoryMapEntryCount = memoryMapSize div descriptorSize + 6;
                  rootTableSize = sizeof_RootTable + memoryMapEntryCount * sizeof_MemoryEntry;
                  (w2, rootTable) = AllocateBytes fw rootTableSize w1;
                  root' = Begin rootTable;
                  m1 = write64 (get_mem fw w2) (root' + 8) memoryMapEntryCount;
                  m2 = write64 m1 (root' + 16) (root' + sizeof_RootTable);
                  m3 = write64 m2 (root' + 72) (Pages rootTable)
           in Some (put_mem fw m3 w2, root'))"

definition IsAvailableMemoryType :: "'w firmware \<Rightarrow> u64 \<Rightarrow> bool" where
  "IsAvailableMemoryType fw type \<longleftrightarrow>
     type = EfiBootServicesCode (efi fw) \<or> type = EfiLoaderCode (efi fw) \<or> type = EfiBootServicesData (efi fw) \<or>
     type = EfiConventionalMemory (efi fw) \<or> type = EfiPersistentMemory (efi fw) \<or> type = EfiUnacceptedMemoryType (efi fw)"

text \<open>The bit fields \<open>Pages : 56\<close> and \<open>Type : 8\<close> share the second word of an entry.\<close>

definition write_entry :: "mem \<Rightarrow> ptr \<Rightarrow> u64 \<Rightarrow> u64 \<Rightarrow> bool \<Rightarrow> mem" where
  "write_entry m p begin' pages available =
     write64 (write64 m p begin') (p + 8) (take_bit 56 pages + (if available then 2 ^ 56 else 0))"

fun RecoverMemoryMap_loop :: "'w firmware \<Rightarrow> mem \<Rightarrow> ptr \<Rightarrow> ptr \<Rightarrow> u64 \<Rightarrow> nat \<Rightarrow> nat \<Rightarrow> mem" where
  "RecoverMemoryMap_loop fw m root' descriptors descriptorSize i 0 = m"
| "RecoverMemoryMap_loop fw m root' descriptors descriptorSize i (Suc k) =
     (let d = descriptor_at fw m (descriptors + of_nat i * descriptorSize);
          m' = write_entry m (read64 m (root' + 16) + of_nat i * sizeof_MemoryEntry)
                 (PhysicalStart d) (NumberOfPages d) (IsAvailableMemoryType fw (Type d))
      in RecoverMemoryMap_loop fw m' root' descriptors descriptorSize (Suc i) k)"

definition RecoverMemoryMap :: "'w firmware \<Rightarrow> ptr \<Rightarrow> 'w \<Rightarrow> ('w \<times> bool) option" where
  "RecoverMemoryMap fw root' w0 =
     (let (w1, status, memoryMapSize, descriptorSize) = GetMemoryMap fw 0 NULL w0
      in if status \<noteq> EFI_BUFFER_TOO_SMALL (efi fw) then Some (w1, False)
         else let memoryMapSize1 = memoryMapSize + descriptorSize * 3;
                  (w2, memMap) = AllocateLoaderBytes fw memoryMapSize1 w1
           in if Begin memMap = NULL then Some (w2, False)
              else let (w3, status', memoryMapSize2, descriptorSize') = GetMemoryMap fw memoryMapSize1 (Begin memMap) w2
                in if descriptorSize' = 0 then None
                   else let count = memoryMapSize2 div descriptorSize';
                            m = RecoverMemoryMap_loop fw (get_mem fw w3) root' (Begin memMap) descriptorSize' 0 (unat count);
                            w4 = BS_FreePages fw (Begin memMap) (Pages memMap) (put_mem fw m w3)
                     in Some (w4, True))"

text \<open>\<open>VideoInfo\<close>: \<open>BufferBegin\<close>, \<open>BufferSize\<close>, \<open>Width\<close>, \<open>Height\<close>, \<open>PixelsPerScanline\<close>, \<open>IsBGR\<close>.\<close>

definition RecoverVideoMode :: "'w firmware \<Rightarrow> ptr \<Rightarrow> 'w \<Rightarrow> 'w \<times> bool" where
  "RecoverVideoMode fw root' w0 =
     (let (w1, gop) = RequestProtocol fw (GRAPHICS_OUTPUT_GUID (efi fw)) w0;
          m = get_mem fw w1;
          video = root' + 24
      in if gop = NULL then (w1, False)
         else let mode = gop_at fw m gop;
                  m1 = write64 m video (FrameBufferBase mode);
                  m2 = write64 m1 (video + 8) (FrameBufferSize mode);
                  m3 = write64 m2 (video + 16) (HorizontalResolution mode);
                  m4 = write64 m3 (video + 24) (VerticalResolution mode);
                  m5 = write64 m4 (video + 32) (PixelsPerScanLine mode);
                  m6 = m5(video + 40 := (if PixelFormat mode = PixelBlueGreenRed (efi fw) then 1 else 0))
           in (put_mem fw m6 w1, True))"

section \<open>The ACPI root pointer\<close>

definition XSDP_FIRST_PART_SIZE :: nat where
  "XSDP_FIRST_PART_SIZE = 8"

definition sizeof_XSDP :: nat where
  "sizeof_XSDP = 36"

definition RSD_PTR :: "u8 list" where
  "RSD_PTR = [82, 83, 68, 32, 80, 84, 82, 32]"

text \<open>\<open>checksum += ((uint8_t*)(root->XSDP))[i]\<close> for \<open>n\<close> bytes from the start of the table.\<close>

definition add_bytes :: "mem \<Rightarrow> ptr \<Rightarrow> nat \<Rightarrow> u8 \<Rightarrow> u8" where
  "add_bytes m p n checksum = foldl (+) checksum (bytes_at m p n)"

definition CheckXSDP :: "mem \<Rightarrow> ptr \<Rightarrow> bool" where
  "CheckXSDP m xsdp =
     (if bytes_at m xsdp 8 \<noteq> RSD_PTR then False
      else if m (xsdp + 15) \<noteq> 2 then False
      else let checksum = add_bytes m xsdp XSDP_FIRST_PART_SIZE 0
        in if checksum \<noteq> 0 then False
           else let checksum' = add_bytes m xsdp (sizeof_XSDP - XSDP_FIRST_PART_SIZE) checksum
             in if checksum' \<noteq> 0 then False else True)"

fun RecoverACPITable_loop :: "'w firmware \<Rightarrow> ptr \<Rightarrow> (u8 list \<times> ptr) list \<Rightarrow> 'w \<Rightarrow> 'w \<times> bool" where
  "RecoverACPITable_loop fw root' [] w = (w, False)"
| "RecoverACPITable_loop fw root' ((guid, table) # ts) w =
     (if guid = ACPI_20_TABLE_GUID (efi fw)
      then let m = write64 (get_mem fw w) root' table
        in (put_mem fw m w, CheckXSDP m (read64 m root'))
      else RecoverACPITable_loop fw root' ts w)"

definition RecoverACPITable :: "'w firmware \<Rightarrow> ptr \<Rightarrow> 'w \<Rightarrow> 'w \<times> bool" where
  "RecoverACPITable fw root' w = RecoverACPITable_loop fw root' (ConfigurationTable fw w) w"

section \<open>The entry point\<close>

text \<open>
  \<open>main\<close> returns an error code, or leaves the boot services and calls the kernel with the root table.
  \<open>Kernel_Entry entry root stack\<close> stands for these calls: \<open>KernelEntry( root )\<close> and, if that call returns,
  once more with the stack pointer at \<open>stack\<close>; \<open>ud2\<close> then stops the machine.
\<close>

datatype main_result = Return nat | Kernel_Entry ptr ptr ptr

definition kernel_path :: string where
  "kernel_path = CHR 0x5C # ''ELF'' @ CHR 0x5C # ''CORE'' @ CHR 0x5C # ''KERNEL.ELF''"

definition loader_main ::
    "(u64 \<Rightarrow> u64 \<Rightarrow> u64) \<Rightarrow> (u64 \<Rightarrow> u64 \<Rightarrow> u64) \<Rightarrow> 'w firmware \<Rightarrow> 'w \<Rightarrow> ('w \<times> main_result) option" where
  "loader_main mx mn fw w0 =
     (let (w1, kernel) = DownloadFileToMemory fw kernel_path w0
      in if Begin kernel = NULL \<or> \<not> ValidateELF (get_mem fw w1) (Begin kernel) then Some (w1, Return 1)
      else let kernelInfo = RetrieveELFInfo mx mn (get_mem fw w1) (Begin kernel);
               (w2, kernelTarget) = AllocateBytes fw (executiveSize kernelInfo) w1
      in if Begin kernelTarget = NULL then Some (w2, Return 2)
      else let (m, entry) = LoadELF (get_mem fw w2) (Begin kernel) (Begin kernelTarget) kernelInfo;
               (w3, stackPages) = AllocateBytes fw (4096 * 16) (put_mem fw m w2)
      in case FormRootTable fw w3 of
           None \<Rightarrow> None
         | Some (w4, root') \<Rightarrow>
             let (w5, video) = RecoverVideoMode fw root' w4
             in if \<not> video then Some (w5, Return 1)
             else let (w6, acpi) = RecoverACPITable fw root' w5
             in if \<not> acpi then Some (w6, Return 2)
             else case RecoverMemoryMap fw root' w6 of
                 None \<Rightarrow> None
               | Some (w7, map') \<Rightarrow>
                   if \<not> map' then Some (w7, Return 3)
                   else Some (exit_bs fw w7, Kernel_Entry entry root' (Begin stackPages)))"

section \<open>The allocation wrappers\<close>

lemma sizeof_RootTable_value: "sizeof_RootTable = 80"
  by (simp add: sizeof_RootTable_def sizeof_VideoInfo_def)

lemma Pages_AllocateBytes [simp]: "Pages (snd (AllocateBytes fw bytes w)) = page_count bytes"
  by (simp add: AllocateBytes_def Let_def split: prod.split)

lemma Pages_AllocateLoaderBytes [simp]: "Pages (snd (AllocateLoaderBytes fw bytes w)) = page_count bytes"
  by (simp add: AllocateLoaderBytes_def Let_def split: prod.split)

lemma unat_page_count:
  "unat (page_count bytes) = unat bytes div 4096 + (if unat bytes mod 4096 \<noteq> 0 then 1 else 0)"
proof -
  have "unat bytes < 2 ^ 64" using unsigned_less [of bytes] by simp
  then show ?thesis by (auto simp: page_count_def unat_word_ariths unat_div unat_mod word_unat_eq_iff)
qed

lemma page_count_holds:
  "unat bytes \<le> 4096 * unat (page_count bytes) \<and> 4096 * unat (page_count bytes) < unat bytes + 4096"
proof -
  obtain q r where "unat bytes = 4096 * q + r" "r < 4096"
    using mult_div_mod_eq [of 4096 "unat bytes"] mod_less_divisor [of 4096 "unat bytes"] by (metis zero_less_numeral)
  then show ?thesis by (simp add: unat_page_count)
qed

text \<open>
  \<open>AllocateBytes\<close> and \<open>AllocateLoaderBytes\<close> ask for the least number of whole pages that holds the
  requested bytes, for every 64-bit request: the rounding up cannot overflow.
\<close>

theorem AllocateBytes_pages:
  "unat bytes \<le> 4096 * unat (Pages (snd (AllocateBytes fw bytes w))) \<and>
   4096 * unat (Pages (snd (AllocateBytes fw bytes w))) < unat bytes + 4096 \<and>
   Pages (snd (AllocateLoaderBytes fw bytes w)) = Pages (snd (AllocateBytes fw bytes w))"
  using page_count_holds by simp

section \<open>Writing the memory map\<close>

definition table_bytes :: "ptr \<Rightarrow> nat \<Rightarrow> nat \<Rightarrow> ptr set" where
  "table_bytes T i j = (\<lambda>x. T + of_nat x) ` {16 * i..<16 * j}"

lemma table_bytes_mono: "i \<le> i' \<Longrightarrow> j' \<le> j \<Longrightarrow> table_bytes T i' j' \<subseteq> table_bytes T i j"
  by (auto simp: table_bytes_def)

lemma write_entry_other:
  assumes "q \<notin> table_bytes T i (Suc i)"
  shows "write_entry m (T + of_nat i * sizeof_MemoryEntry) b n a q = m q"
proof -
  have *: "q \<noteq> T + of_nat i * 16 + of_nat x" if "x < 16" for x
    using assms that by (auto simp: table_bytes_def image_iff algebra_simps dest: bspec [of _ _ "16 * i + x"])
  have "q \<noteq> T + of_nat i * 16 + 8 + of_nat x" if "x < 8" for x
    using * [of "8 + x"] that by (simp add: add.assoc)
  with * show ?thesis by (simp add: write_entry_def sizeof_MemoryEntry_def write64_other)
qed

lemma write_entry_reads:
  "read64 (write_entry m p b n a) p = b"
  "read64 (write_entry m p b n a) (p + 8) = take_bit 56 n + (if a then 2 ^ 56 else 0)"
  using apart64_offsets [of 0 8 p] by (simp_all add: write_entry_def read64_write64_apart read64_write64)

lemma word_bytes_entry:
  "word_bytes (T + of_nat i * sizeof_MemoryEntry) \<subseteq> table_bytes T i (Suc i)"
  "word_bytes (T + of_nat i * sizeof_MemoryEntry + 8) \<subseteq> table_bytes T i (Suc i)"
proof -
  have "T + of_nat i * 16 + of_nat x \<in> table_bytes T i (Suc i)" if "x < 16" for x
    unfolding table_bytes_def by (rule image_eqI [of _ _ "16 * i + x"]) (use that in \<open>simp_all add: algebra_simps\<close>)
  note * = this
  have "T + of_nat i * 16 + 8 + of_nat x \<in> table_bytes T i (Suc i)" if "x < 8" for x
    using * [of "8 + x"] that by (simp add: add.assoc)
  with * show "word_bytes (T + of_nat i * sizeof_MemoryEntry) \<subseteq> table_bytes T i (Suc i)"
    "word_bytes (T + of_nat i * sizeof_MemoryEntry + 8) \<subseteq> table_bytes T i (Suc i)"
    by (auto simp: word_bytes_def sizeof_MemoryEntry_def)
qed

lemma table_bytes_disjoint:
  assumes "i \<le> j" "j \<le> j'" "j' \<le> n" "16 * n \<le> 2 ^ 64"
  shows "table_bytes T i j \<inter> table_bytes T j j' = {}"
  unfolding table_bytes_def using assms by (intro offsets_disjoint) auto

lemma RecoverMemoryMap_loop_frame:
  assumes "word_bytes (r + 16) \<inter> table_bytes T i (i + k) = {}" "read64 m (r + 16) = T"
    "q \<notin> table_bytes T i (i + k)"
  shows "RecoverMemoryMap_loop fw m r D ds i k q = m q"
  using assms
proof (induction k arbitrary: i m)
  case (Suc k)
  define d where "d = descriptor_at fw m (D + of_nat i * ds)"
  define m' where "m' = write_entry m (T + of_nat i * sizeof_MemoryEntry)
     (PhysicalStart d) (NumberOfPages d) (IsAvailableMemoryType fw (Type d))"
  have sub: "table_bytes T i (Suc i) \<subseteq> table_bytes T i (i + Suc k)"
    "table_bytes T (Suc i) (Suc i + k) \<subseteq> table_bytes T i (i + Suc k)"
    by (simp_all add: table_bytes_mono)
  have "read64 m' (r + 16) = T"
    using Suc.prems(1,2) sub(1) unfolding m'_def
    by (subst read64_agree [of "r + 16" _ m]) (auto intro: write_entry_other)
  then have "RecoverMemoryMap_loop fw m' r D ds (Suc i) k q = m' q"
    using Suc.prems sub(2) by (intro Suc.IH) auto
  also have "\<dots> = m q" using Suc.prems(3) sub(1) by (auto simp: m'_def intro: write_entry_other)
  finally show ?case using Suc.prems(2) by (simp add: m'_def d_def Let_def)
qed simp

text \<open>
  The buffer with the descriptors does not share bytes with the table: filling the table leaves every
  descriptor as it is.
\<close>

definition descriptors_apart :: "'w firmware \<Rightarrow> mem \<Rightarrow> ptr \<Rightarrow> u64 \<Rightarrow> ptr \<Rightarrow> nat \<Rightarrow> bool" where
  "descriptors_apart fw m D ds T n \<longleftrightarrow>
     (\<forall>m'. (\<forall>q. q \<notin> table_bytes T 0 n \<longrightarrow> m' q = m q) \<longrightarrow>
        (\<forall>i<n. descriptor_at fw m' (D + of_nat i * ds) = descriptor_at fw m (D + of_nat i * ds)))"

lemma descriptors_apartD:
  assumes "descriptors_apart fw m D ds T n" "\<And>q. q \<notin> table_bytes T 0 n \<Longrightarrow> m' q = m q" "i < n"
  shows "descriptor_at fw m' (D + of_nat i * ds) = descriptor_at fw m (D + of_nat i * ds)"
  using assms unfolding descriptors_apart_def by blast

definition entry_holds :: "'w firmware \<Rightarrow> mem \<Rightarrow> ptr \<Rightarrow> efi_memory_descriptor \<Rightarrow> bool" where
  "entry_holds fw m p d \<longleftrightarrow> read64 m p = PhysicalStart d \<and>
     read64 m (p + 8) = take_bit 56 (NumberOfPages d) + (if IsAvailableMemoryType fw (Type d) then 2 ^ 56 else 0)"

lemma RecoverMemoryMap_loop_entries:
  assumes "word_bytes (r + 16) \<inter> table_bytes T 0 (i + k) = {}" "read64 m (r + 16) = T" "16 * (i + k) \<le> 2 ^ 64"
    and "descriptors_apart fw m0 D ds T (i + k)" "\<And>q. q \<notin> table_bytes T 0 (i + k) \<Longrightarrow> m q = m0 q"
    and "j \<in> {i..<i + k}"
  shows "entry_holds fw (RecoverMemoryMap_loop fw m r D ds i k) (T + of_nat j * sizeof_MemoryEntry)
    (descriptor_at fw m0 (D + of_nat j * ds))"
  using assms
proof (induction k arbitrary: i m)
  case (Suc k)
  define d where "d = descriptor_at fw m (D + of_nat i * ds)"
  define p where "p = T + of_nat i * sizeof_MemoryEntry"
  define m' where "m' = write_entry m p (PhysicalStart d) (NumberOfPages d) (IsAvailableMemoryType fw (Type d))"
  define m'' where "m'' = RecoverMemoryMap_loop fw m' r D ds (Suc i) k"
  have run: "RecoverMemoryMap_loop fw m r D ds i (Suc k) = m''"
    using Suc.prems(2) by (simp add: m''_def m'_def p_def d_def Let_def)
  have d: "d = descriptor_at fw m0 (D + of_nat i * ds)"
    unfolding d_def by (rule descriptors_apartD [OF Suc.prems(4)]) (simp_all add: Suc.prems(5))
  have sub: "table_bytes T i (Suc i) \<subseteq> table_bytes T 0 (i + Suc k)"
    "table_bytes T (Suc i) (Suc i + k) \<subseteq> table_bytes T 0 (i + Suc k)"
    by (simp_all add: table_bytes_mono)
  have other: "m' q = m q" if "q \<notin> table_bytes T i (Suc i)" for q
    using that unfolding m'_def p_def by (rule write_entry_other)
  have r: "read64 m' (r + 16) = T"
    using Suc.prems(1,2) sub(1) by (subst read64_agree [of "r + 16" _ m]) (auto intro: other)
  show ?case
  proof (cases "j = i")
    case True
    have "m'' q = m' q" if "q \<in> table_bytes T i (Suc i)" for q
      unfolding m''_def
    proof (rule RecoverMemoryMap_loop_frame [OF _ r])
      show "word_bytes (r + 16) \<inter> table_bytes T (Suc i) (Suc i + k) = {}" using Suc.prems(1) sub(2) by auto
      show "q \<notin> table_bytes T (Suc i) (Suc i + k)"
        using that table_bytes_disjoint [of i "Suc i" "Suc i + k" "i + Suc k" T] Suc.prems(3) by auto
    qed
    then have "read64 m'' p = read64 m' p" "read64 m'' (p + 8) = read64 m' (p + 8)"
      using word_bytes_entry [of T i] by (auto simp: p_def intro!: read64_agree)
    then show ?thesis unfolding run True entry_holds_def p_def [symmetric] d [symmetric]
      by (simp add: m'_def write_entry_reads)
  next
    case False
    have "entry_holds fw m'' (T + of_nat j * sizeof_MemoryEntry) (descriptor_at fw m0 (D + of_nat j * ds))"
      unfolding m''_def
    proof (rule Suc.IH)
      show "m' q = m0 q" if "q \<notin> table_bytes T 0 (Suc i + k)" for q
        using that sub(1) other [of q] Suc.prems(5) [of q] by auto
    qed (use Suc.prems(1,3,4,6) r False in auto)
    then show ?thesis by (simp only: run)
  qed
qed simp

lemma RecoverMemoryMap_effect:
  assumes "GetMemoryMap fw 0 NULL w0 = (w1, EFI_BUFFER_TOO_SMALL (efi fw), mapSize, ds)"
    and "AllocateLoaderBytes fw (mapSize + ds * 3) w1 = (w2, memMap)" "Begin memMap \<noteq> NULL"
    and "GetMemoryMap fw (mapSize + ds * 3) (Begin memMap) w2 = (w3, status, mapSize', ds')" "ds' \<noteq> 0"
    and "n = unat (mapSize' div ds')" "T = read64 (get_mem fw w3) (root' + 16)" "16 * n \<le> 2 ^ 64"
    and "word_bytes (root' + 16) \<inter> table_bytes T 0 n = {}"
    and "descriptors_apart fw (get_mem fw w3) (Begin memMap) ds' T n"
  shows "\<exists>m. RecoverMemoryMap fw root' w0 = Some (BS_FreePages fw (Begin memMap) (Pages memMap) (put_mem fw m w3), True) \<and>
    (\<forall>i<n. entry_holds fw m (T + of_nat i * sizeof_MemoryEntry)
       (descriptor_at fw (get_mem fw w3) (Begin memMap + of_nat i * ds'))) \<and>
    (\<forall>q. q \<notin> table_bytes T 0 n \<longrightarrow> m q = get_mem fw w3 q)"
proof (intro exI conjI allI impI)
  let ?m = "RecoverMemoryMap_loop fw (get_mem fw w3) root' (Begin memMap) ds' 0 n"
  show "RecoverMemoryMap fw root' w0 =
      Some (BS_FreePages fw (Begin memMap) (Pages memMap) (put_mem fw ?m w3), True)"
    using assms(1-6) by (simp add: RecoverMemoryMap_def Let_def)
  show "entry_holds fw ?m (T + of_nat i * sizeof_MemoryEntry)
       (descriptor_at fw (get_mem fw w3) (Begin memMap + of_nat i * ds'))" if "i < n" for i
    by (rule RecoverMemoryMap_loop_entries) (simp_all only: add_0 assms(7) [symmetric] assms(8-10) atLeastLessThan_iff le0 that)
  show "?m q = get_mem fw w3 q" if "q \<notin> table_bytes T 0 n" for q
    by (rule RecoverMemoryMap_loop_frame [of _ T]) (simp_all only: add_0 assms(7) [symmetric] assms(9) that not_False_eq_True)
qed

text \<open>
  If the firmware reports the map as \<open>EFI_BUFFER_TOO_SMALL\<close> at first, gives the buffer and then fills
  it, \<open>RecoverMemoryMap\<close> returns true and frees the buffer; the memory it leaves holds for each of
  the descriptors the entry with its physical start, the low 56 bits of its page count and its
  availability, and differs from the firmware's only in the bytes of these entries. This needs that
  the table and the buffer do not overlap.
\<close>

theorem RecoverMemoryMap_correct:
  assumes "GetMemoryMap fw 0 NULL w0 = (w1, EFI_BUFFER_TOO_SMALL (efi fw), mapSize, ds)"
    and "AllocateLoaderBytes fw (mapSize + ds * 3) w1 = (w2, memMap)" "Begin memMap \<noteq> NULL"
    and "GetMemoryMap fw (mapSize + ds * 3) (Begin memMap) w2 = (w3, status, mapSize', ds')" "ds' \<noteq> 0"
    and "n = unat (mapSize' div ds')" "T = read64 (get_mem fw w3) (root' + 16)" "16 * n \<le> 2 ^ 64"
    and "word_bytes (root' + 16) \<inter> table_bytes T 0 n = {}"
    and "descriptors_apart fw (get_mem fw w3) (Begin memMap) ds' T n"
  shows "\<exists>m. RecoverMemoryMap fw root' w0 = Some (BS_FreePages fw (Begin memMap) (Pages memMap) (put_mem fw m w3), True) \<and>
    (\<forall>i<n. entry_holds fw m (T + of_nat i * sizeof_MemoryEntry)
       (descriptor_at fw (get_mem fw w3) (Begin memMap + of_nat i * ds'))) \<and>
    (\<forall>q. q \<notin> table_bytes T 0 n \<longrightarrow> m q = get_mem fw w3 q)"
  using assms by (rule RecoverMemoryMap_effect)

text \<open>
  \<open>RecoverMemoryMap\<close> returns false, without a write to the root table, if the firmware does not
  answer the first request with \<open>EFI_BUFFER_TOO_SMALL\<close> or has no pages for the buffer.
\<close>

theorem RecoverMemoryMap_errors:
  assumes "GetMemoryMap fw 0 NULL w0 = (w1, status, mapSize, ds)"
    and "AllocateLoaderBytes fw (mapSize + ds * 3) w1 = (w2, memMap)"
    and "status \<noteq> EFI_BUFFER_TOO_SMALL (efi fw) \<or> Begin memMap = NULL"
  shows "RecoverMemoryMap fw root' w0 =
    Some (if status \<noteq> EFI_BUFFER_TOO_SMALL (efi fw) then w1 else w2, False)"
  using assms by (auto simp: RecoverMemoryMap_def Let_def)

section \<open>The fields of the root table\<close>

lemma table_in_block:
  assumes "80 + 16 * n \<le> k"
  shows "table_bytes (p + sizeof_RootTable) 0 n \<subseteq> block p k"
proof
  fix q assume "q \<in> table_bytes (p + sizeof_RootTable) 0 n"
  then obtain x where "x < 16 * n" "q = p + of_nat (80 + x)"
    by (auto simp: table_bytes_def sizeof_RootTable_value add.assoc)
  then show "q \<in> block p k" unfolding block_def using assms by (intro image_eqI [of _ _ "80 + x"]) auto
qed

lemma table_apart_header:
  assumes "unat a + 8 \<le> 80" "80 + 16 * n \<le> 2 ^ 64"
  shows "word_bytes (p + a) \<inter> table_bytes (p + sizeof_RootTable) 0 n = {}"
proof -
  have "table_bytes (p + sizeof_RootTable) 0 n \<subseteq> (\<lambda>x. p + of_nat x) ` {80..<80 + 16 * n}"
  proof
    fix q assume "q \<in> table_bytes (p + sizeof_RootTable) 0 n"
    then obtain x where "x < 16 * n" "q = p + of_nat (80 + x)"
      by (auto simp: table_bytes_def sizeof_RootTable_value add.assoc)
    then show "q \<in> (\<lambda>x. p + of_nat x) ` {80..<80 + 16 * n}" by (intro image_eqI [of _ _ "80 + x"]) auto
  qed
  then show ?thesis
    using word_bytes_offset [of p a] offsets_disjoint [of "unat a + 8" 80 "80 + 16 * n" "unat a" p] assms by auto
qed

lemma table_apart: "80 + 16 * n \<le> 2 ^ 64 \<Longrightarrow> word_bytes (p + 16) \<inter> table_bytes (p + sizeof_RootTable) 0 n = {}"
  by (rule table_apart_header) simp_all

lemma unat_root_table_size:
  assumes "80 + 16 * (unat n + 6) < 2 ^ 64"
  shows "unat (sizeof_RootTable + (n + 6) * sizeof_MemoryEntry) = 80 + 16 * (unat n + 6)" "unat (n + 6) = unat n + 6"
  using assms by (simp_all add: sizeof_RootTable_value sizeof_MemoryEntry_def unat_word_ariths take_bit_eq_mod)

lemma root_table_fits:
  assumes "80 + 16 * (unat n + 6) < 2 ^ 64" "AllocateBytes fw (sizeof_RootTable + (n + 6) * sizeof_MemoryEntry) w = (w', s)"
  shows "80 + 16 * (unat n + 6) \<le> 4096 * unat (Pages s)"
proof -
  have "Pages s = page_count (sizeof_RootTable + (n + 6) * sizeof_MemoryEntry)"
    using Pages_AllocateBytes [of fw "sizeof_RootTable + (n + 6) * sizeof_MemoryEntry" w] assms(2) by simp
  then show ?thesis
    using page_count_holds [of "sizeof_RootTable + (n + 6) * sizeof_MemoryEntry"] unat_root_table_size(1) [OF assms(1)] by simp
qed

lemma FormRootTable_effect:
  assumes "GetMemoryMap fw 0 NULL w0 = (w1, status, mapSize, ds)" "ds \<noteq> 0"
    and "80 + 16 * (unat (mapSize div ds) + 6) < 2 ^ 64"
    and "AllocateBytes fw (sizeof_RootTable + (mapSize div ds + 6) * sizeof_MemoryEntry) w1 = (w2, s)"
  shows "\<exists>m. FormRootTable fw w0 = Some (put_mem fw m w2, Begin s) \<and>
    unat (read64 m (Begin s + 8)) = unat (mapSize div ds) + 6 \<and>
    read64 m (Begin s + 16) = Begin s + sizeof_RootTable \<and> read64 m (Begin s + 72) = Pages s \<and>
    (\<forall>n \<le> unat (read64 m (Begin s + 8)).
       table_bytes (Begin s + sizeof_RootTable) 0 n \<subseteq> block (Begin s) (4096 * unat (Pages s)))"
proof -
  let ?p = "Begin s" and ?n = "mapSize div ds + 6"
  define m where "m = write64 (write64 (write64 (get_mem fw w2) (?p + 8) ?n) (?p + 16) (?p + sizeof_RootTable)) (?p + 72) (Pages s)"
  have r: "read64 m (?p + 8) = ?n" "read64 m (?p + 16) = ?p + sizeof_RootTable" "read64 m (?p + 72) = Pages s"
    by (simp_all add: m_def read64_write64_apart read64_write64 apart64_plus)
  have "FormRootTable fw w0 = Some (put_mem fw m w2, ?p)"
    using assms by (simp add: FormRootTable_def m_def Let_def)
  moreover have "80 + 16 * unat ?n \<le> 4096 * unat (Pages s)"
    using root_table_fits [OF assms(3,4)] unat_root_table_size(2) [OF assms(3)] by simp
  ultimately show ?thesis using r unat_root_table_size(2) [OF assms(3)] by (intro exI [of _ m]) (auto intro!: table_in_block)
qed

text \<open>
  C26: \<open>FormRootTable\<close> sizes the block for six entries more than the firmware has descriptors: unless the
  size overflows, the table it returns records the entry count, the array behind its own header and
  the block size in pages, and the header and all the entries lie inside the allocated pages.
\<close>

theorem FormRootTable_correct:
  assumes "GetMemoryMap fw 0 NULL w0 = (w1, status, mapSize, ds)" "ds \<noteq> 0"
    and "80 + 16 * (unat (mapSize div ds) + 6) < 2 ^ 64"
    and "AllocateBytes fw (sizeof_RootTable + (mapSize div ds + 6) * sizeof_MemoryEntry) w1 = (w2, s)"
  shows "\<exists>m. FormRootTable fw w0 = Some (put_mem fw m w2, Begin s) \<and>
    unat (read64 m (Begin s + 8)) = unat (mapSize div ds) + 6 \<and>
    read64 m (Begin s + 16) = Begin s + sizeof_RootTable \<and> read64 m (Begin s + 72) = Pages s \<and>
    (\<forall>n \<le> unat (read64 m (Begin s + 8)).
       table_bytes (Begin s + sizeof_RootTable) 0 n \<subseteq> block (Begin s) (4096 * unat (Pages s)))"
  using assms by (rule FormRootTable_effect)

lemma RecoverVideoMode_effect:
  assumes "RequestProtocol fw (GRAPHICS_OUTPUT_GUID (efi fw)) w0 = (w1, gop)"
  shows "if gop = NULL then RecoverVideoMode fw root' w0 = (w1, False)
    else let mode = gop_at fw (get_mem fw w1) gop; v = root' + 24 in
      \<exists>m. RecoverVideoMode fw root' w0 = (put_mem fw m w1, True) \<and>
        read64 m v = FrameBufferBase mode \<and> read64 m (v + 8) = FrameBufferSize mode \<and>
        read64 m (v + 16) = HorizontalResolution mode \<and> read64 m (v + 24) = VerticalResolution mode \<and>
        read64 m (v + 32) = PixelsPerScanLine mode \<and>
        (m (v + 40) = 1 \<longleftrightarrow> PixelFormat mode = PixelBlueGreenRed (efi fw)) \<and>
        (\<forall>q. q \<notin> block v 41 \<longrightarrow> m q = get_mem fw w1 q)"
proof (cases "gop = NULL")
  case True
  then show ?thesis using assms by (simp add: RecoverVideoMode_def)
next
  case False
  define mode v where "mode = gop_at fw (get_mem fw w1) gop" and "v = root' + 24"
  define b where "b = (if PixelFormat mode = PixelBlueGreenRed (efi fw) then 1 else 0 :: u8)"
  define m where "m = (write64 (write64 (write64 (write64 (write64 (get_mem fw w1) v (FrameBufferBase mode))
    (v + 8) (FrameBufferSize mode)) (v + 16) (HorizontalResolution mode)) (v + 24) (VerticalResolution mode))
    (v + 32) (PixelsPerScanLine mode))(v + 40 := b)"
  have run: "RecoverVideoMode fw root' w0 = (put_mem fw m w1, True)"
    using assms False by (simp add: RecoverVideoMode_def mode_def v_def m_def b_def Let_def)
  have fields: "read64 m v = FrameBufferBase mode" "read64 m (v + 8) = FrameBufferSize mode"
    "read64 m (v + 16) = HorizontalResolution mode" "read64 m (v + 24) = VerticalResolution mode"
    "read64 m (v + 32) = PixelsPerScanLine mode"
    using byte_notin_word [of 0 40 v]
    by (simp_all add: m_def read64_upd_other byte_notin_word read64_write64_apart read64_write64 apart64_plus apart64_base)
  have bgr: "m (v + 40) = 1 \<longleftrightarrow> PixelFormat mode = PixelBlueGreenRed (efi fw)" by (simp add: m_def b_def)
  have frame: "m q = get_mem fw w1 q" if "q \<notin> block v 41" for q
  proof -
    have "q \<notin> word_bytes (v + a)" if "unat a + 8 \<le> 41" for a using \<open>q \<notin> block v 41\<close> word_bytes_block [OF that, of v] by auto
    from this [of 0] this [of 8] this [of 16] this [of 24] this [of 32]
    have "q \<notin> word_bytes v" "q \<notin> word_bytes (v + 8)" "q \<notin> word_bytes (v + 16)" "q \<notin> word_bytes (v + 24)" "q \<notin> word_bytes (v + 32)"
      by simp_all
    moreover have "q \<noteq> v + 40" using that unfolding block_def by (auto intro: image_eqI [of _ _ 40])
    ultimately show ?thesis by (simp add: m_def write64_notin)
  qed
  from False run fields bgr frame show ?thesis
    unfolding Let_def mode_def [symmetric] v_def [symmetric] by (auto intro!: exI [of _ m])
qed

text \<open>
  C18: \<open>RecoverVideoMode\<close> fails and writes nothing without a graphics protocol; otherwise every field of
  \<open>root->Video\<close> reads back what the current mode of the protocol says, \<open>IsBGR\<close> exactly for
  the blue-green-red pixel format, and no byte outside the structure changes.
\<close>

theorem RecoverVideoMode_correct:
  assumes "RequestProtocol fw (GRAPHICS_OUTPUT_GUID (efi fw)) w0 = (w1, gop)"
  shows "if gop = NULL then RecoverVideoMode fw root' w0 = (w1, False)
    else let mode = gop_at fw (get_mem fw w1) gop; v = root' + 24 in
      \<exists>m. RecoverVideoMode fw root' w0 = (put_mem fw m w1, True) \<and>
        read64 m v = FrameBufferBase mode \<and> read64 m (v + 8) = FrameBufferSize mode \<and>
        read64 m (v + 16) = HorizontalResolution mode \<and> read64 m (v + 24) = VerticalResolution mode \<and>
        read64 m (v + 32) = PixelsPerScanLine mode \<and>
        (m (v + 40) = 1 \<longleftrightarrow> PixelFormat mode = PixelBlueGreenRed (efi fw)) \<and>
        (\<forall>q. q \<notin> block v 41 \<longrightarrow> m q = get_mem fw w1 q)"
  using assms by (rule RecoverVideoMode_effect)

section \<open>The ACPI pointer is never accepted\<close>

lemma signature_checksum: "bytes_at m p 8 = RSD_PTR \<Longrightarrow> add_bytes m p XSDP_FIRST_PART_SIZE 0 = 31"
  by (simp add: add_bytes_def XSDP_FIRST_PART_SIZE_def RSD_PTR_def)

lemma CheckXSDP_False: "\<not> CheckXSDP m p"
  by (simp add: CheckXSDP_def Let_def signature_checksum)

lemma RecoverACPITable_loop_False: "\<not> snd (RecoverACPITable_loop fw r ts w)"
  by (induction fw r ts w rule: RecoverACPITable_loop.induct) (simp_all add: Let_def CheckXSDP_False)

lemma RecoverACPITable_result: "RecoverACPITable fw r w = (w', b) \<Longrightarrow> \<not> b"
  using RecoverACPITable_loop_False [of fw r "ConfigurationTable fw w" w] by (simp add: RecoverACPITable_def)

text \<open>
  \<open>RecoverACPITable\<close> returns false on every machine: \<open>XSDP_FIRST_PART_SIZE\<close> is 8, so the checksum of
  the first part covers the signature alone, and the bytes of \<open>RSD PTR\<close> add up to 31 and not to 0.
\<close>

theorem RecoverACPITable_never_succeeds: "\<not> snd (RecoverACPITable fw root' w)"
  by (simp add: RecoverACPITable_def RecoverACPITable_loop_False)

text \<open>
  C25: Hence \<open>main\<close> does not start the kernel, whatever the firmware does: it traps on a division by a zero
  descriptor size, or returns 1 or 2.
\<close>

theorem loader_main_never_starts:
  "case loader_main mx mn fw w of None \<Rightarrow> True | Some (w', result) \<Rightarrow> result = Return 1 \<or> result = Return 2"
  by (auto simp: loader_main_def Let_def split: prod.splits option.splits if_splits dest: RecoverACPITable_result)

lemma DownloadFileToMemory_missing:
  assumes "RequestProtocol fw (SIMPLE_FILE_SYSTEM_GUID (efi fw)) w0 = (w1, fs)" "OpenVolume fw fs w1 = (w2, volume)"
    and "Open fw volume path w2 = (w3, status, file)" "status \<noteq> EFI_SUCCESS (efi fw)"
  shows "DownloadFileToMemory fw path w0 = (w3, INVALID_ALLOCATION)"
  using assms by (simp add: DownloadFileToMemory_def)

section \<open>Loading stays inside the allocation\<close>

lemma in_block: "unat (q - p) < n \<Longrightarrow> q \<in> block p n"
  unfolding block_def by (rule image_eqI [of _ _ "unat (q - p)"]) simp_all

text \<open>
  C29: \<open>main\<close> loads the kernel into the pages it allocated for it: with the size from \<open>RetrieveELFInfo\<close>,
  every byte of memory that \<open>LoadELF\<close> changes lies in the block of pages \<open>AllocateBytes\<close> returned,
  provided no segment reaches the end of the address space.
\<close>

theorem LoadELF_within_allocation:
  assumes "\<forall>a b. mx a b = max a b" "\<forall>a b. mn a b = min a b" "info = RetrieveELFInfo mx mn m elf"
    and "AllocateBytes fw (executiveSize info) w = (w', target)"
    and "n = iterations (ucast (elf_programHeaderCount m elf))" "image_ok m elf (Begin target) (executiveBase info) n F"
    and "\<forall>i<n. is_load m (ph m elf i) \<longrightarrow>
      unat (ph_vAddr m (ph m elf i)) + unat (ph_sizeInMemory m (ph m elf i)) < 2 ^ 64"
    and "LoadELF m elf (Begin target) info = (m', entry)" "m' q \<noteq> m q"
  shows "q \<in> block (Begin target) (4096 * unat (Pages target))"
proof -
  obtain i where i: "i < n" "is_load m (ph m elf i)" "q \<in> seg_bytes m (Begin target) (executiveBase info) (ph m elf i)"
    using LoadELF_effect [OF assms(5,6,8)] assms(9) by blast
  have "q - Begin target < executiveSize info"
    using RetrieveELFInfo_covers [OF assms(1-3), of i "Begin target"] i assms(5,7) by blast
  then have "unat (q - Begin target) < unat (executiveSize info)" by (simp add: word_less_nat_alt)
  also have "\<dots> \<le> 4096 * unat (Pages target)"
    using page_count_holds [of "executiveSize info"] Pages_AllocateBytes [of fw "executiveSize info" w] assms(4) by simp
  finally show ?thesis by (rule in_block)
qed

section \<open>A sample firmware\<close>

text \<open>
  A firmware whose world is the memory alone: it has two descriptors of 48 bytes, gives the pages at
  \<open>0x1000\<close> to the loader and those at \<open>0x9000\<close> to the boot services, and has no kernel file.
\<close>

definition sample_efi :: efi_constants where
  "sample_efi = \<lparr>PixelBlueGreenRed = 1, EFI_SUCCESS = 0, EFI_BUFFER_TOO_SMALL = 0x8000000000000005,
     EfiLoaderCode = 1, EfiLoaderData = 2, EfiBootServicesCode = 3, EfiBootServicesData = 4,
     EfiConventionalMemory = 7, EfiPersistentMemory = 14, EfiUnacceptedMemoryType = 15,
     ACPI_20_TABLE_GUID = [1], SIMPLE_FILE_SYSTEM_GUID = [2], GRAPHICS_OUTPUT_GUID = [3]\<rparr>"

definition sample_descriptors :: "mem \<Rightarrow> mem" where
  "sample_descriptors m = m(0x9000 := 1, 0x9001 := 2, 0x9002 := 7, 0x9030 := 3, 0x9031 := 4, 0x9032 := 0)"

definition sample_firmware :: "mem firmware" where
  "sample_firmware = \<lparr>get_mem = \<lambda>w. w, put_mem = \<lambda>m w. m, efi = sample_efi,
     LocateProtocol = \<lambda>guid w. (w, 0x5000),
     BS_AllocatePages = \<lambda>type pages w. (w, if type = 4 then 0x9000 else 0x1000),
     BS_FreePages = \<lambda>p pages w. w,
     GetMemoryMap = \<lambda>n p w. if n = 0 then (w, 0x8000000000000005, 96, 48) else (sample_descriptors w, 0, 96, 48),
     OpenVolume = \<lambda>fs w. (w, 0x5100), Open = \<lambda>d path w. (w, 0x800000000000000E, 0),
     GetInfo = \<lambda>f n p w. (w, n), Read = \<lambda>f n p w. (w, n), exit_bs = \<lambda>w. w, FileSize = \<lambda>m p. 0,
     descriptor_at = \<lambda>m p. \<lparr>PhysicalStart = 4096 * ucast (m p), NumberOfPages = ucast (m (p + 1)), Type = ucast (m (p + 2))\<rparr>,
     gop_at = \<lambda>m p. \<lparr>HorizontalResolution = 640, VerticalResolution = 480, PixelsPerScanLine = 640, PixelFormat = 1,
       FrameBufferBase = 0xA0000, FrameBufferSize = 1228800\<rparr>,
     ConfigurationTable = \<lambda>w. []\<rparr>"

definition sample_memory :: mem where
  "sample_memory = write64 (\<lambda>_. 0) 0x1010 0x1050"

lemma table_bytes_range:
  assumes "q \<in> table_bytes T 0 n" "unat T + 16 * n \<le> 2 ^ 64"
  shows "unat q < unat T + 16 * n"
  using assms by (auto simp: table_bytes_def unat_word_ariths unat_of_nat take_bit_nat_eq_self)

lemma sample_outside: "0x1070 \<le> unat q \<Longrightarrow> q \<notin> table_bytes 0x1050 0 2"
  using table_bytes_range [of q "0x1050" 2] by auto

lemma sample_apart: "descriptors_apart sample_firmware m 0x9000 48 0x1050 2"
proof -
  have *: "i = 0 \<or> i = 1" if "i < 2" for i :: nat using that by auto
  show ?thesis unfolding descriptors_apart_def
    by (intro allI impI, drule *) (auto simp: sample_firmware_def sample_outside)
qed

lemma sample_table: "read64 (sample_descriptors sample_memory) 0x1010 = 0x1050"
proof -
  have "read64 (sample_descriptors sample_memory) 0x1010 = read64 sample_memory 0x1010"
    by (simp add: sample_descriptors_def read64_upd_other notin_word_bytes)
  then show ?thesis by (simp add: sample_memory_def read64_write64)
qed

lemma sample_calls:
  "GetMemoryMap sample_firmware 0 NULL m = (m, EFI_BUFFER_TOO_SMALL (efi sample_firmware), 96, 48)"
  "AllocateLoaderBytes sample_firmware (96 + 48 * 3) m = (m, \<lparr>Begin = 0x9000, Pages = 1\<rparr>)"
  "GetMemoryMap sample_firmware (96 + 48 * 3) (Begin \<lparr>Begin = 0x9000, Pages = 1\<rparr>) m = (sample_descriptors m, 0, 96, 48)"
  "get_mem sample_firmware m = m" "BS_FreePages sample_firmware p n m = m" "put_mem sample_firmware m m' = m"
  by (simp_all add: sample_firmware_def sample_efi_def AllocateLoaderBytes_def page_count_def)

lemma sample_header: "word_bytes (0x1000 + 16) \<inter> table_bytes 0x1050 0 2 = {}"
  using table_apart [of 2 "0x1000"] by (simp add: sizeof_RootTable_value)

lemma sample_run:
  "Begin \<lparr>Begin = 0x9000, Pages = 1\<rparr> \<noteq> NULL" "(48 :: u64) \<noteq> 0" "2 = unat (96 div 48 :: u64)"
  "0x1050 = read64 (get_mem sample_firmware (sample_descriptors sample_memory)) (0x1000 + 16)" "16 * 2 \<le> (2 :: nat) ^ 64"
  "descriptors_apart sample_firmware (get_mem sample_firmware (sample_descriptors sample_memory))
     (Begin \<lparr>Begin = 0x9000, Pages = 1\<rparr>) 48 0x1050 2"
  using sample_table sample_apart by (simp_all add: sample_calls)

theorem RecoverMemoryMap_correct_witness:
  "\<exists>m. RecoverMemoryMap sample_firmware 0x1000 sample_memory = Some (m, True) \<and>
    (\<forall>i<2. entry_holds sample_firmware m (0x1050 + of_nat i * sizeof_MemoryEntry)
       (descriptor_at sample_firmware (sample_descriptors sample_memory) (0x9000 + of_nat i * 48)))"
  using RecoverMemoryMap_correct [OF sample_calls(1) [of sample_memory] sample_calls(2) sample_run(1) sample_calls(3)
      sample_run(2-5) sample_header sample_run(6)]
  unfolding sample_calls AllocatedSpace.select_convs by blast

theorem RecoverMemoryMap_errors_witness:
  "RecoverMemoryMap (sample_firmware\<lparr>BS_AllocatePages := \<lambda>type pages w. (w, 0)\<rparr>) 0x1000 sample_memory = Some (sample_memory, False)"
  using RecoverMemoryMap_errors [of "sample_firmware\<lparr>BS_AllocatePages := \<lambda>type pages w. (w, 0)\<rparr>" sample_memory
      sample_memory "0x8000000000000005" 96 48 sample_memory "\<lparr>Begin = 0, Pages = 1\<rparr>" "0x1000"]
  by (simp add: sample_firmware_def sample_efi_def AllocateLoaderBytes_def page_count_def)

theorem FormRootTable_correct_witness:
  "\<exists>m. FormRootTable sample_firmware sample_memory = Some (m, 0x1000) \<and>
    unat (read64 m 0x1008) = 8 \<and> read64 m 0x1010 = 0x1050 \<and> read64 m 0x1048 = 1"
  using FormRootTable_correct [of sample_firmware sample_memory sample_memory "0x8000000000000005" 96 48 sample_memory
      "\<lparr>Begin = 0x1000, Pages = 1\<rparr>"]
  by (auto simp: sample_firmware_def sample_efi_def AllocateBytes_def page_count_def sizeof_RootTable_value sizeof_MemoryEntry_def)

theorem RecoverVideoMode_correct_witness:
  "\<exists>m. RecoverVideoMode sample_firmware 0x1000 sample_memory = (m, True) \<and> read64 m 0x1028 = 640 \<and> m 0x1040 = 1"
  using RecoverVideoMode_correct [of sample_firmware sample_memory sample_memory "0x5000" "0x1000"]
  by (auto simp: sample_firmware_def sample_efi_def RequestProtocol_def Let_def)

theorem LoadELF_within_allocation_witness:
  "0x1001 \<in> block 0x1000 4096 \<and> fst (LoadELF ex_elf 0 0x1000 (RetrieveELFInfo max min ex_elf 0)) 0x1001 \<noteq> ex_elf 0x1001"
proof -
  let ?info = "RetrieveELFInfo max min ex_elf 0"
  let ?run = "LoadELF ex_elf 0 0x1000 ?info" and ?t = "\<lparr>Begin = 0x1000, Pages = 1\<rparr> :: AllocatedSpace"
  have al: "AllocateBytes sample_firmware (executiveSize ?info) w = (w, ?t)" for w
    by (simp add: ex_elf_info AllocateBytes_def sample_firmware_def sample_efi_def page_count_def)
  have n: "(1 :: nat) = iterations (ucast (elf_programHeaderCount ex_elf 0))" by (simp add: ex_elf_fields)
  have ok: "image_ok ex_elf 0 (Begin ?t) (executiveBase ?info) 1 {q. q < 0x1000}" using ex_elf_image by (simp add: ex_elf_info)
  have bound: "\<forall>i<1. is_load ex_elf (ph ex_elf 0 i) \<longrightarrow>
      unat (ph_vAddr ex_elf (ph ex_elf 0 i)) + unat (ph_sizeInMemory ex_elf (ph ex_elf 0 i)) < 2 ^ 64"
    by (simp add: ex_elf_fields)
  have run: "LoadELF ex_elf 0 (Begin ?t) ?info = (fst ?run, snd ?run)" by simp
  have ne: "fst ?run 0x1001 \<noteq> ex_elf 0x1001"
  proof -
    have "0x1001 \<in> seg_bytes ex_elf (Begin ?t) (executiveBase ?info) 0x40" by (simp add: ex_elf_info ex_elf_seg)
    with LoadELF_effect [OF n ok run] have "fst ?run 0x1001 = seg_content ex_elf 0 0x40 (0x1001 - seg_addr ex_elf 0x1000 0x20 0x40)"
      by (simp add: ex_elf_fields ex_elf_info)
    also have "\<dots> = 22" by (simp add: seg_content_def seg_addr_def ex_elf_fields) (simp add: ex_elf_def)
    finally show ?thesis by (simp add: ex_elf_def)
  qed
  from LoadELF_within_allocation [of max min ?info ex_elf 0, OF _ _ refl al n ok bound run ne] ne show ?thesis by simp
qed

end
