(* ===== verification/Memory_Map.thy ===== *)
theory Memory_Map
  imports Architecture Cursor
begin

unbundle bit_operations_syntax

text \<open>
  The memory map the loader hands to the kernel, and the iterator over it, of
  \<open>kernel/memman/MemoryMap.c\<close>. The map is an array of \<open>count\<close> entries; a pointer into it is an
  index, the NULL cursor is \<^const>\<open>None\<close>. Reading behind the array is a fault, the outer
  \<^const>\<open>None\<close> of the result.
\<close>

section \<open>Entries and the iterator\<close>

record MemoryEntry =
  Begin :: u64
  Pages :: "56 word"
  Type :: u8

definition IsMemoryEntryAvailable :: "MemoryEntry \<Rightarrow> bool" where
  "IsMemoryEntryAvailable entry \<longleftrightarrow> Type entry AND 1 \<noteq> 0"

definition entry_end :: "MemoryEntry \<Rightarrow> u64" where
  "entry_end entry = Begin entry + ucast (Pages entry) * PAGE_SIZE"

function NextMemoryEntryWithin_loop ::
    "u64 \<Rightarrow> u64 \<Rightarrow> MemoryEntry list \<Rightarrow> nat \<Rightarrow> nat \<Rightarrow> nat option option" where
  "NextMemoryEntryWithin_loop begin' end' map' count next =
     (if next < count
      then if next < length map'
        then if \<not> IsMemoryEntryAvailable (map' ! next)
          then NextMemoryEntryWithin_loop begin' end' map' count (Suc next)
          else if Begin (map' ! next) \<ge> end' \<or> entry_end (map' ! next) \<le> begin'
          then NextMemoryEntryWithin_loop begin' end' map' count (Suc next)
          else Some (Some next)
        else None
      else Some None)"
  by pat_completeness auto
termination
  by (relation "measure (\<lambda>(begin', end', map', count, next). count - next)") auto

declare NextMemoryEntryWithin_loop.simps [simp del]

text \<open>The result is the returned pointer; \<open>*cur\<close> is set to the same value.\<close>

definition NextMemoryEntryWithin ::
    "u64 \<Rightarrow> u64 \<Rightarrow> MemoryEntry list \<Rightarrow> nat option \<Rightarrow> nat \<Rightarrow> (nat option \<times> nat option) option" where
  "NextMemoryEntryWithin begin' len map' cur count =
     (let end' = begin' + len;
          next = (case cur of Some c \<Rightarrow> Suc c | None \<Rightarrow> 0)
      in map_option (\<lambda>r. (r, r)) (NextMemoryEntryWithin_loop begin' end' map' count next))"

section \<open>The loop finds the next matching entry\<close>

definition entry_within :: "u64 \<Rightarrow> u64 \<Rightarrow> MemoryEntry \<Rightarrow> bool" where
  "entry_within begin' end' e \<longleftrightarrow> IsMemoryEntryAvailable e \<and> Begin e < end' \<and> begin' < entry_end e"

definition matches :: "u64 \<Rightarrow> u64 \<Rightarrow> MemoryEntry list \<Rightarrow> nat \<Rightarrow> bool" where
  "matches begin' len map' i \<longleftrightarrow> entry_within begin' (begin' + len) (map' ! i)"

lemma upt_filter_step:
  "n < m \<Longrightarrow> filter P [n..<m] = (if P n then n # filter P [Suc n..<m] else filter P [Suc n..<m])"
  by (simp add: upt_conv_Cons)

lemma NextMemoryEntryWithin_loop_filter:
  assumes "count \<le> length map'"
  shows "NextMemoryEntryWithin_loop b e map' count next =
    Some (case filter (\<lambda>i. entry_within b e (map' ! i)) [next..<count] of [] \<Rightarrow> None | i # _ \<Rightarrow> Some i)"
  using assms
proof (induction b e map' count "next" rule: NextMemoryEntryWithin_loop.induct)
  case (1 b e map' count n)
  show ?case
  proof (cases "n < count")
    case True
    then show ?thesis
      using 1 by (subst NextMemoryEntryWithin_loop.simps) (auto simp: upt_filter_step entry_within_def not_le not_less)
  next
    case False
    then show ?thesis by (subst NextMemoryEntryWithin_loop.simps) simp
  qed
qed

lemma filter_Cons_upt:
  assumes "filter P [n..<m] = i # js"
  shows "js = filter P [Suc i..<m]" "P i" "n \<le> i" "i < m"
proof -
  have "i \<in> set (filter P [n..<m])" using assms by simp
  then show "P i" and i: "n \<le> i" "i < m" by auto
  have "[n..<m] = [n..<i] @ i # [Suc i..<m]"
    using i by (rule upt_split_at)
  moreover have "filter P [n..<i] = []"
  proof (rule ccontr)
    assume "filter P [n..<i] \<noteq> []"
    then obtain j ks where j: "filter P [n..<i] = j # ks" by (cases "filter P [n..<i]") auto
    then have "j \<in> set (filter P [n..<i])" by simp
    then have "j < i" by simp
    moreover have "j = i" using assms j \<open>[n..<m] = _\<close> by simp
    ultimately show False by simp
  qed
  ultimately show "js = filter P [Suc i..<m]" using assms \<open>P i\<close> by simp
qed

section \<open>The iterator as a cursor\<close>

text \<open>The indices still to come after the cursor.\<close>

definition rest_within :: "u64 \<Rightarrow> u64 \<Rightarrow> MemoryEntry list \<Rightarrow> nat \<Rightarrow> nat option \<Rightarrow> nat list \<Rightarrow> bool" where
  "rest_within begin' len map' count cur js \<longleftrightarrow> count \<le> length map' \<and>
     js = filter (matches begin' len map') [(case cur of None \<Rightarrow> 0 | Some c \<Rightarrow> Suc c)..<count]"

lemma NextMemoryEntryWithin_rest:
  assumes "rest_within b len map' count cur js"
  shows "NextMemoryEntryWithin b len map' cur count =
    Some (let r = (case js of [] \<Rightarrow> None | i # _ \<Rightarrow> Some i) in (r, r))"
  using assms NextMemoryEntryWithin_loop_filter [of count map' b "b + len"]
  by (simp add: rest_within_def NextMemoryEntryWithin_def matches_def [abs_def] Let_def split: option.splits)

interpretation within: cursor "\<lambda>cur. NextMemoryEntryWithin b len map' cur count"
    "rest_within b len map' count" "\<lambda>cur. cur = None"
  for b len map' count
proof
  fix cur and i :: nat and js
  show "\<exists>c'. NextMemoryEntryWithin b len map' cur count = Some (None, c') \<and> c' = None"
    if "rest_within b len map' count cur []" using NextMemoryEntryWithin_rest [OF that] by simp
  assume r: "rest_within b len map' count cur (i # js)"
  then have "rest_within b len map' count (Some i) js"
    unfolding rest_within_def by (auto dest: sym intro: filter_Cons_upt(1))
  with NextMemoryEntryWithin_rest [OF r]
  show "\<exists>c'. NextMemoryEntryWithin b len map' cur count = Some (Some i, c') \<and> rest_within b len map' count c' js"
    by (simp add: Let_def)
qed

lemma iterate_within_all:
  assumes "count \<le> length map'"
  shows "collect (\<lambda>cur. NextMemoryEntryWithin b len map' cur count) (Suc count) None =
    Some (filter (matches b len map') [0..<count], None)"
proof -
  have "length (filter (matches b len map') [0..<count]) < Suc count"
    using length_filter_le [of "matches b len map'" "[0..<count]"] by simp
  then show ?thesis
    using within.collect_rests [of b len map' count None "filter (matches b len map') [0..<count]" "Suc count"] assms
    by (simp add: rest_within_def del: collect.simps)
qed

section \<open>Intervals\<close>

definition entry_bytes :: "MemoryEntry \<Rightarrow> nat set" where
  "entry_bytes e = {unat (Begin e) ..< unat (Begin e) + unat (Pages e) * 4096}"

lemma unat_entry_end:
  assumes "unat (Begin e) + unat (Pages e) * 4096 < 2 ^ 64"
  shows "unat (entry_end e) = unat (Begin e) + unat (Pages e) * 4096"
proof -
  have "unat (Pages e) < 2 ^ 56" using unsigned_less [of "Pages e"] by simp
  then have "unat (ucast (Pages e) :: u64) = unat (Pages e)"
    by (simp add: unsigned_ucast_eq take_bit_nat_eq_self)
  then show ?thesis using assms by (simp add: entry_end_def arch_consts unat_word_ariths)
qed

lemma entry_within_intersects:
  assumes len: "unat b + unat len < 2 ^ 64" "0 < len"
    and e: "unat (Begin e) + unat (Pages e) * 4096 < 2 ^ 64" "0 < Pages e"
  shows "entry_within b (b + len) e \<longleftrightarrow>
    IsMemoryEntryAvailable e \<and> entry_bytes e \<inter> {unat b ..< unat b + unat len} \<noteq> {}"
proof -
  have u: "unat (b + len) = unat b + unat len" using len(1) by (simp add: unat_word_ariths)
  have pos: "0 < unat (Pages e)" "0 < unat len" using e(2) len(2) by (simp_all add: word_less_nat_alt)
  have "entry_bytes e \<inter> {unat b ..< unat b + unat len} \<noteq> {} \<longleftrightarrow>
      unat (Begin e) < unat b + unat len \<and> unat b < unat (Begin e) + unat (Pages e) * 4096"
    (is "?i \<longleftrightarrow> ?o")
  proof
    show ?o if ?i using that by (auto simp: entry_bytes_def)
    show ?i if o: ?o
    proof -
      have "max (unat b) (unat (Begin e)) \<in> entry_bytes e \<inter> {unat b ..< unat b + unat len}"
        using o pos by (auto simp: entry_bytes_def max_def)
      then show ?i by blast
    qed
  qed
  then show ?thesis
    by (simp add: entry_within_def word_less_nat_alt u unat_entry_end [OF e(1)])
qed

definition ex_map :: "MemoryEntry list" where
  "ex_map = [\<lparr>Begin = 0x1000, Pages = 2, Type = 1\<rparr>, \<lparr>Begin = 0x3000, Pages = 1, Type = 0\<rparr>,
     \<lparr>Begin = 0x4000, Pages = 4, Type = 1\<rparr>]"

section \<open>Properties\<close>

text \<open>
  Calling \<open>NextMemoryEntryWithin\<close> repeatedly from a NULL cursor visits every entry of the map that
  is available and meets the region, each once and in map order, then returns NULL and leaves the
  cursor at NULL; at most \<open>count\<close> + 1 calls are needed and no entry behind the map is read.
\<close>

theorem NextMemoryEntryWithin_iterates:
  assumes "count \<le> length map'"
  shows "collect (\<lambda>cur. NextMemoryEntryWithin b len map' cur count) (Suc count) None =
    Some (filter (\<lambda>i. entry_within b (b + len) (map' ! i)) [0..<count], None)"
  using iterate_within_all [OF assms] by (simp add: matches_def [abs_def])

theorem NextMemoryEntryWithin_iterates_witness: "collect (\<lambda>cur. NextMemoryEntryWithin 0x2000 0x3000 ex_map cur 3) 4 None = Some ([0, 2], None)"
proof -
  have "3 \<le> length ex_map" by (simp add: ex_map_def)
  from NextMemoryEntryWithin_iterates [OF this, of "0x2000" "0x3000"] show ?thesis
    by (simp add: ex_map_def entry_within_def IsMemoryEntryAvailable_def entry_end_def arch_consts upt_rec)
qed

text \<open>
  C36: For regions and entries that do not reach the end of the address space, an entry is returned iff
  it is available and shares a byte with the half-open interval [begin, begin + length) (the
  comment in the source gives a closed interval).
\<close>

theorem NextMemoryEntryWithin_intersects:
  assumes "count \<le> length map'" and "unat b + unat len < 2 ^ 64" and "0 < len"
    and "\<forall>e\<in>set map'. unat (Begin e) + unat (Pages e) * 4096 < 2 ^ 64 \<and> 0 < Pages e"
  shows "collect (\<lambda>cur. NextMemoryEntryWithin b len map' cur count) (Suc count) None =
    Some (filter (\<lambda>i. IsMemoryEntryAvailable (map' ! i) \<and>
      entry_bytes (map' ! i) \<inter> {unat b ..< unat b + unat len} \<noteq> {}) [0..<count], None)"
proof -
  have "filter (matches b len map') [0..<count] = filter (\<lambda>i. IsMemoryEntryAvailable (map' ! i) \<and>
      entry_bytes (map' ! i) \<inter> {unat b ..< unat b + unat len} \<noteq> {}) [0..<count]"
  proof (rule filter_cong [OF refl])
    fix i assume "i \<in> set [0..<count]"
    then have "map' ! i \<in> set map'" using assms(1) by simp
    with assms(4) entry_within_intersects [OF assms(2,3), of "map' ! i"]
    show "matches b len map' i = (IsMemoryEntryAvailable (map' ! i) \<and>
      entry_bytes (map' ! i) \<inter> {unat b ..< unat b + unat len} \<noteq> {})"
      by (simp add: matches_def)
  qed
  with iterate_within_all [OF assms(1)] show ?thesis by simp
qed

theorem NextMemoryEntryWithin_intersects_witness: "collect (\<lambda>cur. NextMemoryEntryWithin 0x3000 0x2000 ex_map cur 3) 4 None = Some ([2], None)"
proof -
  have "3 \<le> length ex_map" "unat (0x3000 :: u64) + unat (0x2000 :: u64) < 2 ^ 64" "(0 :: u64) < 0x2000"
    "\<forall>e\<in>set ex_map. unat (Begin e) + unat (Pages e) * 4096 < 2 ^ 64 \<and> 0 < Pages e"
    by (simp_all add: ex_map_def)
  from NextMemoryEntryWithin_intersects [OF this] show ?thesis
    by (simp add: ex_map_def entry_bytes_def IsMemoryEntryAvailable_def upt_rec)
qed

text \<open>
  A region that ends exactly at the end of the address space has \<open>begin + length = 0\<close> after
  wrap-around, and the iterator then finds no entry at all, whatever the map holds.
\<close>

theorem NextMemoryEntryWithin_wraps:
  assumes "unat b + unat len = 2 ^ 64" and "count \<le> length map'"
  shows "NextMemoryEntryWithin b len map' cur count = Some (None, None)"
proof -
  have "b + len = 0" using assms(1) by (simp add: unat_eq_zero [symmetric] unat_word_ariths)
  then show ?thesis
    using NextMemoryEntryWithin_loop_filter [OF assms(2), of b 0]
    by (simp add: NextMemoryEntryWithin_def entry_within_def Let_def)
qed

theorem NextMemoryEntryWithin_wraps_witness: "NextMemoryEntryWithin 0x1000 0xFFFFFFFFFFFFF000 ex_map None 3 = Some (None, None)"
  by (rule NextMemoryEntryWithin_wraps) (simp_all add: ex_map_def)

end
