(* ===== verification/Boot_Handover.thy ===== *)
theory Boot_Handover
  imports Uefi_Loader Memory_Map
begin

unbundle bit_operations_syntax

text \<open>
  The loader and the kernel declare the memory map twice: \<open>struct MemoryEntry\<close> of \<open>loader/loader.h\<close>,
  written by \<open>RecoverMemoryMap\<close>, and that of \<open>kernel/memman/MemoryMap.h\<close>, read by
  \<open>NextMemoryEntryWithin\<close>. Here the bytes the loader leaves are read with the kernel's
  structure.
\<close>

section \<open>The kernel's view of the table\<close>

definition read_MemoryEntry :: "mem \<Rightarrow> ptr \<Rightarrow> MemoryEntry" where
  "read_MemoryEntry m p =
     \<lparr>MemoryEntry.Begin = read64 m p, Pages = ucast (read64 m (p + 8)), Type = ucast (drop_bit 56 (read64 m (p + 8)))\<rparr>"

definition MemoryMap_at :: "mem \<Rightarrow> ptr \<Rightarrow> nat \<Rightarrow> MemoryEntry list" where
  "MemoryMap_at m p n = map (\<lambda>i. read_MemoryEntry m (p + of_nat i * sizeof_MemoryEntry)) [0..<n]"

text \<open>The entry the kernel should see for a descriptor of the firmware.\<close>

definition descriptor_entry :: "'w firmware \<Rightarrow> efi_memory_descriptor \<Rightarrow> MemoryEntry" where
  "descriptor_entry fw d =
     \<lparr>MemoryEntry.Begin = PhysicalStart d, Pages = ucast (NumberOfPages d),
      Type = (if IsAvailableMemoryType fw (efi_memory_descriptor.Type d) then 1 else 0)\<rparr>"

text \<open>The packed second word: 56 bits of page count below the 8 bits of the type.\<close>

lemma unat_packed:
  "unat (take_bit 56 (n :: u64) + (if a then 2 ^ 56 else 0)) = unat n mod 2 ^ 56 + (if a then 2 ^ 56 else 0)"
proof -
  have "unat n mod 2 ^ 56 + 2 ^ 56 < (2 :: nat) ^ 64"
    using mod_less_divisor [of "2 ^ 56" "unat n"] by simp
  then show ?thesis by (simp add: unat_word_ariths unsigned_take_bit_eq take_bit_eq_mod)
qed

lemma packed_Pages: "(ucast (take_bit 56 (n :: u64) + (if a then 2 ^ 56 else 0)) :: 56 word) = ucast n"
  unfolding word_unat_eq_iff unsigned_ucast_eq unat_packed by (simp add: take_bit_eq_mod)

lemma packed_Type: "(ucast (drop_bit 56 (take_bit 56 (n :: u64) + (if a then 2 ^ 56 else 0))) :: u8) = (if a then 1 else 0)"
  unfolding word_unat_eq_iff unsigned_ucast_eq unsigned_drop_bit_eq unat_packed
  by (simp add: take_bit_eq_mod drop_bit_eq_div)

lemma entry_holds_read:
  "entry_holds fw m p d \<Longrightarrow> read_MemoryEntry m p = descriptor_entry fw d"
  unfolding entry_holds_def read_MemoryEntry_def descriptor_entry_def by (simp only: packed_Pages packed_Type)

lemma MemoryMap_at_descriptors:
  assumes "\<forall>i<n. entry_holds fw m (p + of_nat i * sizeof_MemoryEntry) (f i)"
  shows "MemoryMap_at m p n = map (\<lambda>i. descriptor_entry fw (f i)) [0..<n]"
  using assms by (simp add: MemoryMap_at_def entry_holds_read)

lemma descriptor_entry_available:
  "IsMemoryEntryAvailable (descriptor_entry fw d) \<longleftrightarrow> IsAvailableMemoryType fw (efi_memory_descriptor.Type d)"
  by (simp add: IsMemoryEntryAvailable_def descriptor_entry_def)

lemma iterate_descriptors:
  assumes "map' = map (\<lambda>i. descriptor_entry fw (f i)) [0..<n]"
  shows "collect (\<lambda>cur. NextMemoryEntryWithin b len map' cur n) (Suc n) None =
    Some (filter (\<lambda>i. IsAvailableMemoryType fw (efi_memory_descriptor.Type (f i)) \<and> PhysicalStart (f i) < b + len \<and>
      b < entry_end (descriptor_entry fw (f i))) [0..<n], None)"
proof -
  have "entry_within b (b + len) (map' ! i) \<longleftrightarrow> IsAvailableMemoryType fw (efi_memory_descriptor.Type (f i)) \<and>
      PhysicalStart (f i) < b + len \<and> b < entry_end (descriptor_entry fw (f i))" if "i < n" for i
    using that by (simp add: assms entry_within_def descriptor_entry_available) (simp add: descriptor_entry_def)
  then have "filter (matches b len map') [0..<n] = filter (\<lambda>i. IsAvailableMemoryType fw (efi_memory_descriptor.Type (f i)) \<and>
      PhysicalStart (f i) < b + len \<and> b < entry_end (descriptor_entry fw (f i))) [0..<n]"
    by (intro filter_cong) (simp_all add: matches_def)
  moreover have "n \<le> length map'" by (simp add: assms)
  ultimately show ?thesis using iterate_within_all [of n map' b len] by simp
qed

section \<open>The finished root table\<close>

text \<open>
  What the loader relies on from the firmware while it fills the root table: memory holds what was
  stored, and the services leave the loader's pages \<open>R\<close> alone, except for the buffer passed to
  \<open>GetMemoryMap\<close>.
\<close>

definition keeps_bytes :: "'w firmware \<Rightarrow> ptr set \<Rightarrow> bool" where
  "keeps_bytes fw R \<longleftrightarrow> (\<forall>m w. get_mem fw (put_mem fw m w) = m) \<and>
     (\<forall>guid w. \<forall>q\<in>R. get_mem fw (fst (LocateProtocol fw guid w)) q = get_mem fw w q) \<and>
     (\<forall>type pages w. \<forall>q\<in>R. get_mem fw (fst (BS_AllocatePages fw type pages w)) q = get_mem fw w q) \<and>
     (\<forall>size' buffer w. \<forall>q\<in>R - block buffer (unat size').
        get_mem fw (fst (GetMemoryMap fw size' buffer w)) q = get_mem fw w q)"

definition video_holds :: "'w firmware \<Rightarrow> mem \<Rightarrow> ptr \<Rightarrow> gop_mode \<Rightarrow> bool" where
  "video_holds fw m v mode \<longleftrightarrow> read64 m v = FrameBufferBase mode \<and> read64 m (v + 8) = FrameBufferSize mode \<and>
     read64 m (v + 16) = HorizontalResolution mode \<and> read64 m (v + 24) = VerticalResolution mode \<and>
     read64 m (v + 32) = PixelsPerScanLine mode \<and> (m (v + 40) = 1 \<longleftrightarrow> PixelFormat mode = PixelBlueGreenRed (efi fw))"

lemma header_bytes: "unat a + 8 \<le> 80 \<Longrightarrow> word_bytes (root' + a) \<subseteq> block root' 80"
  by (rule word_bytes_block)

lemma header_not_video:
  assumes "unat a + 8 \<le> 24 \<or> 65 \<le> unat a" "unat a + 8 \<le> 80"
  shows "word_bytes (root' + a) \<inter> block (root' + 24) 41 = {}"
proof -
  have "block (root' + 24) 41 \<subseteq> (\<lambda>x. root' + of_nat x) ` {24..<65}"
  proof
    fix q assume "q \<in> block (root' + 24) 41"
    then obtain x where "x < 41" "q = root' + of_nat (24 + x)" by (auto simp: block_def add.assoc)
    then show "q \<in> (\<lambda>x. root' + of_nat x) ` {24..<65}" by (intro image_eqI [of _ _ "24 + x"]) auto
  qed
  moreover have "(\<lambda>x. root' + of_nat x) ` {unat a..<unat a + 8} \<inter> (\<lambda>x. root' + of_nat x) ` {24..<65} = {}"
    using assms by (intro offsets_disjoint) auto
  ultimately show ?thesis using word_bytes_offset [of root' a] by blast
qed

text \<open>A memory that agrees on the header behind the first word reads the same fields.\<close>

lemma header_word_agree:
  assumes "\<And>q. q \<in> block root' 80 - word_bytes root' \<Longrightarrow> m' q = m q" "8 \<le> unat a" "unat a + 8 \<le> 80"
  shows "read64 m' (root' + a) = read64 m (root' + a)"
proof (rule read64_agree, rule assms(1))
  fix q assume q: "q \<in> word_bytes (root' + a)"
  have "apart64 root' (root' + a)" using apart64_base(1) [of a root'] assms(2,3) by simp
  then show "q \<in> block root' 80 - word_bytes root'" using q header_bytes [OF assms(3), of root'] by (auto simp: apart64_iff)
qed

lemma video_holds_agree:
  assumes "\<And>q. q \<in> block root' 80 - word_bytes root' \<Longrightarrow> m' q = m q"
  shows "video_holds fw m' (root' + 24) mode = video_holds fw m (root' + 24) mode"
proof -
  note r = header_word_agree [of root' m' m, OF assms]
  have "m' (root' + 64) = m (root' + 64)"
  proof (rule assms)
    have "root' + 64 \<notin> word_bytes root'" using byte_notin_word [of 0 64 root'] by simp
    moreover have "root' + 64 \<in> block root' 80" unfolding block_def by (rule image_eqI [of _ _ 64]) auto
    ultimately show "root' + 64 \<in> block root' 80 - word_bytes root'" by blast
  qed
  then show ?thesis using r [of 24] r [of 32] r [of 40] r [of 48] r [of 56] by (simp add: video_holds_def add.assoc)
qed

lemma keeps_map_calls:
  assumes "keeps_bytes fw R" "GetMemoryMap fw 0 NULL w0 = (w1, st, mapSize, ds)"
    "AllocateLoaderBytes fw size' w1 = (w2, memMap)"
    "GetMemoryMap fw size' (AllocatedSpace.Begin memMap) w2 = (w3, st', mapSize', ds')"
    "R \<inter> block (AllocatedSpace.Begin memMap) (unat size') = {}" "q \<in> R"
  shows "get_mem fw w3 q = get_mem fw w0 q"
proof -
  have gmm: "get_mem fw (fst (GetMemoryMap fw n b w)) q = get_mem fw w q" if "q \<notin> block b (unat n)" for n b w
    using assms(1,6) that by (simp add: keeps_bytes_def)
  have alloc: "get_mem fw (fst (BS_AllocatePages fw t n w)) q = get_mem fw w q" for t n w
    using assms(1,6) by (simp add: keeps_bytes_def)
  have "fst (AllocateLoaderBytes fw size' w1) = fst (BS_AllocatePages fw (EfiBootServicesData (efi fw)) (page_count size') w1)"
    by (simp add: AllocateLoaderBytes_def Let_def split: prod.split)
  then have "get_mem fw w2 q = get_mem fw w1 q" using alloc assms(3) by (metis fst_conv)
  moreover have "get_mem fw w1 q = get_mem fw w0 q" using gmm [where n = 0 and b = NULL and w = w0] assms(2) by (simp add: block_def)
  moreover have "get_mem fw w3 q = get_mem fw w2 q"
    using gmm [of "AllocatedSpace.Begin memMap" size' w2] assms(4-6) by auto
  ultimately show ?thesis by simp
qed

lemma header_not_table:
  assumes "80 + 16 * n \<le> 2 ^ 64"
  shows "block root' 80 \<inter> table_bytes (root' + sizeof_RootTable) 0 n = {}"
proof -
  have "table_bytes (root' + sizeof_RootTable) 0 n \<subseteq> (\<lambda>x. root' + of_nat x) ` {80..<80 + 16 * n}"
  proof
    fix q assume "q \<in> table_bytes (root' + sizeof_RootTable) 0 n"
    then obtain x where "x < 16 * n" "q = root' + of_nat (80 + x)"
      by (auto simp: table_bytes_def sizeof_RootTable_value add.assoc)
    then show "q \<in> (\<lambda>x. root' + of_nat x) ` {80..<80 + 16 * n}" by (intro image_eqI [of _ _ "80 + x"]) auto
  qed
  moreover have "block root' 80 = (\<lambda>x. root' + of_nat x) ` {0..<80}" by (simp add: block_def atLeast0LessThan)
  ultimately show ?thesis using offsets_disjoint [of 80 80 "80 + 16 * n" 0 root'] assms by auto
qed

text \<open>The table after \<open>FormRootTable\<close> and \<open>RecoverVideoMode\<close>.\<close>

lemma root_table_started:
  assumes keeps: "keeps_bytes fw (block root' (4096 * unat (AllocatedSpace.Pages s)))"
    and form: "GetMemoryMap fw 0 NULL w0 = (w1, status0, mapSize0, ds0)" "ds0 \<noteq> 0"
      "80 + 16 * (unat (mapSize0 div ds0) + 6) < 2 ^ 64"
      "AllocateBytes fw (sizeof_RootTable + (mapSize0 div ds0 + 6) * sizeof_MemoryEntry) w1 = (w2, s)"
      "FormRootTable fw w0 = Some (wa, root')"
    and video: "RequestProtocol fw (GRAPHICS_OUTPUT_GUID (efi fw)) wa = (wb, gop)" "gop \<noteq> NULL"
      "RecoverVideoMode fw root' wa = (wc, True)"
  shows "unat (read64 (get_mem fw wc) (root' + 8)) = unat (mapSize0 div ds0) + 6"
    "read64 (get_mem fw wc) (root' + 16) = root' + sizeof_RootTable"
    "read64 (get_mem fw wc) (root' + 72) = AllocatedSpace.Pages s"
    "video_holds fw (get_mem fw wc) (root' + 24) (gop_at fw (get_mem fw wb) gop)"
proof -
  let ?R = "block root' (4096 * unat (AllocatedSpace.Pages s))"
  have R: "block root' 80 \<subseteq> ?R" using root_table_fits [OF form(3,4)] by (auto simp: block_def)
  have put: "get_mem fw (put_mem fw m w) = m" for m w using keeps by (simp add: keeps_bytes_def)
  from FormRootTable_effect [OF form(1-4)] form(5) put
  have a: "unat (read64 (get_mem fw wa) (root' + 8)) = unat (mapSize0 div ds0) + 6"
      "read64 (get_mem fw wa) (root' + 16) = root' + sizeof_RootTable"
      "read64 (get_mem fw wa) (root' + 72) = AllocatedSpace.Pages s"
    by auto
  have b: "get_mem fw wb q = get_mem fw wa q" if "q \<in> block root' 80" for q
  proof -
    have "q \<in> ?R" using that R by blast
    with keeps have "get_mem fw (fst (LocateProtocol fw (GRAPHICS_OUTPUT_GUID (efi fw)) wa)) q = get_mem fw wa q"
      by (simp add: keeps_bytes_def)
    then show ?thesis using video(1) by (simp add: RequestProtocol_def)
  qed
  have v: "video_holds fw (get_mem fw wc) (root' + 24) (gop_at fw (get_mem fw wb) gop) \<and>
      (\<forall>q. q \<notin> block (root' + 24) 41 \<longrightarrow> get_mem fw wc q = get_mem fw wb q)"
    using RecoverVideoMode_effect [OF video(1), of root'] video(2,3) put by (auto simp: Let_def video_holds_def)
  then show "video_holds fw (get_mem fw wc) (root' + 24) (gop_at fw (get_mem fw wb) gop)" by blast
  have "read64 (get_mem fw wc) (root' + a) = read64 (get_mem fw wa) (root' + a)"
    if a: "unat a + 8 \<le> 24 \<or> 65 \<le> unat a" "unat a + 8 \<le> 80" for a
  proof (rule read64_agree)
    fix q assume "q \<in> word_bytes (root' + a)"
    then have "q \<notin> block (root' + 24) 41" "q \<in> block root' 80"
      using header_bytes [OF a(2), of root'] header_not_video [OF a, of root'] by blast+
    with v b show "get_mem fw wc q = get_mem fw wa q" by simp
  qed
  from this [of 8] this [of 16] this [of 72] a
  show "unat (read64 (get_mem fw wc) (root' + 8)) = unat (mapSize0 div ds0) + 6"
    "read64 (get_mem fw wc) (root' + 16) = root' + sizeof_RootTable"
    "read64 (get_mem fw wc) (root' + 72) = AllocatedSpace.Pages s"
    by simp_all
qed

section \<open>Properties\<close>

text \<open>
  C6: The kernel reads what the loader wrote: after a successful \<open>RecoverMemoryMap\<close> the table, read with the
  kernel's \<open>struct MemoryEntry\<close>, is the list of the firmware's descriptors, and \<open>NextMemoryEntryWithin\<close>
  over it visits, in order, exactly the descriptors of an available type that meet the region.
\<close>

theorem memory_map_handover:
  assumes "GetMemoryMap fw 0 NULL w0 = (w1, EFI_BUFFER_TOO_SMALL (efi fw), mapSize, ds)"
    and "AllocateLoaderBytes fw (mapSize + ds * 3) w1 = (w2, memMap)" "AllocatedSpace.Begin memMap \<noteq> NULL"
    and "GetMemoryMap fw (mapSize + ds * 3) (AllocatedSpace.Begin memMap) w2 = (w3, status, mapSize', ds')" "ds' \<noteq> 0"
    and "n = unat (mapSize' div ds')" "T = read64 (get_mem fw w3) (root' + 16)" "16 * n \<le> 2 ^ 64"
    and "word_bytes (root' + 16) \<inter> table_bytes T 0 n = {}"
    and "descriptors_apart fw (get_mem fw w3) (AllocatedSpace.Begin memMap) ds' T n"
    and "d = (\<lambda>i. descriptor_at fw (get_mem fw w3) (AllocatedSpace.Begin memMap + of_nat i * ds'))"
  shows "\<exists>m. RecoverMemoryMap fw root' w0 =
      Some (BS_FreePages fw (AllocatedSpace.Begin memMap) (AllocatedSpace.Pages memMap) (put_mem fw m w3), True) \<and>
    MemoryMap_at m T n = map (\<lambda>i. descriptor_entry fw (d i)) [0..<n] \<and>
    collect (\<lambda>cur. NextMemoryEntryWithin b len (MemoryMap_at m T n) cur n) (Suc n) None =
      Some (filter (\<lambda>i. IsAvailableMemoryType fw (efi_memory_descriptor.Type (d i)) \<and> PhysicalStart (d i) < b + len \<and>
        b < entry_end (descriptor_entry fw (d i))) [0..<n], None)"
proof -
  obtain m where run: "RecoverMemoryMap fw root' w0 =
      Some (BS_FreePages fw (AllocatedSpace.Begin memMap) (AllocatedSpace.Pages memMap) (put_mem fw m w3), True)"
    and "\<forall>i<n. entry_holds fw m (T + of_nat i * sizeof_MemoryEntry) (d i)"
    using RecoverMemoryMap_effect [OF assms(1-10)] assms(11) by blast
  then have "MemoryMap_at m T n = map (\<lambda>i. descriptor_entry fw (d i)) [0..<n]" by (intro MemoryMap_at_descriptors)
  with run iterate_descriptors [OF this, of b len] show ?thesis by blast
qed

lemma sample_entries:
  "map (\<lambda>i. descriptor_entry sample_firmware (descriptor_at sample_firmware (sample_descriptors sample_memory)
     (0x9000 + of_nat i * 48))) [0..<2] =
   [\<lparr>MemoryEntry.Begin = 0x1000, Pages = 2, Type = 1\<rparr>, \<lparr>MemoryEntry.Begin = 0x3000, Pages = 4, Type = 0\<rparr>]"
  by (simp add: upt_rec descriptor_entry_def sample_firmware_def sample_descriptors_def IsAvailableMemoryType_def sample_efi_def)

theorem memory_map_handover_witness:
  "\<exists>m. RecoverMemoryMap sample_firmware 0x1000 sample_memory = Some (m, True) \<and>
    MemoryMap_at m 0x1050 2 = [\<lparr>MemoryEntry.Begin = 0x1000, Pages = 2, Type = 1\<rparr>, \<lparr>MemoryEntry.Begin = 0x3000, Pages = 4, Type = 0\<rparr>]"
  using memory_map_handover [OF sample_calls(1) [of sample_memory] sample_calls(2) sample_run(1) sample_calls(3)
      sample_run(2-5) sample_header sample_run(6) refl]
  unfolding sample_calls AllocatedSpace.select_convs sample_entries by blast

text \<open>
  C7: The loader hands over a consistent root table. When \<open>FormRootTable\<close>, \<open>RecoverVideoMode\<close> and
  \<open>RecoverMemoryMap\<close> succeed one after the other, with nothing but the ACPI pointer in the first word
  written between the last two, and the firmware reports at most the six descriptors more that the table has
  room for, the finished table holds at the same time the capacity, the address of the entries, the block size,
  the video mode and all descriptors, and \<open>RecoverMemoryMap\<close> has written only to the table's own pages.
\<close>

theorem root_table_complete:
  assumes "keeps_bytes fw (block root' (4096 * unat (AllocatedSpace.Pages s)))"
    and "GetMemoryMap fw 0 NULL w0 = (w1, status0, mapSize0, ds0)" "ds0 \<noteq> 0"
    and "80 + 16 * (unat (mapSize0 div ds0) + 6) < 2 ^ 64"
    and "AllocateBytes fw (sizeof_RootTable + (mapSize0 div ds0 + 6) * sizeof_MemoryEntry) w1 = (w2, s)"
    and "FormRootTable fw w0 = Some (wa, root')"
    and "RequestProtocol fw (GRAPHICS_OUTPUT_GUID (efi fw)) wa = (wb, gop)" "gop \<noteq> NULL"
    and "RecoverVideoMode fw root' wa = (wc, True)"
    and "\<forall>q \<in> block root' (4096 * unat (AllocatedSpace.Pages s)) - word_bytes root'. get_mem fw wd q = get_mem fw wc q"
    and "GetMemoryMap fw 0 NULL wd = (w3, EFI_BUFFER_TOO_SMALL (efi fw), mapSize, ds)"
    and "AllocateLoaderBytes fw (mapSize + ds * 3) w3 = (w4, memMap)" "AllocatedSpace.Begin memMap \<noteq> NULL"
    and "GetMemoryMap fw (mapSize + ds * 3) (AllocatedSpace.Begin memMap) w4 = (w5, status, mapSize', ds')" "ds' \<noteq> 0"
    and "block root' (4096 * unat (AllocatedSpace.Pages s)) \<inter> block (AllocatedSpace.Begin memMap) (unat (mapSize + ds * 3)) = {}"
    and "n = unat (mapSize' div ds')" "n \<le> unat (mapSize0 div ds0) + 6"
    and "descriptors_apart fw (get_mem fw w5) (AllocatedSpace.Begin memMap) ds' (root' + sizeof_RootTable) n"
  shows "\<exists>m. RecoverMemoryMap fw root' wd =
      Some (BS_FreePages fw (AllocatedSpace.Begin memMap) (AllocatedSpace.Pages memMap) (put_mem fw m w5), True) \<and>
    unat (read64 m (root' + 8)) = unat (mapSize0 div ds0) + 6 \<and> read64 m (root' + 16) = root' + sizeof_RootTable \<and>
    read64 m (root' + 72) = AllocatedSpace.Pages s \<and>
    video_holds fw m (root' + 24) (gop_at fw (get_mem fw wb) gop) \<and>
    MemoryMap_at m (root' + sizeof_RootTable) n =
      map (\<lambda>i. descriptor_entry fw (descriptor_at fw (get_mem fw w5) (AllocatedSpace.Begin memMap + of_nat i * ds'))) [0..<n] \<and>
    (\<forall>q. q \<notin> block root' (4096 * unat (AllocatedSpace.Pages s)) \<longrightarrow> m q = get_mem fw w5 q)"
proof -
  let ?R = "block root' (4096 * unat (AllocatedSpace.Pages s))" and ?T = "root' + sizeof_RootTable"
  note started = root_table_started [OF assms(1-9)]
  have fits: "80 + 16 * (unat (mapSize0 div ds0) + 6) \<le> 4096 * unat (AllocatedSpace.Pages s)"
    by (rule root_table_fits [OF assms(4,5)])
  then have R: "block root' 80 \<subseteq> ?R" by (auto simp: block_def)
  have n: "80 + 16 * n \<le> 2 ^ 64" "16 * n \<le> 2 ^ 64" "80 + 16 * n \<le> 4096 * unat (AllocatedSpace.Pages s)"
    using assms(4,18) fits by auto
  have w5: "get_mem fw w5 q = get_mem fw wc q" if "q \<in> block root' 80 - word_bytes root'" for q
  proof -
    have "q \<in> ?R - word_bytes root'" using that R by blast
    with keeps_map_calls [OF assms(1,11,12,14,16), of q] assms(10) show ?thesis by auto
  qed
  have T: "?T = read64 (get_mem fw w5) (root' + 16)" using header_word_agree [of root' "get_mem fw w5" "get_mem fw wc" 16, OF w5] started(2) by simp
  obtain m where run: "RecoverMemoryMap fw root' wd =
      Some (BS_FreePages fw (AllocatedSpace.Begin memMap) (AllocatedSpace.Pages memMap) (put_mem fw m w5), True)"
    and entries: "\<forall>i<n. entry_holds fw m (?T + of_nat i * sizeof_MemoryEntry)
       (descriptor_at fw (get_mem fw w5) (AllocatedSpace.Begin memMap + of_nat i * ds'))"
    and frame: "\<forall>q. q \<notin> table_bytes ?T 0 n \<longrightarrow> m q = get_mem fw w5 q"
    using RecoverMemoryMap_effect [OF assms(11-15,17) T n(2) table_apart [OF n(1)] assms(19)] by blast
  have m: "m q = get_mem fw wc q" if "q \<in> block root' 80 - word_bytes root'" for q
    using frame w5 [OF that] that header_not_table [OF n(1), of root'] by auto
  note agree = header_word_agree [of root' m "get_mem fw wc", OF m]
  have "table_bytes ?T 0 n \<subseteq> ?R" by (rule table_in_block [OF n(3)])
  then have "\<forall>q. q \<notin> ?R \<longrightarrow> m q = get_mem fw w5 q" using frame by blast
  moreover have "video_holds fw m (root' + 24) (gop_at fw (get_mem fw wb) gop)"
    using video_holds_agree [of root' m "get_mem fw wc", OF m] started(4) by blast
  moreover have "unat (read64 m (root' + 8)) = unat (mapSize0 div ds0) + 6" "read64 m (root' + 16) = ?T"
    "read64 m (root' + 72) = AllocatedSpace.Pages s"
    using agree [of 8] agree [of 16] agree [of 72] started(1-3) by simp_all
  ultimately show ?thesis using run MemoryMap_at_descriptors [OF entries] by blast
qed

lemma sample_block: "q \<in> block 0x1000 4096 \<Longrightarrow> unat q < 0x2000"
  by (auto simp: block_def unat_word_ariths unat_of_nat take_bit_nat_eq_self)

lemma sample_keeps: "keeps_bytes sample_firmware (block 0x1000 (4096 * unat (1 :: u64)))"
  by (auto simp: keeps_bytes_def sample_firmware_def sample_descriptors_def dest!: sample_block)

lemma sample_buffer: "block 0x1000 (4096 * unat (1 :: u64)) \<inter> block 0x9000 (unat (96 + 48 * 3 :: u64)) = {}"
proof -
  have "0x9000 \<le> unat q" if "q \<in> block 0x9000 240" for q
    using that by (auto simp: block_def unat_word_ariths unat_of_nat take_bit_nat_eq_self)
  then show ?thesis using sample_block by fastforce
qed

theorem root_table_complete_witness:
  "\<exists>wd m. RecoverMemoryMap sample_firmware 0x1000 wd = Some (m, True) \<and> unat (read64 m 0x1008) = 8 \<and>
    read64 m 0x1010 = 0x1050 \<and> read64 m 0x1028 = 640 \<and> length (MemoryMap_at m 0x1050 2) = 2"
proof -
  let ?fw = sample_firmware and ?s = "\<lparr>AllocatedSpace.Begin = 0x1000, Pages = 1\<rparr> :: AllocatedSpace"
  have alloc: "AllocateBytes ?fw (sizeof_RootTable + (96 div 48 + 6) * sizeof_MemoryEntry) w = (w, ?s)" for w
    by (simp add: sample_firmware_def sample_efi_def AllocateBytes_def page_count_def sizeof_RootTable_value sizeof_MemoryEntry_def)
  have size: "80 + 16 * (unat (96 div 48 :: u64) + 6) < 2 ^ 64" "(48 :: u64) \<noteq> 0" by simp_all
  obtain wa where form: "FormRootTable ?fw (\<lambda>_. 0) = Some (wa, 0x1000)"
    using FormRootTable_effect [OF sample_calls(1) size(2,1) alloc, of "\<lambda>_. 0"] by auto
  have req: "RequestProtocol ?fw (GRAPHICS_OUTPUT_GUID (efi ?fw)) wa = (wa, 0x5000)"
    by (simp add: sample_firmware_def RequestProtocol_def)
  obtain wc where video: "RecoverVideoMode ?fw 0x1000 wa = (wc, True)"
    using RecoverVideoMode_effect [OF req, of "0x1000"] by (auto simp: Let_def)
  have T: "0x1000 + sizeof_RootTable = 0x1050" by (simp add: sizeof_RootTable_value)
  have gop: "HorizontalResolution (gop_at ?fw m p) = 640" for m p by (simp add: sample_firmware_def)
  have "\<exists>m. RecoverMemoryMap ?fw 0x1000 wc = Some (m, True) \<and> unat (read64 m 0x1008) = 8 \<and>
      read64 m 0x1010 = 0x1050 \<and> read64 m 0x1028 = 640"
    using root_table_complete [where root' = "0x1000" and s = ?s and wd = wc,
        OF _ sample_calls(1) size(2,1) alloc form req _ video _ sample_calls(1) sample_calls(2) sample_run(1)
          sample_calls(3) sample_run(2) _ sample_run(3)] sample_keeps sample_buffer sample_apart
    unfolding sample_calls AllocatedSpace.select_convs T by (auto simp: video_holds_def gop)
  then show ?thesis by (auto simp: MemoryMap_at_def)
qed



end
