(* ===== verification/Spec2Isabelle.thy ===== *)
theory Spec2Isabelle
  imports Page_Pool Range_Reuse Heap_Sort MCS_Memory MCS_Liveness Spin_Lock ACPI Slab_List Slab_Shared Boot_Handover
begin

text \<open>
  Generic OS: a UEFI boot loader and the parts of a kernel that exist so far. This development models
  the C sources under \<open>src/loader\<close> and \<open>src/kernel\<close> and proves what their functions do, where they
  do what their comments say and where they do not.

  \<^bold>\<open>The program.\<close> The loader (\<open>loader/loader.c\<close>, \<open>utils.c\<close>, \<open>elf.c\<close>) reads the kernel file, checks and
  loads it, forms a root table with the video mode, the ACPI pointer and the memory map, and calls the
  kernel. The kernel's entry point is still empty; what the sources hold are its components: the
  iterator over the memory map (\<open>kernel/memman/MemoryMap.c\<close>), the page-range allocator
  (\<open>MemoryRange.c\<close>) on skip lists (\<open>SkipList.c\<close>) with random heights (\<open>utils/Random.c\<close>), the SLAB
  allocator (\<open>SLAB.c\<close>) on the atomic operations and bit scans (\<open>utils/Atomic.c\<close>, \<open>Architecture.c\<close>), the
  MCS lock (\<open>utils/MCS.c\<close>), a heapsort (\<open>utils/Heapsort.c\<close>) and the ACPI tables (\<open>kernel/acpi\<close>).

  \<^bold>\<open>Modelling.\<close> Machine integers are words of their width, so every wrap-around of the code is in the
  model. A function that can fault (NULL or out-of-range access, division by zero, a shift by too
  much) returns an option with \<^const>\<open>None\<close> for the fault. Components on linked structures use a store
  of typed objects (\<open>sl_heap\<close>, \<open>mm_state\<close>); components on raw tables use byte memory
  (\<open>Byte_Memory\<close>) with the structure offsets of the x86-64 ABI. Code that is not in the sources is a
  parameter: the firmware (record \<open>firmware\<close>), the callbacks of the heapsort, the register
  allocation of inline assembly (\<open>reg_alloc\<close>), the locks the SLAB code calls, the result of the \<open>void\<close>
  function that \<open>SpinlockLock\<close> tests (any relation to the bytes its instructions load), and \<open>max\<close> and \<open>min\<close>
  of the ELF loader. Code that runs on several CPUs is a set of threads whose steps interleave, each step one
  access to memory, in a sequentially consistent memory.

  \<^bold>\<open>Conditions that matter.\<close> The bit scans have their operands in the wrong order in the assembly text, so
  their result depends on the registers the compiler assigns: the results on searching a slab and on
  orders assume \<open>Same_Register\<close>, say so, and come with what happens otherwise. The results on the MCS
  lock are about aligned tickets that were not used before and whose flag word, padding included, is clear;
  without each of these conditions the lock fails (\<open>MCS_stale_ticket_unsafe\<close>,
  \<open>MCS_reused_ticket_deadlocks\<close>, \<open>MCS_padding_unsafe\<close>). The allocator's results are about regions whose first bytes
  do not overlap \<open>MemoryInfo\<close>.

  \<^bold>\<open>Theories.\<close>

  \<^item> \<open>Kernel_Prelude\<close>: word types, generic lemmas on lists, stores and words.
  \<^item> \<open>Architecture\<close>: constants of \<open>Architecture.h\<close>, \<open>BSF\<close>, \<open>BSR\<close>, \<open>CPUAPICID\<close>.
  \<^item> \<open>Pseudo_Random\<close>: \<open>Random\<close>; its state map is injective and never gets stuck, its result lies
    between 0 and 1.
  \<^item> \<open>Skip_List\<close>: every operation of \<open>SkipList.c\<close> on a heap of nodes. A well-formed list is a
    family of linked levels (\<open>skl\<close>); insertion, removal and search are proved against lists. The
    locale \<open>node_lists\<close> is what the allocator relies on; it is interpreted with the skip list
    operations.
  \<^item> \<open>Memory_Range\<close>: every operation of \<open>MemoryRange.c\<close>, and its refinement by operations on a sorted
    list of ranges (\<open>mm_rep\<close>).
  \<^item> \<open>Memory_Space\<close>: the ranges as a set of free pages. Insertion adds the pages of the region,
    allocation takes the pages it returns, exact or not, over every reachable state (\<open>mm_reach\<close>).
  \<^item> \<open>Best_Steps\<close>: the loops of \<open>SkipListBest\<close> as a machine of single steps, which tells a search that never
    ends from a fault; it returns what \<open>SkipListBest\<close> returns.
  \<^item> \<open>Range_Reuse\<close>: what giving back the pages of an inexact allocation does to the lists.
  \<^item> \<open>Page_Pool\<close>: the allocator's interface as a locale and a client of it; interpreted with
    \<open>InsertNewMemoryRange\<close> and \<open>AllocatePages\<close>: regions taken together are disjoint, and giving them
    back restores the free pages.
  \<^item> \<open>Cursor\<close>: the interface of the iterator functions as a locale, with what a client loop collects;
    interpreted by \<open>Memory_Map\<close> and \<open>ACPI\<close>.
  \<^item> \<open>Memory_Map\<close>: \<open>NextMemoryEntryWithin\<close> visits the available entries that meet a region.
  \<^item> \<open>Heap_Sort\<close>: \<open>Heapify\<close> and \<open>Heapsort\<close> over abstract callbacks; they return, permute, sort what is
    a heap already, and do not sort in general.
  \<^item> \<open>Exclusive_Lock\<close>: the interface of a lock that excludes as a locale; interpreted, by way of
    \<open>queue_lock_impl\<close>, in \<open>MCS_Queue\<close> and \<open>MCS_Memory\<close>.
  \<^item> \<open>MCS_Lock\<close>: the middle layer of the proofs about the MCS lock, with tickets as records: the
    invariant of the queue of tickets. It is not the model of the code.
  \<^item> \<open>MCS_Queue\<close>: the queue lock as the specification of the MCS lock, and the locale
    \<open>queue_lock_impl\<close> of the locks that implement it, whose threads enter in the order of their arrival;
    every run on records is accepted.
  \<^item> \<open>MCS_Memory\<close>: \<open>MCSLock\<close> and \<open>MCSUnlock\<close> as steps on the bytes of the tickets, simulated by those on
    records: mutual exclusion, the order of entry, the queue that can be read off the memory, and what goes
    wrong with used tickets and with padding behind the flag.
  \<^item> \<open>MCS_Liveness\<close>: infinite runs on bytes; under a fair schedule no thread starves.
  \<^item> \<open>Spin_Lock\<close>: \<open>SpinlockLock\<close> and \<open>SpinlockRelease\<close> as interleaved steps, the load and the store of
    \<open>cmpxchgb\<close> apart: whatever the condition on which \<open>SpinlockLock\<close> loops means, it excludes nobody.
  \<^item> \<open>Byte_Memory\<close>, \<open>Atomic_Ops\<close>: little-endian memory, the read-modify-write operations on it.
  \<^item> \<open>ACPI\<close>: \<open>FindACPITable\<close>, \<open>SLITToLatencyTable\<close>, \<open>NextSRATEntry\<close>, \<open>LAPICProximityDomain\<close>.
  \<^item> \<open>Slab\<close>: every function of \<open>SLAB.c\<close>; the bitmap operations, taking and returning the first
    free block, orders and residual blocks.
  \<^item> \<open>Slab_List\<close>: the lists of partial slabs as lists in memory: removal takes out exactly the object,
    an added object cannot be removed.
  \<^item> \<open>Slab_Shared\<close>: one owner that takes blocks of a slab while other CPUs free and write theirs, as
    interleaved steps (\<open>slab_run\<close>): the blocks partition the page, held blocks never
    overlap, and a search misses no block that is free when it begins; with other registers it breaks.
  \<^item> \<open>Elf_Loader\<close>: \<open>ValidateELF\<close>, \<open>RetrieveELFInfo\<close>, \<open>LoadELF\<close>.
  \<^item> \<open>Uefi_Loader\<close>: \<open>utils.c\<close> and \<open>loader.c\<close> with \<open>main\<close>; the kernel is loaded inside its
    allocation, the root table and its bounds, the video mode, and that the ACPI check always fails.
  \<^item> \<open>Boot_Handover\<close>: the table the loader writes, read with the kernel's structure and iterated
    with the kernel's iterator; the finished root table with all that its stages wrote.

  \<^bold>\<open>Loops and fuel.\<close> Loops are recursive functions with a termination proof, except \<open>Heapify\<close>, the
  search loops of the skip list and the retry loop of \<open>AtomicCompareAndExchange8\<close>, which are partial
  functions: not returning is \<^const>\<open>None\<close>, and the theorems state that they return; where one states that a
  search does not, it does so over the steps of \<open>Best_Steps\<close>. \<open>collect\<close> runs a
  client loop with a bound on the calls; \<open>count + 1\<close> calls suffice for the memory map and one more
  than the number of entries for the affinity table, and its result does not change with more.

  \<^bold>\<open>Not modelled.\<close> \<open>KernelEntry\<close> has an empty body; \<open>NUMA.c\<close> holds an empty structure;
  \<open>MemoryManager.h\<close> and \<open>RegionToPool\<close> are declarations without code. \<open>Pause\<close> and the
  fences of the atomic macros have no effect in a memory without reordering. The diagnostic output of \<open>ValidateELF\<close> is left out. Two
  missing semicolons of \<open>RecoverACPITable\<close> are read as if present, and so are the undeclared names of
  \<open>SLAB.c\<close>.
\<close>

end
